(* ===== verification/Prelude.thy ===== *)
theory Prelude
  imports Main "HOL-Library.Word"
begin

unbundle bit_operations_syntax

text \<open>
  Shared vocabulary of the FreeVMS development: the machine integers of the AMD64 build, the
  outcome type of code that can halt, and the generic facts on words, lists and loops that the
  component theories use.

  \<open>u64\<close> is \<open>vms$pointer\<close>, \<open>L4_Word_t\<close> and \<open>unsigned long\<close>; \<open>u32\<close> is \<open>unsigned int\<close>, and a
  32-bit word read with \<open>sint\<close> is \<open>int\<close>; \<open>u8\<close> is \<open>unsigned char\<close>. A C shift \<open>x << n\<close> is
  \<open>push_bit n x\<close>, a logical shift \<open>x >> n\<close> is \<open>drop_bit n x\<close>.

  An \<open>outcome\<close> is what a C function does: it returns a value (\<open>Ret\<close>), it fires the \<open>PANIC\<close> macro of
  \<open>include/freevms/freevms.h\<close>, which never returns (\<open>Panic\<close>), it reads or writes through a bad
  pointer or outside an array (\<open>Fault\<close>), or the model's fuel ran out before it did any of those
  (\<open>Timeout\<close>).
\<close>

section \<open>Machine integers\<close>

type_synonym u8 = "8 word"
type_synonym u16 = "16 word"
type_synonym u32 = "32 word"
type_synonym u64 = "64 word"

named_theorems fpage_simps \<open>reading back the fields of L4 flexpages\<close>
named_theorems outcome_simps \<open>propagation of outcomes through sequencing\<close>
named_theorems region_simps \<open>address sets of memory regions\<close>

section \<open>Outcomes\<close>

datatype 'a outcome = Ret 'a | Panic | Fault | Timeout

primrec bindo :: "'a outcome \<Rightarrow> ('a \<Rightarrow> 'b outcome) \<Rightarrow> 'b outcome" where
  "bindo (Ret x) f = f x"
| "bindo Panic f = Panic"
| "bindo Fault f = Fault"
| "bindo Timeout f = Timeout"

definition panic_if :: "bool \<Rightarrow> 'a outcome \<Rightarrow> 'a outcome" where
  "panic_if b k = (if b then Panic else k)"

definition fault_if :: "bool \<Rightarrow> 'a outcome \<Rightarrow> 'a outcome" where
  "fault_if b k = (if b then Fault else k)"

lemma bindo_eq_Ret_iff [simp, outcome_simps]:
  "bindo m f = Ret y \<longleftrightarrow> (\<exists>x. m = Ret x \<and> f x = Ret y)"
  by (cases m) auto

lemma bindo_eq_Timeout_iff [outcome_simps]:
  "bindo m f = Timeout \<longleftrightarrow> m = Timeout \<or> (\<exists>x. m = Ret x \<and> f x = Timeout)"
  by (cases m) auto

lemma panic_if_simps [simp]:
  "panic_if True k = Panic"
  "panic_if False k = k"
  "panic_if b k = Ret y \<longleftrightarrow> \<not> b \<and> k = Ret y"
  "panic_if b k = Timeout \<longleftrightarrow> \<not> b \<and> k = Timeout"
  by (auto simp: panic_if_def)

lemma fault_if_simps [simp]:
  "fault_if True k = Fault"
  "fault_if False k = k"
  "fault_if b k = Ret y \<longleftrightarrow> \<not> b \<and> k = Ret y"
  "fault_if b k = Timeout \<longleftrightarrow> \<not> b \<and> k = Timeout"
  by (auto simp: fault_if_def)

lemma bindo_assoc: "bindo (bindo m f) g = bindo m (\<lambda>x. bindo (f x) g)"
  by (cases m) auto

section \<open>Words\<close>

lemma unat_2_pow [simp]: "n < 64 \<Longrightarrow> unat ((2 :: u64) ^ n) = 2 ^ n"
proof -
  assume n: "n < 64"
  have "(2 :: nat) ^ n < 2 ^ 64"
    using n by (rule power_strict_increasing) simp
  moreover have "unat (push_bit n (1 :: u64)) = take_bit 64 (push_bit n (unat (1 :: u64)))"
    by (simp only: unsigned_push_bit_eq len_of_numeral_defs)
       (simp add: push_bit_eq_mult)
  ultimately show ?thesis
    by (simp add: push_bit_eq_mult take_bit_eq_mod)
qed

lemma pow_minus_1: "(2 :: u64) ^ n - 1 = mask n"
  by (simp add: mask_eq_exp_minus_1)

lemma unat_mask64: "n < 64 \<Longrightarrow> unat (mask n :: u64) = 2 ^ n - 1"
proof -
  assume n: "n < 64"
  have "(1 :: u64) \<le> 2 ^ n"
    using n by (simp add: word_le_nat_alt unat_2_pow)
  then show ?thesis
    using n by (simp add: mask_eq_exp_minus_1 unat_sub unat_2_pow)
qed

lemma take_bit_eq_0_iff_dvd: "take_bit n (w :: u64) = 0 \<longleftrightarrow> 2 ^ n dvd unat w"
  by (metis dvd_eq_mod_eq_0 take_bit_eq_mod unat_eq_0 unsigned_take_bit_eq)

lemma and_not_mask_eq: "(w :: u64) AND NOT (mask n) = w - take_bit n w"
proof -
  have "w = (w AND NOT (mask n)) + take_bit n w"
  proof -
    have disj: "(w AND NOT (mask n)) AND take_bit n w = 0"
      by (rule bit_word_eqI) (auto simp: bit_simps)
    have "(w AND NOT (mask n)) + take_bit n w = (w AND NOT (mask n)) OR take_bit n w"
      using disj by (rule disjunctive_add_eq_or)
    also have "\<dots> = w"
      by (rule bit_word_eqI) (auto simp: bit_simps)
    finally show ?thesis by simp
  qed
  then show ?thesis by (metis add_diff_cancel_right')
qed

lemma unat_and_not_mask: "unat ((w :: u64) AND NOT (mask n)) = unat w - unat w mod 2 ^ n"
proof -
  have le: "take_bit n w \<le> w"
    unfolding word_le_nat_alt unsigned_take_bit_eq by (rule take_bit_nat_less_eq_self)
  show ?thesis
    unfolding and_not_mask_eq
    unfolding unat_sub [OF le] unsigned_take_bit_eq by (simp add: take_bit_eq_mod)
qed

lemma aligned_and_not_mask: "2 ^ n dvd unat (w :: u64) \<Longrightarrow> w AND NOT (mask n) = w"
  by (simp add: and_not_mask_eq take_bit_eq_0_iff_dvd [THEN iffD2])

lemma dvd_pow_le: "(2::nat) ^ n dvd x \<Longrightarrow> m \<le> n \<Longrightarrow> 2 ^ m dvd x"
  by (meson dvd_trans le_imp_power_dvd)

lemma unat_add_no_wrap: "unat (a :: u64) + unat b < 2 ^ 64 \<Longrightarrow> unat (a + b) = unat a + unat b"
  by (simp add: unat_word_ariths)

lemma unat_Suc_no_wrap: "unat (a :: u64) + 1 < 2 ^ 64 \<Longrightarrow> unat (a + 1) = unat a + 1"
  by (simp add: unat_word_ariths)

lemma unat_diff_no_wrap: "b \<le> (a :: u64) \<Longrightarrow> unat (a - b) = unat a - unat b"
  by (simp add: unat_sub)

lemma unat_lt64 [simp]: "unat (w :: u64) < 18446744073709551616"
  using unsigned_less [of w, where ?'a = nat] by simp

lemma unat_plus_1_less: "(a :: u64) < b \<Longrightarrow> unat (a + 1) = unat a + 1"
proof -
  assume "a < b"
  then have "unat a < unat b" by (simp add: word_less_nat_alt)
  moreover have "unat b < 2 ^ 64" using unat_lt64 [of b] by simp
  ultimately have "unat a + 1 < 2 ^ 64" by linarith
  then show ?thesis by (rule unat_Suc_no_wrap)
qed

lemma unat_minus_1_less: "(b :: u64) < a \<Longrightarrow> unat (a - 1) = unat a - 1"
proof -
  assume "b < a"
  then have "unat b < unat a" by (simp add: word_less_nat_alt)
  then have "1 \<le> a" by (simp add: word_le_nat_alt)
  then show ?thesis by (simp add: unat_diff_no_wrap)
qed

section \<open>Lists and arrays\<close>

lemma nth_list_update_if: "i < length xs \<Longrightarrow> (xs[j := v]) ! i = (if i = j then v else xs ! i)"
  by (auto simp: nth_list_update)

text \<open>The values of a C \<open>int\<close>.\<close>

definition int_range :: "int \<Rightarrow> bool" where
  "int_range v \<longleftrightarrow> - 2147483648 \<le> v \<and> v \<le> 2147483647"

end
