(* ===== verification/L4_Types.thy ===== *)
theory L4_Types
  imports Prelude
begin

unbundle bit_operations_syntax

text \<open>
  The L4 data types FreeVMS computes with, from \<open>kernel/include/l4/types.h\<close> on AMD64: flexpages
  and thread identifiers. A value of \<open>L4_Fpage_t\<close> is its \<open>raw\<close> word; the union's bit fields are
  \<open>rwx\<close> (bits 0 to 2), \<open>extended\<close> (bit 3), \<open>s\<close> (bits 4 to 9) and \<open>b\<close> (bits 10 to 63). A value of
  \<open>L4_ThreadId_t\<close> is its \<open>raw\<close> word with \<open>version\<close> in the low and \<open>thread_no\<close> in the high half.
  The lemmas show that a flexpage built on an aligned base reads back its base, size and rights.
\<close>

section \<open>Flexpages\<close>

type_synonym fpage = u64

definition L4_NoAccess :: u64 where "L4_NoAccess = 0"
definition L4_FullyAccessible :: u64 where "L4_FullyAccessible = 7"
definition L4_Nilpage :: fpage where "L4_Nilpage = 0"

definition X_rwx :: "fpage \<Rightarrow> u64" where
  "X_rwx f = take_bit 3 f"

definition X_s :: "fpage \<Rightarrow> u64" where
  "X_s f = take_bit 6 (drop_bit 4 f)"

definition set_X_rwx :: "fpage \<Rightarrow> u64 \<Rightarrow> fpage" where
  "set_X_rwx f v = (f AND NOT (mask 3)) OR take_bit 3 v"

definition set_X_s :: "fpage \<Rightarrow> u64 \<Rightarrow> fpage" where
  "set_X_s f v = (f AND NOT (push_bit 4 (mask 6))) OR push_bit 4 (take_bit 6 v)"

definition L4_IsNilFpage :: "fpage \<Rightarrow> bool" where
  "L4_IsNilFpage f \<longleftrightarrow> f = 0"

definition L4_Rights :: "fpage \<Rightarrow> u64" where
  "L4_Rights f = X_rwx f"

definition L4_Set_Rights :: "fpage \<Rightarrow> u64 \<Rightarrow> fpage" where
  "L4_Set_Rights f rwx = set_X_rwx f rwx"

text \<open>\<open>__L4_Msb\<close> is the \<open>bsrq\<close> instruction: the index of the highest set bit, undefined on 0.\<close>

fun msb_below :: "nat \<Rightarrow> u64 \<Rightarrow> nat" where
  "msb_below 0 w = 0"
| "msb_below (Suc n) w = (if bit w n then n else msb_below n w)"

definition L4_Msb :: "u64 \<Rightarrow> nat" where
  "L4_Msb w = msb_below 64 w"

definition L4_Fpage :: "u64 \<Rightarrow> u64 \<Rightarrow> fpage" where
  "L4_Fpage BaseAddress FpageSize =
     (let m = L4_Msb FpageSize;
          fp = set_X_s BaseAddress
                 (of_nat (if push_bit m 1 < FpageSize then m + 1 else m))
      in set_X_rwx fp L4_NoAccess)"

definition L4_FpageLog2 :: "u64 \<Rightarrow> nat \<Rightarrow> fpage" where
  "L4_FpageLog2 BaseAddress FpageSize =
     set_X_rwx (set_X_s BaseAddress (of_nat FpageSize)) L4_NoAccess"

definition L4_SizeLog2 :: "fpage \<Rightarrow> nat" where
  "L4_SizeLog2 f = unat (X_s f)"

definition L4_Address :: "fpage \<Rightarrow> u64" where
  "L4_Address f = f AND NOT (push_bit (unat (X_s f)) 1 - 1)"

definition L4_Size :: "fpage \<Rightarrow> u64" where
  "L4_Size f = (if X_s f = 0 then 0 else push_bit (unat (X_s f)) 1)"

section \<open>Thread identifiers\<close>

type_synonym thread_id = u64

definition L4_nilthread :: thread_id where "L4_nilthread = 0"

definition L4_GlobalId :: "u64 \<Rightarrow> u64 \<Rightarrow> thread_id" where
  "L4_GlobalId threadno version = push_bit 32 (take_bit 32 threadno) OR take_bit 32 version"

definition L4_Version :: "thread_id \<Rightarrow> u64" where
  "L4_Version t = take_bit 32 t"

definition L4_ThreadNo :: "thread_id \<Rightarrow> u64" where
  "L4_ThreadNo t = drop_bit 32 t"

definition L4_IsNilThread :: "thread_id \<Rightarrow> bool" where
  "L4_IsNilThread t \<longleftrightarrow> t = 0"

definition L4_IsLocalId :: "thread_id \<Rightarrow> bool" where
  "L4_IsLocalId t \<longleftrightarrow> take_bit 6 t = 0"

definition L4_IsGlobalId :: "thread_id \<Rightarrow> bool" where
  "L4_IsGlobalId t \<longleftrightarrow> take_bit 6 t \<noteq> 0"

section \<open>Reading flexpages back\<close>

lemma X_s_less: "unat (X_s f) < 64"
proof -
  have "unat (X_s f) = take_bit 6 (unat (drop_bit 4 f))"
    by (simp add: X_s_def unsigned_take_bit_eq)
  also have "\<dots> < 2 ^ 6" by (rule take_bit_nat_less_exp)
  finally show ?thesis by simp
qed

lemma X_s_set [fpage_simps]: "X_s (set_X_rwx (set_X_s b v) r) = take_bit 6 v"
  unfolding X_s_def set_X_rwx_def set_X_s_def
  by (rule bit_word_eqI) (auto simp: bit_simps)

lemma X_s_set_rwx [fpage_simps]: "X_s (set_X_rwx f r) = X_s f"
  unfolding X_s_def set_X_rwx_def by (rule bit_word_eqI) (auto simp: bit_simps)

lemma X_rwx_set [fpage_simps]: "X_rwx (set_X_rwx f r) = take_bit 3 r"
  unfolding X_rwx_def set_X_rwx_def by (rule bit_word_eqI) (auto simp: bit_simps)

lemma take_bit_6_of_nat: "n < 64 \<Longrightarrow> take_bit 6 (of_nat n :: u64) = of_nat n"
  by (simp only: take_bit_of_nat) (simp add: take_bit_eq_mod)

lemma unat_of_nat64: "n < 64 \<Longrightarrow> unat (of_nat n :: u64) = n"
  by (simp add: unat_of_nat)

lemma SizeLog2_FpageLog2 [fpage_simps]: "n < 64 \<Longrightarrow> L4_SizeLog2 (L4_FpageLog2 b n) = n"
  by (simp add: L4_SizeLog2_def L4_FpageLog2_def X_s_set take_bit_6_of_nat unat_of_nat64)

lemma Size_SizeLog2 [fpage_simps]:
  "0 < L4_SizeLog2 f \<Longrightarrow> unat (L4_Size f) = 2 ^ L4_SizeLog2 f"
  using X_s_less [of f] by (auto simp: L4_Size_def L4_SizeLog2_def)

lemma Address_eq: "L4_Address f = f AND NOT (mask (L4_SizeLog2 f))"
  by (simp add: L4_Address_def L4_SizeLog2_def pow_minus_1)

lemma Address_set_low:
  "10 \<le> n \<Longrightarrow> set_X_rwx (set_X_s b v) r AND NOT (mask n) = b AND NOT (mask n)"
  unfolding set_X_rwx_def set_X_s_def by (rule bit_word_eqI) (auto simp: bit_simps)

lemma Address_FpageLog2 [fpage_simps]:
  "10 \<le> n \<Longrightarrow> n < 64 \<Longrightarrow> L4_Address (L4_FpageLog2 b n) = b AND NOT (mask n)"
  by (simp add: Address_eq SizeLog2_FpageLog2) (simp add: L4_FpageLog2_def Address_set_low)

lemma Address_FpageLog2_aligned [fpage_simps]:
  "10 \<le> n \<Longrightarrow> n < 64 \<Longrightarrow> 2 ^ n dvd unat b \<Longrightarrow> L4_Address (L4_FpageLog2 b n) = b"
  by (simp add: Address_FpageLog2 aligned_and_not_mask)

lemma Size_FpageLog2 [fpage_simps]:
  "0 < n \<Longrightarrow> n < 64 \<Longrightarrow> unat (L4_Size (L4_FpageLog2 b n)) = 2 ^ n"
  by (simp add: Size_SizeLog2 SizeLog2_FpageLog2)

lemma Set_Rights_simps [fpage_simps]:
  "L4_SizeLog2 (L4_Set_Rights f r) = L4_SizeLog2 f"
  "L4_Size (L4_Set_Rights f r) = L4_Size f"
  "L4_Rights (L4_Set_Rights f r) = take_bit 3 r"
  by (simp_all add: L4_SizeLog2_def L4_Size_def L4_Set_Rights_def L4_Rights_def
      X_s_set_rwx X_rwx_set)

lemma Nilpage_simps [simp]:
  "L4_SizeLog2 L4_Nilpage = 0" "L4_Size L4_Nilpage = 0" "L4_IsNilFpage L4_Nilpage"
  by (simp_all add: L4_SizeLog2_def L4_Size_def L4_Nilpage_def X_s_def L4_IsNilFpage_def)

lemma FpageLog2_not_nil: "0 < n \<Longrightarrow> n < 64 \<Longrightarrow> \<not> L4_IsNilFpage (L4_FpageLog2 b n)"
  by (metis L4_IsNilFpage_def L4_Nilpage_def Nilpage_simps(1) SizeLog2_FpageLog2 less_irrefl)

lemma msb_below_exp: "k < n \<Longrightarrow> n \<le> 64 \<Longrightarrow> msb_below n (push_bit k 1) = k"
  by (induction n) (auto simp: bit_simps less_Suc_eq)

lemma L4_Msb_exp: "k < 64 \<Longrightarrow> L4_Msb (push_bit k 1) = k"
  by (simp only: L4_Msb_def msb_below_exp)

lemma L4_Fpage_exp: "k < 64 \<Longrightarrow> L4_Fpage b (push_bit k 1) = L4_FpageLog2 b k"
  by (simp add: L4_Fpage_def L4_FpageLog2_def Let_def L4_Msb_exp [simplified])

section \<open>Reading thread identifiers back\<close>

lemma ThreadNo_GlobalId: "L4_ThreadNo (L4_GlobalId n v) = take_bit 32 n"
  unfolding L4_ThreadNo_def L4_GlobalId_def
  by (rule bit_word_eqI) (auto simp: bit_simps)

lemma Version_GlobalId: "L4_Version (L4_GlobalId n v) = take_bit 32 v"
  unfolding L4_Version_def L4_GlobalId_def
  by (rule bit_word_eqI) (auto simp: bit_simps)

lemma GlobalId_inj:
  "L4_GlobalId n v = L4_GlobalId n' v \<longleftrightarrow> take_bit 32 n = take_bit 32 n'"
  by (metis L4_GlobalId_def ThreadNo_GlobalId)

end
