(* ===== verification/Formatted_Output.thy ===== *)
theory Formatted_Output
  imports L4_Types
begin

unbundle bit_operations_syntax

text \<open>
  The formatted output of the run-time library, \<open>librtl/rtl_sprint.c\<close>, and the copying of strings,
  \<open>librtl/rtl_str.c\<close>.

  A string descriptor \<open>vms$string\<close> has an array of \<open>length\<close> characters, of which \<open>length_trim\<close> are in
  use. The format is the list of all characters of its array with its \<open>length_trim\<close>; the routine
  reads the character behind the last one in use, and reading outside the array is a fault. The
  output is the list of the characters written so far: the pointers \<open>p\<close> and \<open>str_ptr\<close> advance
  together. The variable \<open>size\<close> is the room that is left; the macros \<open>PUTCH\<close> and \<open>PUTSTR\<close> jump to
  the end of the routine when there is none. The arguments are pointers to values; a missing one, or
  one of another type than the conversion reads, is a fault.

  Arithmetic on \<open>double\<close> is that of the machine and is a parameter of the conversion \<open>f\<close>.
\<close>

section \<open>Writing\<close>

text \<open>\<open>Room n out\<close>: there is room for \<open>n\<close> more characters. \<open>Full out\<close>: the routine has jumped to its
  end.\<close>

datatype outbuf = Room nat string | Full string

fun putch :: "char \<Rightarrow> outbuf \<Rightarrow> outbuf" where
  "putch c (Room 0 out) = Full out"
| "putch c (Room (Suc n) out) = Room n (out @ [c])"
| "putch c (Full out) = Full out"

definition putstr :: "string \<Rightarrow> outbuf \<Rightarrow> outbuf" where
  "putstr s o1 = fold putch s o1"

text \<open>The paddings; a count that is not positive writes nothing.\<close>

definition pad :: "char \<Rightarrow> int \<Rightarrow> outbuf \<Rightarrow> outbuf" where
  "pad c n = putstr (replicate (nat n) c)"

section \<open>Arguments\<close>

datatype 'd arg = Arg_int u32 | Arg_long u64 | Arg_double 'd | Arg_tid thread_id | Arg_string string

fun next_int :: "'d arg list \<Rightarrow> (u32 \<times> 'd arg list) outcome" where
  "next_int (Arg_int v # as) = Ret (v, as)"
| "next_int _ = Fault"

fun next_word :: "bool \<Rightarrow> 'd arg list \<Rightarrow> (u64 \<times> 'd arg list) outcome" where
  "next_word True (Arg_long v # as) = Ret (v, as)"
| "next_word False (Arg_int v # as) = Ret (scast v, as)"
| "next_word _ _ = Fault"

section \<open>Directives\<close>

record directive =
  f_left :: bool
  f_sign :: bool
  f_space :: bool
  f_zero :: bool
  f_alternate :: bool
  f_long :: bool
  width :: int
  precision :: int

definition no_flags :: directive where
  "no_flags = \<lparr>f_left = False, f_sign = False, f_space = False, f_zero = False, f_alternate = False, f_long = False,
     width = -1, precision = -1\<rparr>"

text \<open>The rest of the format with the position of its first character.\<close>

type_synonym input = "nat \<times> string"

fun parse_flags :: "nat \<Rightarrow> string \<Rightarrow> directive \<Rightarrow> (directive \<times> input) outcome" where
  "parse_flags i [] d = Fault"
| "parse_flags i (c # cs) d =
     (if c = CHR ''-'' then parse_flags (i + 1) cs (d\<lparr>f_left := True\<rparr>)
      else if c = CHR ''+'' then parse_flags (i + 1) cs (d\<lparr>f_sign := True\<rparr>)
      else if c = CHR '' '' then parse_flags (i + 1) cs (d\<lparr>f_space := True\<rparr>)
      else if c = CHR ''0'' then parse_flags (i + 1) cs (d\<lparr>f_zero := True\<rparr>)
      else if c = CHR ''#'' then parse_flags (i + 1) cs (d\<lparr>f_alternate := True\<rparr>)
      else Ret (d, (i, c # cs)))"

text \<open>The loops that read a number: every character from \<open>lo\<close> to the digit 9 counts. The overflow of
  the \<open>int\<close> is undefined.\<close>

fun parse_number :: "nat \<Rightarrow> nat \<Rightarrow> string \<Rightarrow> int \<Rightarrow> (int \<times> input) outcome" where
  "parse_number lo i [] v = Fault"
| "parse_number lo i (c # cs) v =
     (if lo \<le> of_char c \<and> (of_char c :: nat) \<le> 57
      then let v' = v * 10 + (of_char c - 48)
           in fault_if (\<not> int_range v') (parse_number lo (i + 1) cs v')
      else Ret (v, (i, c # cs)))"

definition is_digit :: "char \<Rightarrow> bool" where
  "is_digit c \<longleftrightarrow> 48 \<le> (of_char c :: nat) \<and> (of_char c :: nat) \<le> 57"

text \<open>The width: the asterisk takes an argument, but the format is not advanced behind it.\<close>

definition parse_width :: "nat \<Rightarrow> string \<Rightarrow> 'd arg list \<Rightarrow> (int \<times> input \<times> 'd arg list) outcome" where
  "parse_width i s as =
     (case s of
        [] \<Rightarrow> Fault
      | c # cs \<Rightarrow>
          if c = CHR ''*'' then bindo (next_int as) (\<lambda>(v, as). Ret (sint v, (i, s), as))
          else if is_digit c then bindo (parse_number 48 i s 0) (\<lambda>(v, inp). Ret (v, inp, as))
          else Ret (-1, (i, s), as))"

text \<open>The precision: the loop compares with the number 0 and not with the digit.\<close>

definition parse_precision :: "nat \<Rightarrow> string \<Rightarrow> 'd arg list \<Rightarrow> (int \<times> input \<times> 'd arg list) outcome" where
  "parse_precision i s as =
     (case s of
        [] \<Rightarrow> Fault
      | c # cs \<Rightarrow>
          if c = CHR ''.'' then
            case cs of
              [] \<Rightarrow> Fault
            | c # cs' \<Rightarrow>
                if c = CHR ''*'' then bindo (next_int as) (\<lambda>(v, as). Ret (sint v, (i + 2, cs'), as))
                else if is_digit c then bindo (parse_number 0 (i + 1) cs 0) (\<lambda>(v, inp). Ret (v, inp, as))
                else Ret (-1, (i + 1, cs), as)
          else Ret (-1, (i, s), as))"

text \<open>The length modifier: only \<open>l\<close> has an effect.\<close>

definition parse_modifier :: "nat \<Rightarrow> string \<Rightarrow> (bool \<times> input) outcome" where
  "parse_modifier i s =
     (case s of
        [] \<Rightarrow> Fault
      | c # cs \<Rightarrow> if c \<in> {CHR ''h'', CHR ''l'', CHR ''L''} then Ret (c = CHR ''l'', (i + 1, cs)) else Ret (False, (i, s)))"

section \<open>Numbers\<close>

text \<open>The digits in reverse order, as in the array \<open>convert\<close>.\<close>

function rev_digits :: "string \<Rightarrow> nat \<Rightarrow> string" where
  "rev_digits digits uval =
     (let b = length digits; c = digits ! (uval mod b)
      in if 2 \<le> b \<and> 0 < uval div b then c # rev_digits digits (uval div b) else [c])"
  by pat_completeness auto
termination
proof (relation "measure snd")
  fix digits :: string and uval b :: nat
  assume "2 \<le> b \<and> 0 < uval div b" and b: "b = length digits"
  then have "uval div b < uval" by (intro div_less_dividend) (auto intro: ccontr)
  then show "((digits, uval div b), digits, uval) \<in> measure snd" by simp
qed simp

declare rev_digits.simps [simp del]

definition sign_char :: "directive \<Rightarrow> bool \<Rightarrow> u64 \<Rightarrow> char option" where
  "sign_char d sign uval =
     (if \<not> sign then None
      else if f_sign d \<and> 0 \<le> sint uval then Some (CHR ''+'')
      else if f_space d \<and> 0 \<le> sint uval then Some (CHR '' '')
      else if sint uval < 0 then Some (CHR ''-'')
      else None)"

definition opt_len :: "char option \<Rightarrow> int" where
  "opt_len c = (if c = None then 0 else 1)"

definition prefix_of :: "directive \<Rightarrow> nat \<Rightarrow> string" where
  "prefix_of d base =
     (if \<not> f_alternate d then []
      else if base = 2 then ''% '' else if base = 8 then ''o'' else if base = 16 then ''$ '' else [])"

text \<open>From the label \<open>Print_signed\<close> to the end of the case.\<close>

definition put_number :: "directive \<Rightarrow> string \<Rightarrow> bool \<Rightarrow> u64 \<Rightarrow> outbuf \<Rightarrow> outbuf" where
  "put_number d digits sign uval o1 =
     (let base = length digits;
          signch = sign_char d sign uval;
          uval = (if signch = Some (CHR ''-'') then - uval else uval);
          convert = rev_digits digits (unat uval);
          numdigits = int (length convert);
          prefix = prefix_of d base;
          numpr = (if numdigits > precision d then numdigits else precision d) + opt_len signch + int (length prefix);
          left_pad = (if \<not> f_left d \<and> width d > numpr \<and> \<not> f_zero d then width d - numpr else 0);
          numpr = (if \<not> f_left d \<and> width d > numpr \<and> f_zero d then width d else numpr);
          o2 = pad (CHR '' '') left_pad o1;
          o3 = (case signch of None \<Rightarrow> o2 | Some c \<Rightarrow> putch c o2);
          numpr = numpr - opt_len signch;
          o4 = putstr prefix o3;
          numpr = numpr - int (length prefix);
          o5 = pad (CHR ''0'') (numpr - numdigits) o4;
          o6 = putstr (rev convert) o5
      in if f_left d then pad (CHR '' '') ((width d - numpr) - opt_len signch) o6 else o6)"

definition put_dec :: "u64 \<Rightarrow> outbuf \<Rightarrow> outbuf" where
  "put_dec num = putstr (rev (rev_digits ''0123456789'' (unat num)))"

section \<open>Floating point\<close>

text \<open>What the code asks of \<open>double\<close>: the comparisons with 0 and 1, the negation, the conversion to
  \<open>unsigned long\<close>, the subtraction of the converted value, and the multiplication by 10.\<close>

record 'd fpu =
  fp_ge0 :: "'d \<Rightarrow> bool"
  fp_lt0 :: "'d \<Rightarrow> bool"
  fp_ge1 :: "'d \<Rightarrow> bool"
  fp_neg :: "'d \<Rightarrow> 'd"
  fp_trunc :: "'d \<Rightarrow> u64"
  fp_frac :: "'d \<Rightarrow> 'd"
  fp_mul10 :: "'d \<Rightarrow> 'd"

partial_function (option) fraction :: "'d fpu \<Rightarrow> 'd \<Rightarrow> 'd option" where
  "fraction F v = (if fp_ge1 F v then fraction F (fp_frac F v) else Some v)"

fun fraction_digits :: "'d fpu \<Rightarrow> nat \<Rightarrow> 'd \<Rightarrow> string" where
  "fraction_digits F 0 v = []"
| "fraction_digits F (Suc n) v =
     (let v = fp_mul10 F v in char_of (48 + unat (fp_trunc F v)) # fraction_digits F n (fp_frac F v))"

text \<open>The point and the digits behind it; nothing is computed when the routine has ended before.\<close>

fun put_fraction :: "'d fpu \<Rightarrow> int \<Rightarrow> 'd \<Rightarrow> outbuf \<Rightarrow> outbuf outcome" where
  "put_fraction F prec v (Full out) = Ret (Full out)"
| "put_fraction F prec v (Room n out) =
     (if prec > 0
      then case fraction F v of
             None \<Rightarrow> Timeout
           | Some v \<Rightarrow> Ret (putstr (fraction_digits F (nat prec) v) (putch (CHR ''.'') (Room n out)))
      else Ret (Room n out))"

definition put_double :: "'d fpu \<Rightarrow> directive \<Rightarrow> 'd \<Rightarrow> outbuf \<Rightarrow> outbuf outcome" where
  "put_double F d v o1 =
     (let prec = (if precision d = -1 then 6 else precision d);
          signch = (if f_sign d \<and> fp_ge0 F v then Some (CHR ''+'')
                    else if f_space d \<and> fp_ge0 F v then Some (CHR '' '')
                    else if fp_lt0 F v then Some (CHR ''-'') else None);
          v = (if signch = Some (CHR ''-'') then fp_neg F v else v);
          convert = rev_digits ''0123456789'' (unat (fp_trunc F v));
          numpr = int (length convert) + opt_len signch + (if prec > 0 then 1 + prec else 0);
          o2 = (if f_left d then o1 else pad (if f_zero d then CHR ''0'' else CHR '' '') (width d - numpr) o1);
          o3 = (case signch of None \<Rightarrow> o2 | Some c \<Rightarrow> putch c o2);
          o4 = putstr (rev convert) o3
      in bindo (put_fraction F prec v o4) (\<lambda>o5.
           Ret (if f_left d then pad (CHR '' '') (width d - numpr) o5 else o5)))"

section \<open>Thread identifiers and strings\<close>

definition put_tid :: "thread_id \<Rightarrow> outbuf \<Rightarrow> outbuf" where
  "put_tid tid o1 =
     (if L4_IsNilThread tid then putstr ''NIL THREAD IDENTIFIER'' o1
      else if L4_IsGlobalId tid
      then put_dec (L4_Version tid) (putstr '', ver='' (put_dec (L4_ThreadNo tid) (putstr ''GlobalThreadId='' o1)))
      else if L4_IsLocalId tid then put_dec (drop_bit 6 tid) (putstr ''LocalThreadid='' o1)
      else put_dec tid (putstr ''MalformedThreadId='' o1))"

text \<open>When the width is not positive the printed size keeps the value of an earlier conversion, which is
  not negative, so that the right padding is empty.\<close>

definition put_string :: "directive \<Rightarrow> string \<Rightarrow> outbuf \<Rightarrow> outbuf" where
  "put_string d s o1 =
     (let numpr = (if precision d \<ge> 0 \<and> precision d < int (length s) then precision d else int (length s));
          o2 = (if width d > 0 \<and> \<not> f_left d
                then pad (if f_zero d then CHR ''0'' else CHR '' '') (width d - numpr) o1 else o1);
          o3 = putstr (if precision d \<ge> 0 then take (nat (precision d)) s else s) o2
      in if f_left d \<and> width d > 0 then pad (CHR '' '') (width d - numpr) o3 else o3)"

section \<open>The routine\<close>

definition oct_digits :: string where "oct_digits = ''01234567''"
definition dec_digits :: string where "dec_digits = ''0123456789''"
definition hex_lower :: string where "hex_lower = ''0123456789abcdef''"
definition hex_upper :: string where "hex_upper = ''0123456789ABCDEF''"

definition put_word ::
    "directive \<Rightarrow> string \<Rightarrow> bool \<Rightarrow> 'd arg list \<Rightarrow> outbuf \<Rightarrow> (outbuf \<times> 'd arg list) outcome" where
  "put_word d digits sign as o1 =
     bindo (next_word (f_long d) as) (\<lambda>(v, as). Ret (put_number d digits sign v o1, as))"

text \<open>The switch over the conversion.\<close>

definition convert_arg ::
    "'d fpu \<Rightarrow> directive \<Rightarrow> char \<Rightarrow> 'd arg list \<Rightarrow> outbuf \<Rightarrow> (outbuf \<times> 'd arg list) outcome" where
  "convert_arg F d c as o1 =
     (if c = CHR ''b'' then put_word d ''01'' False as o1
      else if c = CHR ''o'' then put_word d oct_digits False as o1
      else if c = CHR ''p'' then
        put_word (d\<lparr>precision := 16, width := 16, f_alternate := True, f_long := True\<rparr>) hex_lower False as o1
      else if c = CHR ''x'' then put_word d hex_lower False as o1
      else if c = CHR ''X'' then put_word d hex_upper False as o1
      else if c = CHR ''d'' \<or> c = CHR ''i'' then put_word d dec_digits True as o1
      else if c = CHR ''u'' then put_word d dec_digits False as o1
      else if c = CHR ''f'' then
        (case as of Arg_double v # as \<Rightarrow> bindo (put_double F d v o1) (\<lambda>o2. Ret (o2, as)) | _ \<Rightarrow> Fault)
      else if c = CHR ''t'' then (case as of Arg_tid t # as \<Rightarrow> Ret (put_tid t o1, as) | _ \<Rightarrow> Fault)
      else if c = CHR ''s'' then (case as of Arg_string s # as \<Rightarrow> Ret (put_string d s o1, as) | _ \<Rightarrow> Fault)
      else if c = CHR ''c'' then
        bindo (next_int as) (\<lambda>(v, as). Ret (putch (char_of (unat (ucast v :: u8))) o1, as))
      else if c = CHR ''%'' then Ret (putch (CHR ''%'') o1, as)
      else Ret (putch c (putch (CHR ''%'') o1), as))"

text \<open>The copying up to the next percent sign: \<open>None\<close> when the routine ends there. The end of the
  format is recognised by the position of the character that is not copied any more.\<close>

fun copy_literal :: "nat \<Rightarrow> nat \<Rightarrow> string \<Rightarrow> outbuf \<Rightarrow> (outbuf \<times> input option) outcome" where
  "copy_literal trim i [] o1 = Fault"
| "copy_literal trim i (c # cs) o1 =
     (if c = CHR ''%'' then Ret (o1, Some (i + 1, cs))
      else case putch c o1 of
             Full out \<Rightarrow> Ret (Full out, None)
           | Room n out \<Rightarrow> if i = trim then Ret (o1, None) else copy_literal trim (i + 1) cs (Room n out))"

text \<open>The parsing of a directive behind its percent sign; \<open>None\<close> when the routine ends there.\<close>

definition parse_directive ::
    "nat \<Rightarrow> nat \<Rightarrow> string \<Rightarrow> 'd arg list \<Rightarrow> (directive \<times> char \<times> input \<times> 'd arg list) option outcome" where
  "parse_directive trim i s as =
     bindo (parse_flags i s no_flags) (\<lambda>(d, (i, s)).
       if i = trim + 1 then Ret None
       else bindo (parse_width i s as) (\<lambda>(w, (i, s), as).
            bindo (parse_precision i s as) (\<lambda>(p, (i, s), as).
            bindo (parse_modifier i s) (\<lambda>(l, (i, s)).
              case s of
                [] \<Rightarrow> Fault
              | c # cs \<Rightarrow> Ret (Some (d\<lparr>width := w, precision := p, f_long := l\<rparr>, c, (i + 1, cs), as))))))"

fun text_of :: "outbuf \<Rightarrow> string" where
  "text_of (Room n out) = out"
| "text_of (Full out) = out"

fun room :: "outbuf \<Rightarrow> nat" where
  "room (Room n out) = n"
| "room (Full out) = 0"

lemma bindo_cong [fundef_cong]:
  "m = m' \<Longrightarrow> (\<And>x. m' = Ret x \<Longrightarrow> f x = g x) \<Longrightarrow> bindo m f = bindo m' g"
  by (cases m') auto

lemma case_list_Ret:
  "(case s of [] \<Rightarrow> Fault | c # cs \<Rightarrow> f c cs) = Ret x \<longleftrightarrow> (\<exists>c cs. s = c # cs \<and> f c cs = Ret x)"
  by (cases s) auto

lemma parse_flags_shrinks: "parse_flags i s d = Ret (d', (i', s')) \<Longrightarrow> length s' \<le> length s"
proof (induction i s d rule: parse_flags.induct)
  case (2 i c cs d)
  show ?case
  proof (cases "c \<in> {CHR ''-'', CHR ''+'', CHR '' '', CHR ''0'', CHR ''#''}")
    case True
    then show ?thesis using "2.IH" "2.prems" by (elim insertE) (simp_all add: le_SucI)
  next
    case False
    then show ?thesis using "2.prems" by simp
  qed
qed simp

lemma parse_number_shrinks: "parse_number lo i s v = Ret (v', (i', s')) \<Longrightarrow> length s' \<le> length s"
proof (induction lo i s v rule: parse_number.induct)
  case (2 lo i c cs v)
  then show ?case by (cases "lo \<le> of_char c \<and> (of_char c :: nat) \<le> 57") (auto simp: Let_def le_SucI)
qed simp

lemma parse_width_shrinks: "parse_width i s as = Ret (w, (i', s'), as') \<Longrightarrow> length s' \<le> length s"
  by (auto simp: parse_width_def simp del: parse_number.simps split: list.splits if_splits dest!: parse_number_shrinks)

lemma parse_precision_shrinks: "parse_precision i s as = Ret (w, (i', s'), as') \<Longrightarrow> length s' \<le> length s"
  by (auto simp: parse_precision_def simp del: parse_number.simps split: list.splits if_splits dest!: parse_number_shrinks)

lemma parse_modifier_shrinks: "parse_modifier i s = Ret (l, (i', s')) \<Longrightarrow> length s' \<le> length s"
  by (auto simp: parse_modifier_def split: list.splits if_splits)

lemma parse_directive_shrinks:
  "parse_directive trim i s as = Ret (Some (d, c, (i', s'), as')) \<Longrightarrow> length s' < length s"
  by (auto simp: parse_directive_def case_list_Ret split: if_split_asm
      dest!: parse_flags_shrinks parse_width_shrinks parse_precision_shrinks parse_modifier_shrinks)

lemma copy_literal_shrinks: "copy_literal trim i s o1 = Ret (o2, Some (i', s')) \<Longrightarrow> length s' < length s"
proof (induction trim i s o1 rule: copy_literal.induct)
  case (2 trim i c cs o1)
  then show ?case by (cases "putch c o1") (auto split: if_split_asm simp: less_SucI)
qed simp

text \<open>The loop \<open>while (size > 0)\<close>. Every round reads at least two characters of the format.\<close>

function sprint_loop :: "'d fpu \<Rightarrow> nat \<Rightarrow> nat \<Rightarrow> string \<Rightarrow> 'd arg list \<Rightarrow> outbuf \<Rightarrow> string outcome" where
  "sprint_loop F trim i s as o1 =
     (if room o1 = 0 then Ret (text_of o1)
      else bindo (copy_literal trim i s o1) (\<lambda>(o2, r).
        case r of
          None \<Rightarrow> Ret (text_of o2)
        | Some (i, s) \<Rightarrow>
            if i = trim + 1 then Ret (text_of o2)
            else bindo (parse_directive trim i s as) (\<lambda>r.
              case r of
                None \<Rightarrow> Ret (text_of o2)
              | Some (d, c, (i, s), as) \<Rightarrow>
                  bindo (convert_arg F d c as o2) (\<lambda>(o3, as). sprint_loop F trim i s as o3))))"
  by pat_completeness auto
termination
  by (relation "measure (\<lambda>(F, trim, i, s, as, o1). length s)")
     (auto dest!: copy_literal_shrinks parse_directive_shrinks)

declare sprint_loop.simps [simp del]

text \<open>\<open>rtl$sprint\<close>: the characters written into an array of \<open>len\<close> characters. Their number is the new
  \<open>length_trim\<close>.\<close>

definition rtl_sprint :: "'d fpu \<Rightarrow> nat \<Rightarrow> nat \<Rightarrow> string \<Rightarrow> 'd arg list \<Rightarrow> string outcome" where
  "rtl_sprint F len trim fmt as =
     (if trim = 0 then Ret (text_of (putstr ''(NULLIFIED FORMAT DESCRIPTOR)'' (Room len [])))
      else sprint_loop F trim 0 fmt as (Room len []))"

section \<open>Copying strings\<close>

text \<open>\<open>rtl$strcpy\<close> of a C string into an array of \<open>sz\<close> characters: what is copied.\<close>

fun strcpy_loop :: "string \<Rightarrow> nat \<Rightarrow> nat \<Rightarrow> string" where
  "strcpy_loop [] n sz = []"
| "strcpy_loop (c # cs) n sz = (if n = sz then [] else c # strcpy_loop cs (n + 1) sz)"

definition rtl_strcpy :: "string \<Rightarrow> nat \<Rightarrow> string" where
  "rtl_strcpy src sz = strcpy_loop src 0 sz"

lemma rtl_strcpy_eq: "rtl_strcpy src sz = take sz src"
proof -
  have "n \<le> sz \<Longrightarrow> strcpy_loop s n sz = take (sz - n) s" for s n
    by (induction s n sz rule: strcpy_loop.induct) (auto simp: take_Cons')
  then show ?thesis by (simp add: rtl_strcpy_def)
qed

end
