(* ===== verification/Format_Props.thy ===== *)
theory Format_Props
  imports Formatted_Output
begin

unbundle bit_operations_syntax

text \<open>
  Properties of the formatted output: it never writes outside its array, decimal numbers read back as
  the numbers that were printed, and the directives that do not do what their form says.
\<close>

section \<open>Room\<close>

definition capacity :: "outbuf \<Rightarrow> nat" where
  "capacity b = room b + length (text_of b)"

lemma cap_putch [simp]: "capacity (putch c b) = capacity b"
  by (cases "(c, b)" rule: putch.cases) (auto simp: capacity_def)

lemma cap_putstr [simp]: "capacity (putstr s b) = capacity b"
  unfolding putstr_def by (induction s arbitrary: b) simp_all

lemma cap_pad [simp]: "capacity (pad c n b) = capacity b"
  by (simp add: pad_def)

lemma cap_put_number [simp]: "capacity (put_number d digits sign v b) = capacity b"
  by (simp add: put_number_def Let_def split: option.split)

lemma cap_put_dec [simp]: "capacity (put_dec v b) = capacity b"
  by (simp add: put_dec_def)

lemma cap_put_tid [simp]: "capacity (put_tid t b) = capacity b"
  by (simp add: put_tid_def)

lemma cap_put_string [simp]: "capacity (put_string d s b) = capacity b"
  by (simp add: put_string_def Let_def)

lemma cap_put_fraction: "put_fraction F prec v b = Ret b' \<Longrightarrow> capacity b' = capacity b"
  by (cases b) (auto split: option.splits if_split_asm)

lemma cap_put_double: "put_double F d v b = Ret b' \<Longrightarrow> capacity b' = capacity b"
  unfolding put_double_def Let_def bindo_eq_Ret_iff
  by (elim exE conjE, drule cap_put_fraction) (auto split: option.splits if_splits)

lemma cap_convert_arg: "convert_arg F d c as b = Ret (b', as') \<Longrightarrow> capacity b' = capacity b"
  unfolding convert_arg_def put_word_def
  by (auto split: if_split_asm list.splits arg.splits dest: cap_put_double)

lemma cap_copy_literal: "copy_literal trim i s b = Ret (b', r) \<Longrightarrow> capacity b' = capacity b"
proof (induction trim i s b rule: copy_literal.induct)
  case (2 trim i c cs b)
  have "capacity (putch c b) = capacity b" by simp
  then show ?case using 2 by (cases "putch c b") (auto split: if_split_asm)
qed simp

lemma sprint_loop_cap: "sprint_loop F trim i s as b = Ret out \<Longrightarrow> length out \<le> capacity b"
proof (induction F trim i s as b rule: sprint_loop.induct)
  case (1 F trim i s as b)
  have le: "length (text_of b') \<le> capacity b'" for b' by (simp add: capacity_def)
  show ?case
  proof (cases "room b = 0")
    case True
    then show ?thesis using "1.prems" le [of b] by (simp add: sprint_loop.simps)
  next
    case False
    then obtain b2 r where l: "copy_literal trim i s b = Ret (b2, r)"
      using "1.prems" by (subst (asm) sprint_loop.simps) auto
    have c2: "capacity b2 = capacity b" by (rule cap_copy_literal [OF l])
    note P = "1.prems" [unfolded sprint_loop.simps [of F trim i s as b] if_not_P [OF False] l, simplified]
    show ?thesis
    proof (cases "\<exists>d c i1 s1 i2 s2 as2 b3 as3. r = Some (i1, s1) \<and> i1 \<noteq> trim + 1 \<and>
        parse_directive trim i1 s1 as = Ret (Some (d, c, (i2, s2), as2)) \<and> convert_arg F d c as2 b2 = Ret (b3, as3)")
      case True
      then obtain d c i1 s1 i2 s2 as2 b3 as3 where q: "r = Some (i1, s1)" "i1 \<noteq> trim + 1"
        "parse_directive trim i1 s1 as = Ret (Some (d, c, (i2, s2), as2))" "convert_arg F d c as2 b2 = Ret (b3, as3)" by blast
      then have "sprint_loop F trim i2 s2 as3 b3 = Ret out" using P by auto
      from "1.IH" [OF False l refl q(1) refl q(2) q(3) refl refl refl refl refl q(4) refl this] show ?thesis
        using cap_convert_arg [OF q(4)] c2 by simp
    next
      case False
      then have "out = text_of b2" using P by (auto split: option.splits if_split_asm)
      then show ?thesis using le [of b2] c2 by simp
    qed
  qed
qed

lemma sprint_length:
  assumes "rtl_sprint F n trim fmt as = Ret out"
  shows "length out \<le> n"
proof (cases "trim = 0")
  case True
  then have "out = text_of (putstr ''(NULLIFIED FORMAT DESCRIPTOR)'' (Room n []))"
    using assms by (simp add: rtl_sprint_def)
  moreover have "capacity (putstr ''(NULLIFIED FORMAT DESCRIPTOR)'' (Room n [])) = n" by (simp only: cap_putstr) (simp add: capacity_def)
  ultimately show ?thesis unfolding capacity_def by (metis le_add2)
next
  case False
  then have "sprint_loop F trim 0 fmt as (Room n []) = Ret out" using assms by (simp add: rtl_sprint_def)
  from sprint_loop_cap [OF this] show ?thesis by (simp add: capacity_def)
qed

text \<open>C40: whatever the format and the arguments are, when \<open>rtl$sprint\<close> returns it has written at most
  as many characters as its array has.\<close>

theorem sprint_in_bounds:
  assumes "rtl_sprint F n trim fmt as = Ret out"
  shows "length out \<le> n"
  using assms by (rule sprint_length)

theorem sprint_in_bounds_witness:
  "length ''Hel'' \<le> 3 \<and> rtl_sprint (undefined :: unit fpu) 3 5 (''Hello'' @ [CHR 0x00]) [] = Ret ''Hel''"
proof -
  have r: "rtl_sprint (undefined :: unit fpu) 3 5 (''Hello'' @ [CHR 0x00]) [] = Ret ''Hel''"
    by (simp add: rtl_sprint_def sprint_loop.simps numeral_eq_Suc)
  from r sprint_in_bounds [OF r] show ?thesis by blast
qed

section \<open>Decimal numbers\<close>

text \<open>Reading a decimal number: an optional minus sign and digits.\<close>

definition digits_value :: "string \<Rightarrow> nat" where
  "digits_value s = foldl (\<lambda>v c. 10 * v + (of_char c - 48)) 0 s"

definition decimal_value :: "string \<Rightarrow> int" where
  "decimal_value s = (case s of [] \<Rightarrow> 0 | c # cs \<Rightarrow> if c = CHR ''-'' then - int (digits_value cs) else int (digits_value s))"

definition decimal_text :: "u64 \<Rightarrow> string" where
  "decimal_text v = (if sint v < 0 then [CHR ''-''] else []) @ rev (rev_digits dec_digits (unat (if sint v < 0 then - v else v)))"

lemma dec_digit_code: "k < 10 \<Longrightarrow> (of_char (dec_digits ! k) :: nat) = 48 + k"
proof -
  have "\<forall>k\<in>set [0..<10]. (of_char (dec_digits ! k) :: nat) = 48 + k"
    by (simp add: dec_digits_def upt_rec)
  then show "k < 10 \<Longrightarrow> ?thesis" by simp
qed

lemma length_dec_digits [simp]: "length dec_digits = 10"
  by (simp add: dec_digits_def)

lemma digits_value_snoc: "digits_value (s @ [c]) = 10 * digits_value s + (of_char c - 48)"
  by (simp add: digits_value_def)

lemma rev_digits_dec:
  "rev_digits dec_digits n = dec_digits ! (n mod 10) # (if 0 < n div 10 then rev_digits dec_digits (n div 10) else [])"
  by (subst rev_digits.simps) (simp add: Let_def)

lemma rev_digits_value: "digits_value (rev (rev_digits dec_digits n)) = n"
proof (induction n rule: less_induct)
  case (less n)
  show ?case
  proof (cases "0 < n div 10")
    case True
    then have "digits_value (rev (rev_digits dec_digits (n div 10))) = n div 10" by (intro less.IH) simp
    then show ?thesis using True by (subst rev_digits_dec) (simp add: digits_value_snoc dec_digit_code)
  next
    case False
    then show ?thesis by (subst rev_digits_dec) (simp add: digits_value_def dec_digit_code)
  qed
qed

lemma rev_digits_not_minus: "set (rev_digits dec_digits n) \<subseteq> set dec_digits"
proof (induction n rule: less_induct)
  case (less n)
  have "dec_digits ! (n mod 10) \<in> set dec_digits" by (rule nth_mem) simp
  then show ?case using less.IH [of "n div 10"] by (subst rev_digits_dec) auto
qed

lemma sint_cases: "sint (v :: u64) = uint v \<or> sint v = uint v - 2 ^ 64"
  using uint_lt2p [of v] by (simp add: sint_uint signed_take_bit_eq_take_bit_minus take_bit_eq_mod)

lemma unat_minus_sint: "sint (v :: u64) < 0 \<Longrightarrow> uint (- v) = - sint v"
proof -
  assume n: "sint v < 0"
  then have s: "sint v = uint v - 2 ^ 64" using sint_cases [of v] by (auto simp: not_less)
  have "v \<noteq> 0" using n by auto
  then have "uint v mod 2 ^ 64 \<noteq> 0" using uint_lt2p [of v] by (simp add: unsigned_eq_0_iff)
  then have "uint (- v) = 2 ^ 64 - uint v" using uint_lt2p [of v] by (simp add: uint_word_ariths zmod_zminus1_eq_if)
  then show ?thesis using s by simp
qed

lemma unat_sint_pos: "\<not> sint (v :: u64) < 0 \<Longrightarrow> uint v = sint v"
  using sint_cases [of v] uint_lt2p [of v] by auto

lemma decimal_roundtrip: "decimal_value (decimal_text v) = sint v"
proof (cases "sint v < 0")
  case True
  then show ?thesis by (simp add: decimal_value_def decimal_text_def rev_digits_value unat_minus_sint)
next
  case False
  let ?s = "rev (rev_digits dec_digits (unat v))"
  obtain c cs where s: "?s = c # cs" by (cases ?s) (simp_all add: rev_digits_dec [of "unat v"])
  then have "c \<in> set dec_digits" using rev_digits_not_minus [of "unat v"] by (metis list.set_intros(1) set_rev subsetD)
  then have "c \<noteq> CHR ''-''" by (auto simp: dec_digits_def)
  then show ?thesis using False s rev_digits_value [of "unat v"] by (simp add: decimal_value_def decimal_text_def unat_sint_pos)
qed

text \<open>Writing with room.\<close>

lemma putstr_room: "length s \<le> n \<Longrightarrow> putstr s (Room n out) = Room (n - length s) (out @ s)"
proof (induction s arbitrary: n out)
  case (Cons c s)
  then obtain m where "n = Suc m" by (cases n) auto
  then show ?case using Cons by (simp add: putstr_def)
qed (simp add: putstr_def)

lemma put_decimal: "put_number no_flags dec_digits True v b = putstr (decimal_text v) b"
proof -
  let ?c = "rev_digits dec_digits (unat (if sint v < 0 then - v else v))"
  have sg: "sign_char no_flags True v = (if sint v < 0 then Some (CHR ''-'') else None)"
    by (simp add: sign_char_def no_flags_def)
  have "putstr (s @ t) b = putstr t (putstr s b)" for s t b by (simp add: putstr_def)
  moreover have "pad c 0 b = b" for c b by (simp add: pad_def putstr_def)
  moreover have "putstr [c] b = putch c b" "putstr [] b = b" for c b by (simp_all add: putstr_def)
  ultimately show ?thesis
    by (simp add: put_number_def Let_def sg decimal_text_def opt_len_def prefix_of_def) (simp add: no_flags_def)
qed

lemma copy_literal_run:
  assumes "CHR ''%'' \<notin> set s" "i + length s \<le> trim" "length s \<le> n"
  shows "copy_literal trim i (s @ t) (Room n out) = copy_literal trim (i + length s) t (Room (n - length s) (out @ s))"
  using assms
proof (induction s arbitrary: i n out)
  case (Cons c s)
  then obtain m where "n = Suc m" by (cases n) auto
  then show ?case using Cons by auto
qed simp

lemma sprint_finish:
  assumes "CHR ''%'' \<notin> set s" "i + length s = trim" "length s \<le> n"
  shows "sprint_loop F trim i (s @ x # t) as (Room n out) = Ret (out @ s)"
proof (cases "n = 0")
  case True
  then show ?thesis using assms(3) by (simp add: sprint_loop.simps)
next
  case False
  have "copy_literal trim i (s @ x # t) (Room n out) = copy_literal trim trim (x # t) (Room (n - length s) (out @ s))"
    using copy_literal_run [OF assms(1) _ assms(3), of i trim "x # t" out] assms(2) by simp
  moreover have "\<exists>b r. copy_literal trim trim (x # t) (Room m o1) = Ret (b, r) \<and> text_of b = o1 \<and>
      (r = None \<or> r = Some (trim + 1, t))" for m o1
    by (cases m) auto
  ultimately obtain b r where "copy_literal trim i (s @ x # t) (Room n out) = Ret (b, r)" "text_of b = out @ s"
    "r = None \<or> r = Some (trim + 1, t)" by metis
  then show ?thesis using False by (subst sprint_loop.simps) auto
qed

lemma parse_long_decimal:
  assumes "i \<le> trim"
  shows "parse_directive trim i (''ld'' @ t) as = Ret (Some (no_flags\<lparr>f_long := True\<rparr>, CHR ''d'', (i + 2, t), as))"
  using assms by (simp add: parse_directive_def parse_width_def parse_precision_def parse_modifier_def is_digit_def no_flags_def)

text \<open>C39: a format with one directive \<open>%ld\<close> prints its text with the decimal digits of the argument in
  their place, when the array has room for it, and the digits read back as the argument.\<close>

theorem sprint_decimal:
  assumes "CHR ''%'' \<notin> set pre" "CHR ''%'' \<notin> set post" "trim = length pre + 3 + length post"
    and "length pre + length (decimal_text v) + length post \<le> n"
  shows "rtl_sprint F n trim (pre @ ''%ld'' @ post @ x # rest) [Arg_long v] = Ret (pre @ decimal_text v @ post) \<and>
    decimal_value (decimal_text v) = sint v"
proof -
  let ?p = "length pre" and ?t = "decimal_text v" and ?s = "post @ x # rest"
  have ne: "0 < length ?t" by (simp add: decimal_text_def rev_digits_dec [of "unat _"])
  have c: "copy_literal trim 0 (pre @ ''%ld'' @ ?s) (Room n []) = Ret (Room (n - ?p) pre, Some (?p + 1, ''ld'' @ ?s))"
    using copy_literal_run [OF assms(1), of 0 trim n "''%ld'' @ ?s" "[]"] assms(3,4) by simp
  have p: "parse_directive trim (?p + 1) (''ld'' @ ?s) [Arg_long v] =
      Ret (Some (no_flags\<lparr>f_long := True\<rparr>, CHR ''d'', (?p + 3, ?s), [Arg_long v]))"
    using parse_long_decimal [of "?p + 1" trim ?s "[Arg_long v]"] assms(3) by (simp add: numeral_eq_Suc)
  have d: "put_number (no_flags\<lparr>f_long := True\<rparr>) dec_digits True v b = put_number no_flags dec_digits True v b" for b
    unfolding put_number_def sign_char_def prefix_of_def by (simp add: directive.defs no_flags_def cong: if_cong)
  have a: "convert_arg F (no_flags\<lparr>f_long := True\<rparr>) (CHR ''d'') [Arg_long v] (Room (n - ?p) pre) =
      Ret (Room (n - ?p - length ?t) (pre @ ?t), [])"
    using putstr_room [of ?t "n - ?p" pre] assms(4) by (simp add: convert_arg_def put_word_def d put_decimal)
  have f: "sprint_loop F trim (?p + 3) ?s [] (Room (n - ?p - length ?t) (pre @ ?t)) = Ret ((pre @ ?t) @ post)"
    by (rule sprint_finish) (use assms in auto)
  have "sprint_loop F trim 0 (pre @ ''%ld'' @ ?s) [Arg_long v] (Room n []) = Ret (pre @ ?t @ post)"
  proof -
    have "room (Room n []) \<noteq> 0" "?p + 1 \<noteq> trim + 1" using assms(3,4) ne by (simp_all del: length_greater_0_conv)
    then show ?thesis
      unfolding sprint_loop.simps [of F trim 0] c bindo.simps prod.case option.case p a f by simp
  qed
  then show ?thesis using assms(3) decimal_roundtrip by (simp add: rtl_sprint_def)
qed

theorem sprint_decimal_witness:
  "\<exists>t. rtl_sprint (undefined :: unit fpu) 80 9 (''swap %ld.'' @ [CHR 0x00]) [Arg_long (- 42)] = Ret (''swap '' @ t @ ''.'') \<and>
     decimal_value t = - 42"
proof -
  have "length (decimal_text (- 42)) \<le> 3"
    by (simp add: decimal_text_def rev_digits_dec)
  then show ?thesis
    using sprint_decimal [of "''swap ''" "''.''" 9 "- 42" 80 undefined "CHR 0x00" "[]"] by auto
qed

section \<open>Directives that do something else\<close>

text \<open>A width from the arguments: the argument is taken, but the asterisk stays in the format and
  becomes the conversion, so that the directive is printed and no number is.\<close>

lemma star_width_is_printed:
  "rtl_sprint (F :: unit fpu) 80 3 (''%*d'' @ [CHR 0x00]) [Arg_int 5, Arg_int 42] = Ret ''%*d''"
  by (simp add: rtl_sprint_def sprint_loop.simps parse_directive_def parse_width_def parse_precision_def
      parse_modifier_def no_flags_def is_digit_def convert_arg_def numeral_eq_Suc)

text \<open>A precision is read on through every character below the digits: in \<open>%.3%d\<close> the percent sign
  counts as the digit minus eleven, and the precision is 19.\<close>

lemma precision_eats_percent:
  "parse_precision i (''.3%d'' @ s) as = Ret (19, (i + 3, ''d'' @ s), (as :: unit arg list))"
  by (simp add: parse_precision_def is_digit_def int_range_def fault_if_def numeral_eq_Suc)

text \<open>A format that ends with a percent sign is read behind its end: the character after the last one
  is taken as the conversion.\<close>

lemma percent_at_end_reads_on:
  "rtl_sprint (F :: unit fpu) 80 1 [CHR ''%''] [] = Fault"
  by (simp add: rtl_sprint_def sprint_loop.simps parse_directive_def numeral_eq_Suc)

text \<open>The unsigned conversion of an \<open>int\<close> extends its sign: the largest \<open>unsigned int\<close> comes out as
  the largest 64 bit number.\<close>

lemma unsigned_int_sign_extended:
  "next_word False [Arg_int 0xFFFFFFFF] = Ret (0xFFFFFFFFFFFFFFFF, [] :: unit arg list)"
  by simp

text \<open>Padding on the right forgets the prefix: the hexadecimal number 1 in a field of eight takes ten
  characters.\<close>

lemma right_padding_forgets_prefix:
  "put_number (no_flags\<lparr>f_left := True, f_alternate := True, width := 8\<rparr>) hex_lower False 1 (Room 20 []) =
     Room 10 (''$ 1'' @ replicate 7 (CHR '' ''))"
proof -
  let ?d = "no_flags\<lparr>f_left := True, f_alternate := True, width := 8\<rparr>"
  have d: "f_left ?d" "f_alternate ?d" "width ?d = 8" "precision ?d = - 1" by (simp_all add: no_flags_def)
  have r: "rev_digits hex_lower (Suc 0) = ''1''" by (subst rev_digits.simps) (simp add: hex_lower_def)
  have s: "sign_char ?d False 1 = None" "prefix_of ?d 16 = ''$ ''" "length hex_lower = 16"
    using d by (simp_all add: sign_char_def prefix_of_def hex_lower_def)
  have "put_number ?d hex_lower False 1 b = pad (CHR '' '') 7 (putstr ''1'' (putstr ''$ '' b))" for b
    by (simp add: put_number_def Let_def s r d opt_len_def) (simp add: pad_def putstr_def)
  then show ?thesis by (simp add: pad_def putstr_def numeral_eq_Suc)
qed

end
