(* ===== verification/Interfaces.thy ===== *)
theory Interfaces
  imports Prelude
begin

text \<open>
  Contracts between the components, as locales: the kernel heap (\<open>sys$alloc\<close> and \<open>sys$free\<close>) that
  the data structures allocate their nodes from, and pools of identifiers, which the bit map free
  list and the range free list both provide to the thread code. The lemmas of each locale hold for
  every provider; the providers interpret the locales in their own theories.
\<close>

section \<open>The kernel heap\<close>

text \<open>Addresses of kernel objects are natural numbers; 0 is \<open>NULL\<close>. \<open>alloc n h\<close> is \<open>sys$alloc(n)\<close>
  and \<open>release p h\<close> is \<open>sys$free(p)\<close>. \<open>heap_ok h L\<close> says that the heap \<open>h\<close> is well formed and that
  \<open>L\<close> are the pointers handed out and not yet freed. Requests of \<open>heap_limit\<close> bytes and more are
  outside the contract.\<close>

type_synonym ptr = nat
type_synonym 'h alloc_fn = "u64 \<Rightarrow> 'h \<Rightarrow> (ptr \<times> 'h) outcome"
type_synonym 'h free_fn = "ptr \<Rightarrow> 'h \<Rightarrow> 'h outcome"

definition heap_limit :: nat where "heap_limit = 2 ^ 32"

locale kernel_heap =
  fixes alloc :: "u64 \<Rightarrow> 'h \<Rightarrow> (ptr \<times> 'h) outcome"
    and release :: "ptr \<Rightarrow> 'h \<Rightarrow> 'h outcome"
    and heap_ok :: "'h \<Rightarrow> ptr set \<Rightarrow> bool"
  assumes alloc_law: "heap_ok h L \<Longrightarrow> unat n < heap_limit \<Longrightarrow>
      \<exists>p h'. alloc n h = Ret (p, h') \<and>
        (if p = 0 then heap_ok h' L else p \<notin> L \<and> heap_ok h' (insert p L))"
    and release_law: "heap_ok h L \<Longrightarrow> p \<in> L \<Longrightarrow> \<exists>h'. release p h = Ret h' \<and> heap_ok h' (L - {p})"
    and release_null: "release 0 h = Ret h"
    and null_not_live: "heap_ok h L \<Longrightarrow> 0 \<notin> L"
begin

lemma alloc_returns: "heap_ok h L \<Longrightarrow> unat n < heap_limit \<Longrightarrow> \<exists>p h'. alloc n h = Ret (p, h')"
  using alloc_law by blast

lemma alloc_cases:
  assumes "heap_ok h L" "unat n < heap_limit"
  obtains (null) h' where "alloc n h = Ret (0, h')" "heap_ok h' L"
    | (fresh) p h' where "alloc n h = Ret (p, h')" "p \<noteq> 0" "p \<notin> L" "heap_ok h' (insert p L)"
  using alloc_law [OF assms] by (metis (no_types, lifting))

lemma alloc_null: "heap_ok h L \<Longrightarrow> unat n < heap_limit \<Longrightarrow> alloc n h = Ret (0, h') \<Longrightarrow> heap_ok h' L"
  using alloc_law by fastforce

lemma alloc_fresh:
  "heap_ok h L \<Longrightarrow> unat n < heap_limit \<Longrightarrow> alloc n h = Ret (p, h') \<Longrightarrow> p \<noteq> 0 \<Longrightarrow>
    p \<notin> L \<and> heap_ok h' (insert p L)"
  using alloc_law by fastforce

lemma release_returns: "heap_ok h L \<Longrightarrow> p \<in> L \<Longrightarrow> \<exists>h'. release p h = Ret h'"
  using release_law by blast

lemma release_eq: "heap_ok h L \<Longrightarrow> p \<in> L \<Longrightarrow> release p h = Ret h' \<Longrightarrow> heap_ok h' (L - {p})"
  using release_law by fastforce

text \<open>Allocating and freeing at once leaves the live pointers as they were.\<close>

lemma alloc_release:
  assumes "heap_ok h L" "unat n < heap_limit" "alloc n h = Ret (p, h1)" "p \<noteq> 0"
  shows "\<exists>h2. release p h1 = Ret h2 \<and> heap_ok h2 L"
proof -
  have "p \<notin> L" "heap_ok h1 (insert p L)" using alloc_fresh [OF assms] by auto
  with release_law [of h1 "insert p L" p] show ?thesis by simp
qed

end

section \<open>Pools of identifiers\<close>

text \<open>\<open>take_id\<close> hands out an identifier, or \<open>no_id\<close> (the code's \<open>-1\<close>) from an empty pool;
  \<open>give_id\<close> puts one back. A provider may fail to take an identifier back (out of memory).\<close>

definition no_id :: u64 where "no_id = -1"

lemma unat_no_id [simp]: "unat no_id = 2 ^ 64 - 1"
  by (simp add: no_id_def unsigned_minus_1_eq_mask mask_eq_exp_minus_1)

locale id_pool =
  fixes pool_ok :: "'s \<Rightarrow> bool"
    and avail :: "'s \<Rightarrow> u64 set"
    and take_id :: "'s \<Rightarrow> (u64 \<times> 's) outcome"
    and give_id :: "u64 \<Rightarrow> 's \<Rightarrow> 's outcome"
  assumes take_empty: "pool_ok s \<Longrightarrow> avail s = {} \<Longrightarrow> \<exists>s'. take_id s = Ret (no_id, s')
      \<and> pool_ok s' \<and> avail s' = {}"
    and take_some: "pool_ok s \<Longrightarrow> avail s \<noteq> {} \<Longrightarrow> take_id s = Ret (i, s') \<Longrightarrow>
      i \<in> avail s \<and> avail s' = avail s - {i} \<and> pool_ok s'"
    and give_back: "pool_ok s \<Longrightarrow> i \<notin> avail s \<Longrightarrow> i \<noteq> no_id \<Longrightarrow> give_id i s = Ret s' \<Longrightarrow>
      pool_ok s' \<and> (avail s' = avail s \<or> avail s' = insert i (avail s))"
    and no_id_not_avail: "pool_ok s \<Longrightarrow> no_id \<notin> avail s"
begin

text \<open>A client that keeps the set of identifiers it holds, and gives back only those.\<close>

inductive client :: "'s \<Rightarrow> u64 set \<Rightarrow> 's \<Rightarrow> u64 set \<Rightarrow> bool" for s\<^sub>0 H\<^sub>0 where
  start: "client s\<^sub>0 H\<^sub>0 s\<^sub>0 H\<^sub>0"
| take: "client s\<^sub>0 H\<^sub>0 s H \<Longrightarrow> take_id s = Ret (i, s') \<Longrightarrow> i \<noteq> no_id \<Longrightarrow>
    client s\<^sub>0 H\<^sub>0 s' (insert i H)"
| give: "client s\<^sub>0 H\<^sub>0 s H \<Longrightarrow> i \<in> H \<Longrightarrow> give_id i s = Ret s' \<Longrightarrow>
    client s\<^sub>0 H\<^sub>0 s' (H - {i})"

lemma take_not_none:
  assumes "pool_ok s" "take_id s = Ret (i, s')" "i \<noteq> no_id"
  shows "i \<in> avail s \<and> avail s' = avail s - {i} \<and> pool_ok s'"
proof (cases "avail s = {}")
  case True
  with take_empty [OF assms(1)] assms(2,3) show ?thesis by auto
next
  case False
  from take_some [OF assms(1) False assms(2)] show ?thesis .
qed

lemma client_inv:
  "client s\<^sub>0 H\<^sub>0 s H \<Longrightarrow> pool_ok s\<^sub>0 \<Longrightarrow> H\<^sub>0 \<inter> avail s\<^sub>0 = {} \<Longrightarrow> no_id \<notin> H\<^sub>0 \<Longrightarrow>
    pool_ok s \<and> H \<inter> avail s = {} \<and> no_id \<notin> H"
proof (induction rule: client.induct)
  case (take s H i s')
  then show ?case using take_not_none [of s i s'] by auto
next
  case (give s H i s')
  then have "i \<notin> avail s" "i \<noteq> no_id" by blast+
  with give give_back [of s i s'] show ?case by auto
qed simp

text \<open>An identifier that is taken is not held already: no identifier is handed out twice.\<close>

lemma taken_not_held:
  assumes "client s\<^sub>0 H\<^sub>0 s H" "pool_ok s\<^sub>0" "H\<^sub>0 \<inter> avail s\<^sub>0 = {}" "no_id \<notin> H\<^sub>0"
    and "take_id s = Ret (i, s')" "i \<noteq> no_id"
  shows "i \<notin> H"
  using client_inv [OF assms(1-4)] take_not_none [of s i s'] assms(5,6) by blast

end

end
