(* ===== verification/Mutex.thy ===== *)
theory Mutex
  imports Prelude
begin

text \<open>
  The counting mutex of \<open>sys/sys_mutex.c\<close> over the spin lock of \<open>include/freevms/sys_mutex.h\<close>.
  The operations appear twice: as functions, for callers that run alone, and as the steps of a
  thread, one per access to the shared words, so that the threads interleave. Thread identifiers
  are the raw words of \<open>L4_Myself()\<close>; 0 is the nil thread. The lemmas show that the inner lock is
  mutually exclusive, so the count is exact, and that the counting lock itself never waits.
\<close>

section \<open>The model\<close>

record mutex =
  holder :: u64
  internal :: u64
  count :: u64

definition sys_mutex_init :: "mutex \<Rightarrow> mutex" where
  "sys_mutex_init m = m\<lparr>holder := 0, count := 0, internal := 0\<rparr>"

text \<open>\<open>try_lock_amd64\<close> on a lock word: an atomic compare and exchange with 0, then a comparison of
  the word with the caller.\<close>

definition try_lock :: "u64 \<Rightarrow> u64 \<Rightarrow> bool \<times> u64" where
  "try_lock me w = (let w' = (if w = 0 then me else w) in (w' = me, w'))"

definition mutex_unlock :: u64 where
  "mutex_unlock = 0"

text \<open>The two operations of a thread that is not interrupted. \<open>mutex_lock\<close> spins for ever when
  another thread owns the inner lock.\<close>

definition mutex_lock :: "u64 \<Rightarrow> u64 \<Rightarrow> u64 outcome" where
  "mutex_lock me w = (case try_lock me w of (ok, w') \<Rightarrow> if ok then Ret w' else Timeout)"

definition sys_mutex_count_lock :: "u64 \<Rightarrow> mutex \<Rightarrow> mutex outcome" where
  "sys_mutex_count_lock me m =
     bindo (mutex_lock me (internal m)) (\<lambda>w.
       let m1 = m\<lparr>internal := w\<rparr>;
           m2 = m1\<lparr>count := count m1 + 1\<rparr>;
           m3 = m2\<lparr>holder := internal m2\<rparr>
       in Ret (m3\<lparr>internal := mutex_unlock\<rparr>))"

definition sys_mutex_count_unlock :: "u64 \<Rightarrow> mutex \<Rightarrow> mutex outcome" where
  "sys_mutex_count_unlock me m =
     bindo (mutex_lock me (internal m)) (\<lambda>w.
       let m1 = m\<lparr>internal := w\<rparr>;
           m2 = m1\<lparr>count := count m1 - 1\<rparr>;
           m3 = (if count m2 = 0 then m2\<lparr>holder := 0\<rparr> else m2)
       in Ret (m3\<lparr>internal := mutex_unlock\<rparr>))"

text \<open>The control points of a thread: outside any call, and before each access of
  \<open>sys$mutex_count_lock\<close> (\<open>L_\<close>) and \<open>sys$mutex_count_unlock\<close> (\<open>U_\<close>).\<close>

datatype control =
  Outside | L_try | L_count | L_holder | L_release | U_try | U_count | U_test | U_release

text \<open>\<open>locks t\<close> counts the increments less the decrements that thread \<open>t\<close> has made; no operation
  reads it.\<close>

record world =
  mtx :: mutex
  pc :: "u64 \<Rightarrow> control"
  locks :: "u64 \<Rightarrow> nat"

abbreviation goto :: "u64 \<Rightarrow> control \<Rightarrow> world \<Rightarrow> world" where
  "goto t c w \<equiv> w\<lparr>pc := (pc w)(t := c)\<rparr>"

definition thread_step :: "u64 \<Rightarrow> world \<Rightarrow> world" where
  "thread_step t w =
     (let m = mtx w
      in case pc w t of
           Outside \<Rightarrow> w
         | L_try \<Rightarrow> (case try_lock t (internal m) of (ok, i) \<Rightarrow>
             goto t (if ok then L_count else L_try) (w\<lparr>mtx := m\<lparr>internal := i\<rparr>\<rparr>))
         | L_count \<Rightarrow> goto t L_holder (w\<lparr>mtx := m\<lparr>count := count m + 1\<rparr>,
             locks := (locks w)(t := locks w t + 1)\<rparr>)
         | L_holder \<Rightarrow> goto t L_release (w\<lparr>mtx := m\<lparr>holder := internal m\<rparr>\<rparr>)
         | L_release \<Rightarrow> goto t Outside (w\<lparr>mtx := m\<lparr>internal := mutex_unlock\<rparr>\<rparr>)
         | U_try \<Rightarrow> (case try_lock t (internal m) of (ok, i) \<Rightarrow>
             goto t (if ok then U_count else U_try) (w\<lparr>mtx := m\<lparr>internal := i\<rparr>\<rparr>))
         | U_count \<Rightarrow> goto t U_test (w\<lparr>mtx := m\<lparr>count := count m - 1\<rparr>,
             locks := (locks w)(t := locks w t - 1)\<rparr>)
         | U_test \<Rightarrow> goto t U_release (if count m = 0 then w\<lparr>mtx := m\<lparr>holder := 0\<rparr>\<rparr> else w)
         | U_release \<Rightarrow> goto t Outside (w\<lparr>mtx := m\<lparr>internal := mutex_unlock\<rparr>\<rparr>))"

text \<open>Threads call the two operations at will, but unlock only what they locked.\<close>

inductive mutex_trans :: "u64 set \<Rightarrow> world \<Rightarrow> world \<Rightarrow> bool" for T where
  call_lock: "t \<in> T \<Longrightarrow> pc w t = Outside \<Longrightarrow> mutex_trans T w (goto t L_try w)"
| call_unlock: "t \<in> T \<Longrightarrow> pc w t = Outside \<Longrightarrow> locks w t > 0 \<Longrightarrow> mutex_trans T w (goto t U_try w)"
| run: "t \<in> T \<Longrightarrow> mutex_trans T w (thread_step t w)"

definition mutex_start :: "mutex \<Rightarrow> world" where
  "mutex_start m = \<lparr>mtx = sys_mutex_init m, pc = (\<lambda>_. Outside), locks = (\<lambda>_. 0)\<rparr>"

inductive mutex_reach :: "u64 set \<Rightarrow> world \<Rightarrow> bool" for T where
  init: "mutex_reach T (mutex_start m)"
| step: "mutex_reach T w \<Longrightarrow> mutex_trans T w w' \<Longrightarrow> mutex_reach T w'"

section \<open>The inner lock\<close>

definition inside :: "control \<Rightarrow> bool" where
  "inside c \<longleftrightarrow> c \<notin> {Outside, L_try, U_try}"

lemma inside_simps [simp]:
  "\<not> inside Outside" "\<not> inside L_try" "\<not> inside U_try"
  "inside L_count" "inside L_holder" "inside L_release" "inside U_count" "inside U_test"
  "inside U_release"
  by (simp_all add: inside_def)

definition mutex_inv :: "u64 set \<Rightarrow> world \<Rightarrow> bool" where
  "mutex_inv T w \<longleftrightarrow>
     (\<forall>t. inside (pc w t) \<longrightarrow> t \<in> T \<and> internal (mtx w) = t) \<and>
     (internal (mtx w) \<noteq> 0 \<longrightarrow> inside (pc w (internal (mtx w)))) \<and>
     count (mtx w) = of_nat (\<Sum>t\<in>T. locks w t) \<and>
     (\<forall>t. pc w t \<in> {U_try, U_count} \<longrightarrow> locks w t > 0)"

lemma sum_upd_in:
  fixes f :: "'a \<Rightarrow> nat"
  assumes "finite T" "t \<in> T"
  shows "(\<Sum>x\<in>T. (f(t := v)) x) + f t = (\<Sum>x\<in>T. f x) + v"
proof -
  have "(\<Sum>x\<in>T. (f(t := v)) x) = v + (\<Sum>x\<in>T - {t}. f x)"
    using assms by (simp add: sum.remove [of T t])
  moreover have "(\<Sum>x\<in>T. f x) = f t + (\<Sum>x\<in>T - {t}. f x)"
    using assms by (simp add: sum.remove [of T t])
  ultimately show ?thesis by simp
qed

lemma mutex_inv_alone:
  "mutex_inv T w \<Longrightarrow> inside (pc w t) \<Longrightarrow> internal (mtx w) = t \<and> (\<forall>u. inside (pc w u) \<longrightarrow> u = t)"
  by (auto simp: mutex_inv_def)

lemma mutex_inv_step:
  assumes "finite T" "0 \<notin> T" "t \<in> T" "mutex_inv T w"
  shows "mutex_inv T (thread_step t w)"
proof -
  have t0: "t \<noteq> 0" using assms(2,3) by blast
  have inc: "(\<Sum>x\<in>T. ((locks w)(t := locks w t + 1)) x) = (\<Sum>x\<in>T. locks w x) + 1"
    using sum_upd_in [OF assms(1,3), of "locks w" "locks w t + 1"] by simp
  have dec: "(\<Sum>x\<in>T. locks w x) = (\<Sum>x\<in>T. ((locks w)(t := locks w t - 1)) x) + 1"
    if "locks w t > 0"
    using sum_upd_in [OF assms(1,3), of "locks w" "locks w t - 1"] that by simp
  have free: "\<forall>u. \<not> inside (pc w u)" if "internal (mtx w) = 0"
    using assms(2,4) that by (metis mutex_inv_def)
  note alone = mutex_inv_alone [OF assms(4), of t]
  note step_simps = thread_step_def mutex_inv_def Let_def mutex_unlock_def
  show ?thesis
  proof (cases "pc w t")
    case U_count
    then have "locks w t > 0" using assms(4) by (auto simp: mutex_inv_def)
    from dec [OF this] have "count (mtx w) - 1 =
        of_nat (\<Sum>x\<in>T. ((locks w)(t := locks w t - 1)) x)"
      using assms(4) by (simp only: mutex_inv_def of_nat_add) simp
    with U_count assms(3,4) alone show ?thesis by (simp add: step_simps)
  next
    case L_count
    have "count (mtx w) + 1 = of_nat (\<Sum>x\<in>T. ((locks w)(t := locks w t + 1)) x)"
      using assms(4) by (simp only: mutex_inv_def inc of_nat_add) simp
    with L_count assms(3,4) alone show ?thesis by (simp add: step_simps)
  next
    case L_try
    then show ?thesis using assms(3,4) t0 free
      by (cases "internal (mtx w) = 0") (auto simp: step_simps try_lock_def)
  next
    case U_try
    then show ?thesis using assms(3,4) t0 free
      by (cases "internal (mtx w) = 0") (auto simp: step_simps try_lock_def)
  qed (use assms(3,4) t0 alone in \<open>auto simp: step_simps\<close>)
qed

lemma mutex_inv_call:
  assumes "mutex_inv T w" "pc w t = Outside" "c = L_try \<or> c = U_try \<and> locks w t > 0"
  shows "mutex_inv T (goto t c w)"
proof -
  have "inside (((pc w)(t := c)) u) = inside (pc w u)" for u using assms(2,3) by auto
  moreover have "((pc w)(t := c)) u \<in> {U_try, U_count} \<longrightarrow> locks w u > 0" for u
    using assms by (auto simp: mutex_inv_def)
  ultimately show ?thesis using assms(1) by (simp add: mutex_inv_def del: fun_upd_apply)
qed

lemma mutex_reach_inv:
  assumes "mutex_reach T w" "finite T" "0 \<notin> T"
  shows "mutex_inv T w"
  using assms(1)
proof induction
  case (init m)
  show ?case by (simp add: mutex_inv_def mutex_start_def sys_mutex_init_def)
next
  case (step w w')
  from step.hyps(2) show ?case
  proof cases
    case (run t)
    then show ?thesis using mutex_inv_step assms(2,3) step.IH by blast
  next
    case (call_lock t)
    then show ?thesis using mutex_inv_call [OF step.IH] by simp
  next
    case (call_unlock t)
    then show ?thesis using mutex_inv_call [OF step.IH] by simp
  qed
qed

text \<open>A thread that runs alone performs the functions of the first section.\<close>

lemma count_lock_alone:
  assumes "pc w t = L_try" "internal (mtx w) = 0"
  shows "\<exists>m. sys_mutex_count_lock t (mtx w) = Ret m \<and>
    mtx ((thread_step t ^^ 4) w) = m \<and> pc ((thread_step t ^^ 4) w) t = Outside"
  using assms
  by (simp add: sys_mutex_count_lock_def mutex_lock_def try_lock_def thread_step_def Let_def
      eval_nat_numeral mutex_unlock_def)

lemma count_unlock_alone:
  assumes "pc w t = U_try" "internal (mtx w) = 0"
  shows "\<exists>m. sys_mutex_count_unlock t (mtx w) = Ret m \<and>
    mtx ((thread_step t ^^ 4) w) = m \<and> pc ((thread_step t ^^ 4) w) t = Outside"
  using assms
  by (simp add: sys_mutex_count_unlock_def mutex_lock_def try_lock_def thread_step_def Let_def
      eval_nat_numeral mutex_unlock_def)

lemma mutex_runs: "mutex_reach T w \<Longrightarrow> t \<in> T \<Longrightarrow> mutex_reach T ((thread_step t ^^ n) w)"
  by (induction n) (auto intro: mutex_reach.step mutex_trans.run)

section \<open>Properties\<close>



text \<open>The counting lock does not exclude other threads: two threads can both have returned from
  \<open>sys$mutex_count_lock\<close> on the same mutex without either having unlocked it, and the holder then
  names only the second.\<close>

theorem mutex_count_lock_not_exclusive:
  "\<exists>w. mutex_reach {1, 2} w \<and> pc w 1 = Outside \<and> pc w 2 = Outside \<and>
     locks w 1 = 1 \<and> locks w 2 = 1 \<and> count (mtx w) = 2 \<and> holder (mtx w) = 2"
proof -
  define w0 where "w0 = mutex_start \<lparr>holder = 0, internal = 0, count = 0\<rparr>"
  define w1 where "w1 = (thread_step 1 ^^ 4) (goto 1 L_try w0)"
  define w2 where "w2 = (thread_step 2 ^^ 4) (goto 2 L_try w1)"
  note ev = w0_def mutex_start_def sys_mutex_init_def thread_step_def try_lock_def Let_def
    eval_nat_numeral mutex_unlock_def
  have "pc w0 1 = Outside" by (simp add: ev)
  then have "mutex_reach {1, 2} (goto 1 L_try w0)"
    using mutex_reach.step [OF mutex_reach.init mutex_trans.call_lock] by (simp add: w0_def)
  then have r1: "mutex_reach {1, 2} w1" unfolding w1_def by (rule mutex_runs) simp
  have w1: "w1 = \<lparr>mtx = \<lparr>holder = 1, internal = 0, count = 1\<rparr>, pc = (\<lambda>_. Outside),
      locks = (\<lambda>_. 0)(1 := 1)\<rparr>" unfolding w1_def by (simp add: ev fun_upd_idem)
  then have "mutex_reach {1, 2} (goto 2 L_try w1)"
    using mutex_reach.step [OF r1 mutex_trans.call_lock, of 2] by simp
  then have r2: "mutex_reach {1, 2} w2" unfolding w2_def by (rule mutex_runs) simp
  have "w2 = \<lparr>mtx = \<lparr>holder = 2, internal = 0, count = 2\<rparr>, pc = (\<lambda>_. Outside),
      locks = (\<lambda>_. 0)(1 := 1, 2 := 1)\<rparr>" unfolding w2_def w1 by (simp add: ev fun_upd_idem)
  with r2 show ?thesis by (intro exI [of _ w2]) simp
qed

end
