(* ===== verification/Cyclic_Order.thy ===== *)
theory Cyclic_Order
  imports Prelude
begin

text \<open>
  Rings of addresses. The free list of the kernel heap is a circular list in address order; a ring
  is described by the set of its nodes and the relation \<open>is_next S p q\<close>: \<open>q\<close> follows \<open>p\<close> in \<open>S\<close>,
  from the greatest node back to the least. The lemmas insert and remove nodes, and give the
  induction the loops over a ring need: a set of nodes that is closed under the successor is empty
  or the whole ring.
\<close>

definition is_next :: "nat set \<Rightarrow> nat \<Rightarrow> nat \<Rightarrow> bool" where
  "is_next S p q \<longleftrightarrow> q \<in> S \<and>
     (if p < q then \<forall>r\<in>S. \<not> (p < r \<and> r < q) else \<forall>r\<in>S. r \<le> p \<and> q \<le> r)"

text \<open>\<open>b\<close> lies between \<open>p\<close> and its successor \<open>q\<close>, as \<open>sys$free\<close> tests it.\<close>

definition lies_between :: "nat \<Rightarrow> nat \<Rightarrow> nat \<Rightarrow> bool" where
  "lies_between p b q \<longleftrightarrow> p < b \<and> b < q \<or> q \<le> p \<and> (p < b \<or> b < q)"

lemma is_next_in: "is_next S p q \<Longrightarrow> q \<in> S"
  by (simp add: is_next_def)

lemma is_next_self: "is_next S p p \<Longrightarrow> S = {p}"
  by (auto simp: is_next_def intro: le_antisym)

lemma is_next_unique: "is_next S p q \<Longrightarrow> is_next S p r \<Longrightarrow> q = r"
  by (auto simp: is_next_def split: if_splits) (meson le_antisym linorder_neqE_nat not_le)+

lemma is_next_inj:
  assumes "is_next S p q" "is_next S p' q" "p \<in> S" "p' \<in> S"
  shows "p = p'"
  using assms by (auto simp: is_next_def split: if_splits) (meson le_antisym linorder_neqE_nat not_le)+

lemma ring_closed_all:
  assumes "finite S" "N \<subseteq> S" "N \<noteq> {}" and nxt: "\<And>p. p \<in> S \<Longrightarrow> is_next S p (f p)"
    and cl: "\<And>p. p \<in> N \<Longrightarrow> f p \<in> N"
  shows "N = S"
proof (rule ccontr)
  assume ne: "N \<noteq> S"
  have fN: "finite N" using assms(1,2) finite_subset by blast
  have mx: "Max N \<in> N" using fN assms(3) by simp
  have "\<forall>r\<in>S. f (Max N) \<le> r"
  proof -
    have "f (Max N) \<le> Max N" using cl [OF mx] fN by simp
    then show ?thesis using nxt [of "Max N"] mx assms(2) by (auto simp: is_next_def split: if_splits)
  qed
  then have mn: "f (Max N) \<in> N" "\<forall>r\<in>S. f (Max N) \<le> r" using cl [OF mx] by auto
  have "S - N \<noteq> {}" "finite (S - N)" using ne assms(1,2) by auto
  then obtain m where m: "m \<in> S - N" "\<forall>r \<in> S - N. m \<le> r"
    using Min_in Min_le by metis
  have "f (Max N) < m" using mn m by (metis DiffD1 DiffD2 le_neq_implies_less)
  then have "{r \<in> S. r < m} \<noteq> {}" "finite {r \<in> S. r < m}" using mn assms(1,2) by auto
  then obtain p where p: "p \<in> S" "p < m" "\<forall>r \<in> S. r < m \<longrightarrow> r \<le> p"
    using Max_in Max_ge by (metis (mono_tags, lifting) mem_Collect_eq)
  then have "p \<in> N" using m(2) by (metis DiffI leD)
  moreover have "is_next S p m" using p m(1) by (fastforce simp: is_next_def)
  ultimately have "m \<in> N" using cl is_next_unique nxt p(1) by blast
  then show False using m(1) by blast
qed

text \<open>The induction for a loop that walks the ring: the set of nodes from which it goes wrong is closed
  under the successor, and some node is not in it.\<close>

lemma ring_walk:
  assumes "finite S" "\<And>p. p \<in> S \<Longrightarrow> is_next S p (f p)"
    and "\<And>p. p \<in> S \<Longrightarrow> \<not> P p \<Longrightarrow> \<not> P (f p)" and "q \<in> S" "P q" and "p \<in> S"
  shows "P p"
proof (rule ccontr)
  assume "\<not> P p"
  then have "{p \<in> S. \<not> P p} = S"
    using assms is_next_in by (intro ring_closed_all [of S _ f]) blast+
  with assms(4,5) show False by blast
qed

lemma is_next_pred:
  assumes "finite S" "q \<in> S" "\<And>p. p \<in> S \<Longrightarrow> is_next S p (f p)"
  shows "\<exists>p\<in>S. f p = q"
proof (rule ccontr)
  assume a: "\<not> ?thesis"
  have "S - {q} = S"
  proof (cases "S = {q}")
    case True
    then show ?thesis using a assms(3) [of q] is_next_in by fastforce
  next
    case False
    then show ?thesis
      using a assms is_next_in by (intro ring_closed_all [of S _ f]) blast+
  qed
  then show False using assms(2) by blast
qed

lemma between_exists:
  assumes "finite S" "S \<noteq> {}" "b \<notin> S" "\<And>p. p \<in> S \<Longrightarrow> is_next S p (f p)"
  shows "\<exists>p\<in>S. lies_between p b (f p)"
proof (cases "{r \<in> S. r < b} = {}")
  case True
  let ?p = "Max S"
  have p: "?p \<in> S" "\<forall>r\<in>S. r \<le> ?p" using assms(1,2) by auto
  then have "f ?p \<le> ?p" using assms(4) is_next_in by blast
  moreover have "b < f ?p" using True p assms(3,4) is_next_in by (metis (no_types, lifting)
        empty_Collect_eq linorder_neqE_nat)
  ultimately show ?thesis using p by (auto simp: lies_between_def)
next
  case False
  let ?P = "{r \<in> S. r < b}"
  have f: "finite ?P" using assms(1) by simp
  have p: "Max ?P \<in> ?P" using Max_in [OF f False] .
  have "b < f (Max ?P)" if "Max ?P < f (Max ?P)"
  proof (rule ccontr)
    assume "\<not> b < f (Max ?P)"
    then have "f (Max ?P) \<in> ?P"
      using assms(3,4) p is_next_in by (metis (no_types, lifting) linorder_neqE_nat mem_Collect_eq)
    then show False using Max_ge [OF f] that by fastforce
  qed
  then show ?thesis using p by (auto simp: lies_between_def intro!: bexI [of _ "Max ?P"])
qed

lemma is_next_insert_pred:
  "is_next S p q \<Longrightarrow> lies_between p b q \<Longrightarrow> p \<in> S \<Longrightarrow> is_next (insert b S) p b"
  by (auto simp: is_next_def lies_between_def split: if_splits)

lemma is_next_insert_new:
  "is_next S p q \<Longrightarrow> lies_between p b q \<Longrightarrow> p \<in> S \<Longrightarrow> is_next (insert b S) b q"
  by (auto simp: is_next_def lies_between_def split: if_splits)

lemma is_next_insert_other:
  assumes "is_next S p q" "lies_between p b q" "p \<in> S" "b \<notin> S" "r \<in> S" "r \<noteq> p" "is_next S r x"
  shows "is_next (insert b S) r x"
proof -
  have "\<not> (r < b \<and> b < x)" if "r < x"
    using assms that unfolding is_next_def lies_between_def
    by (metis leD less_le_trans linorder_neqE_nat order_less_trans)
  moreover have "b \<le> r \<and> x \<le> b" if "\<not> r < x"
  proof -
    have r: "\<forall>s\<in>S. s \<le> r \<and> x \<le> s" using assms(7) that by (simp add: is_next_def)
    then have "p < r" using assms(3,6) le_neq_implies_less by blast
    then have "p < q" using assms(1,5) unfolding is_next_def by (metis leD)
    then have "p < b" "b < q" "q \<in> S" using assms(1,2) by (auto simp: is_next_def lies_between_def)
    then show ?thesis using r assms(3) by (meson less_imp_le order_trans)
  qed
  ultimately show ?thesis using assms(7) by (auto simp: is_next_def)
qed

lemma is_next_remove_pred:
  assumes "is_next S p q" "is_next S q x" "p \<in> S" "q \<in> S" "p \<noteq> q"
  shows "is_next (S - {q}) p x"
proof -
  have "x \<noteq> q" using assms(2,3,5) is_next_self by blast
  then show ?thesis
    using assms by (auto simp: is_next_def split: if_splits) (meson le_antisym linorder_neqE_nat not_le)+
qed

lemma is_next_remove_other:
  assumes "is_next S p q" "p \<in> S" "q \<in> S" "r \<in> S" "r \<noteq> p" "is_next S r x"
  shows "is_next (S - {q}) r x"
proof -
  have "x \<noteq> q" using assms is_next_inj by blast
  then show ?thesis using assms(6) by (auto simp: is_next_def split: if_splits)
qed

end
