(* ===== verification/Kernel_Heap.thy ===== *)
theory Kernel_Heap
  imports Interfaces Mutex Cyclic_Order
begin

unbundle bit_operations_syntax

text \<open>
  The kernel heap of \<open>sys/sys_core.c\<close>: a first-fit allocator over a circular free list in address
  order, with headers in memory. \<open>hdr\<close> is the memory the headers are read from and written to,
  addresses are natural numbers and sizes are counted in headers of 16 bytes, as in the code. The
  unit counts that the code keeps in an \<open>unsigned int\<close> are reduced to 32 bits where it does so.
  \<open>sys$back_mem\<close> (the answer of the pager), \<open>vms$min_pagesize()\<close> and \<open>L4_Myself()\<close> are the arguments
  \<open>bk\<close>, \<open>ps\<close> and \<open>me\<close>. The lemmas show that the allocator provides the contract of
  \<open>Interfaces.kernel_heap\<close>: blocks in use never overlap each other, the free blocks or the end of
  the heap, and both operations return.
\<close>

section \<open>The model\<close>

record header =
  s_ptr :: nat
  s_size :: nat

record heap =
  bss :: nat
  top :: nat
  base :: nat
  freep :: nat
  hdr :: "nat \<Rightarrow> header"
  alloc_mutex :: mutex

definition sizeof_Header :: nat where "sizeof_Header = 16"

abbreviation set_ptr :: "nat \<Rightarrow> nat \<Rightarrow> heap \<Rightarrow> heap" where
  "set_ptr a q h \<equiv> h\<lparr>hdr := (hdr h)(a := (hdr h a)\<lparr>s_ptr := q\<rparr>)\<rparr>"

abbreviation set_size :: "nat \<Rightarrow> nat \<Rightarrow> heap \<Rightarrow> heap" where
  "set_size a n h \<equiv> h\<lparr>hdr := (hdr h)(a := (hdr h a)\<lparr>s_size := n\<rparr>)\<rparr>"

abbreviation nxt :: "heap \<Rightarrow> nat \<Rightarrow> nat" where "nxt h p \<equiv> s_ptr (hdr h p)"

abbreviation units :: "heap \<Rightarrow> nat \<Rightarrow> nat" where "units h p \<equiv> s_size (hdr h p)"

text \<open>The address after the block at \<open>p\<close>: \<open>p + p->s.size\<close>.\<close>

abbreviation block_end :: "heap \<Rightarrow> nat \<Rightarrow> nat" where
  "block_end h p \<equiv> p + sizeof_Header * units h p"

definition lock :: "u64 \<Rightarrow> heap \<Rightarrow> heap outcome" where
  "lock me h = bindo (sys_mutex_count_lock me (alloc_mutex h)) (\<lambda>m. Ret (h\<lparr>alloc_mutex := m\<rparr>))"

definition unlock :: "u64 \<Rightarrow> heap \<Rightarrow> heap outcome" where
  "unlock me h = bindo (sys_mutex_count_unlock me (alloc_mutex h)) (\<lambda>m. Ret (h\<lparr>alloc_mutex := m\<rparr>))"

definition sys_alloc_init :: "nat \<Rightarrow> nat \<Rightarrow> heap \<Rightarrow> heap" where
  "sys_alloc_init bss_p top_p h =
     h\<lparr>bss := bss_p, top := top_p, alloc_mutex := sys_mutex_init (alloc_mutex h)\<rparr>"

definition round_up :: "u64 \<Rightarrow> u64 \<Rightarrow> u64" where
  "round_up address sz = (address + (sz - 1)) AND NOT (sz - 1)"

text \<open>\<open>sys$free\<close>: the loop that finds the place of \<open>bp\<close> in the ring, and the joins with the
  neighbours.\<close>

partial_function (option) free_find :: "heap \<Rightarrow> nat \<Rightarrow> nat \<Rightarrow> nat option" where
  "free_find h bp p =
     (if p < bp \<and> bp < nxt h p then Some p
      else if p \<ge> nxt h p \<and> (bp > p \<or> bp < nxt h p) then Some p
      else free_find h bp (nxt h p))"

definition join_upper :: "nat \<Rightarrow> nat \<Rightarrow> heap \<Rightarrow> heap" where
  "join_upper bp p h =
     (if block_end h bp = nxt h p
      then let h1 = set_size bp (units h bp + units h (nxt h p)) h
           in set_ptr bp (nxt h1 (nxt h1 p)) h1
      else set_ptr bp (nxt h p) h)"

definition join_lower :: "nat \<Rightarrow> nat \<Rightarrow> heap \<Rightarrow> heap" where
  "join_lower bp p h =
     (if block_end h p = bp
      then let h1 = set_size p (units h p + units h bp) h in set_ptr p (nxt h1 bp) h1
      else set_ptr p bp h)"

definition sys_free :: "u64 \<Rightarrow> nat \<Rightarrow> heap \<Rightarrow> heap outcome" where
  "sys_free me ap h =
     (if ap = 0 then Ret h
      else bindo (lock me h) (\<lambda>h.
        let bp = ap - sizeof_Header
        in fault_if (freep h = 0)
             (case free_find h bp (freep h) of
                None \<Rightarrow> Timeout
              | Some p \<Rightarrow> unlock me ((join_lower bp p (join_upper bp p h))\<lparr>freep := p\<rparr>))))"

definition sys_morecore :: "u64 \<Rightarrow> (nat \<Rightarrow> nat \<Rightarrow> int) \<Rightarrow> u64 \<Rightarrow> nat \<Rightarrow> heap \<Rightarrow> (nat \<times> heap) outcome" where
  "sys_morecore me bk ps nu0 h =
     (let cp = bss h;
          nu = unat (ucast (round_up (of_nat nu0) (ps div of_nat sizeof_Header)) :: u32)
      in if bss h + nu * sizeof_Header > top h then Ret (0, h)
         else if bk cp (cp + nu * sizeof_Header - 1) \<noteq> 0 then Ret (0, h)
         else let h1 = set_size cp nu (h\<lparr>bss := bss h + nu * sizeof_Header\<rparr>)
              in bindo (sys_free me (cp + sizeof_Header) h1) (\<lambda>h2. Ret (freep h2, h2)))"

text \<open>The branches of the loop of \<open>sys$alloc\<close> that found a block, with the tail end cut off a
  bigger one.\<close>

definition take_block :: "u64 \<Rightarrow> nat \<Rightarrow> heap \<Rightarrow> nat \<Rightarrow> nat \<Rightarrow> (nat \<times> heap) outcome" where
  "take_block me nunits h prevp p =
     (let (p', h') =
        (if units h p = nunits then (p, set_ptr prevp (nxt h p) h)
         else let h1 = set_size p (units h p - nunits) h;
                  q = p + sizeof_Header * units h1 p
              in (q, set_size q nunits h1))
      in bindo (unlock me (h'\<lparr>freep := prevp\<rparr>)) (\<lambda>h. Ret (p' + sizeof_Header, h)))"

partial_function (option) alloc_loop ::
  "u64 \<Rightarrow> (nat \<Rightarrow> nat \<Rightarrow> int) \<Rightarrow> u64 \<Rightarrow> nat \<Rightarrow> heap \<Rightarrow> nat \<Rightarrow> nat \<Rightarrow> (nat \<times> heap) outcome option" where
  "alloc_loop me bk ps nunits h prevp p =
     (if units h p \<ge> nunits then Some (take_block me nunits h prevp p)
      else if p = freep h then
        (case sys_morecore me bk ps nunits h of
           Ret r \<Rightarrow>
             (if fst r = 0 then Some (bindo (unlock me (snd r)) (\<lambda>h. Ret (0, h)))
              else alloc_loop me bk ps nunits (snd r) (fst r) (nxt (snd r) (fst r)))
         | Panic \<Rightarrow> Some Panic
         | Fault \<Rightarrow> Some Fault
         | Timeout \<Rightarrow> None)
      else alloc_loop me bk ps nunits h p (nxt h p))"

definition first_ring :: "heap \<Rightarrow> heap" where
  "first_ring h =
     (if freep h = 0
      then let h1 = h\<lparr>freep := base h\<rparr> in set_size (base h) 0 (set_ptr (base h) (freep h1) h1)
      else h)"

definition unit_count :: "u64 \<Rightarrow> nat" where
  "unit_count nbytes =
     unat (ucast ((nbytes + of_nat sizeof_Header - 1) div of_nat sizeof_Header + 1) :: u32)"

definition sys_alloc :: "u64 \<Rightarrow> (nat \<Rightarrow> nat \<Rightarrow> int) \<Rightarrow> u64 \<Rightarrow> u64 \<Rightarrow> heap \<Rightarrow> (nat \<times> heap) outcome" where
  "sys_alloc me bk ps nbytes h =
     bindo (lock me h) (\<lambda>h.
       let h1 = first_ring h; prevp = freep h1
       in case alloc_loop me bk ps (unit_count nbytes) h1 prevp (nxt h1 prevp) of
            None \<Rightarrow> Timeout
          | Some r \<Rightarrow> r)"

section \<open>The invariant\<close>

text \<open>\<open>S\<close> are the nodes of the ring, \<open>A\<close> the headers of the blocks in use and \<open>lo\<close> the address at
  which the heap starts.\<close>

definition blocks_ok :: "nat \<Rightarrow> nat set \<Rightarrow> heap \<Rightarrow> bool" where
  "blocks_ok lo B h \<longleftrightarrow>
     (\<forall>a\<in>B. lo \<le> a \<and> units h a \<ge> 1 \<and> block_end h a \<le> bss h) \<and>
     (\<forall>a\<in>B. \<forall>b\<in>B. a < b \<longrightarrow> block_end h a \<le> b)"

lemma blocks_okI:
  assumes "\<And>a. a \<in> B \<Longrightarrow> lo \<le> a" "\<And>a. a \<in> B \<Longrightarrow> units h a \<ge> 1"
    "\<And>a. a \<in> B \<Longrightarrow> block_end h a \<le> bss h"
    "\<And>a b. a \<in> B \<Longrightarrow> b \<in> B \<Longrightarrow> a < b \<Longrightarrow> block_end h a \<le> b"
  shows "blocks_ok lo B h"
  using assms by (simp add: blocks_ok_def)

lemma blocks_okD:
  assumes "blocks_ok lo B h"
  shows "a \<in> B \<Longrightarrow> lo \<le> a" "a \<in> B \<Longrightarrow> units h a \<ge> 1" "a \<in> B \<Longrightarrow> block_end h a \<le> bss h"
    "a \<in> B \<Longrightarrow> b \<in> B \<Longrightarrow> a < b \<Longrightarrow> block_end h a \<le> b"
  using assms by (auto simp: blocks_ok_def)

definition kr_inv :: "nat \<Rightarrow> nat set \<Rightarrow> nat set \<Rightarrow> heap \<Rightarrow> bool" where
  "kr_inv lo S A h \<longleftrightarrow>
     finite S \<and> base h \<in> S \<and> freep h \<in> S \<and> units h (base h) = 0 \<and> S \<inter> A = {} \<and>
     (\<forall>p\<in>S. is_next S p (nxt h p)) \<and> blocks_ok lo (S - {base h} \<union> A) h \<and>
     0 < lo \<and> lo \<le> bss h \<and> bss h \<le> top h \<and> 0 < base h \<and> (base h < lo \<or> top h < base h) \<and>
     internal (alloc_mutex h) = 0"

lemma kr_invD:
  assumes "kr_inv lo S A h"
  shows "finite S" "base h \<in> S" "freep h \<in> S" "units h (base h) = 0" "S \<inter> A = {}"
    "\<And>p. p \<in> S \<Longrightarrow> is_next S p (nxt h p)" "blocks_ok lo (S - {base h} \<union> A) h"
    "0 < lo" "lo \<le> bss h" "bss h \<le> top h" "0 < base h" "base h < lo \<or> top h < base h"
    "internal (alloc_mutex h) = 0"
  using assms by (auto simp: kr_inv_def)

lemma kr_inv_mutex: "kr_inv lo S A h \<Longrightarrow> internal m = 0 \<Longrightarrow> kr_inv lo S A (h\<lparr>alloc_mutex := m\<rparr>)"
  by (simp add: kr_inv_def blocks_ok_def)

lemma kr_inv_freep: "kr_inv lo S A h \<Longrightarrow> p \<in> S \<Longrightarrow> kr_inv lo S A (h\<lparr>freep := p\<rparr>)"
  by (simp add: kr_inv_def blocks_ok_def)

lemma lock_ok:
  assumes "internal (alloc_mutex h) = 0"
  obtains m where "lock me h = Ret (h\<lparr>alloc_mutex := m\<rparr>)" "internal m = 0"
  using assms that by (auto simp: lock_def sys_mutex_count_lock_def mutex_lock_def try_lock_def
      mutex_unlock_def Let_def)

lemma unlock_ok:
  assumes "internal (alloc_mutex h) = 0"
  obtains m where "unlock me h = Ret (h\<lparr>alloc_mutex := m\<rparr>)" "internal m = 0"
  using assms that by (auto simp: unlock_def sys_mutex_count_unlock_def mutex_lock_def try_lock_def
      mutex_unlock_def Let_def)

lemma in_block_bounds:
  assumes "kr_inv lo S A h" "a \<in> S - {base h} \<union> A"
  shows "lo \<le> a" "units h a \<ge> 1" "block_end h a \<le> bss h" "a < block_end h a"
proof -
  show "lo \<le> a" and u: "units h a \<ge> 1" and "block_end h a \<le> bss h"
    using kr_invD(7) [OF assms(1)] assms(2) by (auto simp: blocks_ok_def)
  show "a < block_end h a" using u by (simp add: sizeof_Header_def)
qed

text \<open>A block never ends at the static header \<open>base\<close>.\<close>

lemma block_end_not_base:
  assumes "kr_inv lo S A h" "a \<in> S - {base h} \<union> A"
  shows "block_end h a \<noteq> base h"
  using in_block_bounds [OF assms] kr_invD(10,12) [OF assms(1)] by linarith

section \<open>\<open>sys$free\<close>\<close>

lemma free_find_ok:
  assumes inv: "kr_inv lo S A h" and bp: "bp \<notin> S"
  obtains p where "free_find h bp (freep h) = Some p" "p \<in> S" "lies_between p bp (nxt h p)"
proof -
  let ?good = "\<lambda>p. \<exists>q\<in>S. free_find h bp p = Some q \<and> lies_between q bp (nxt h q)"
  obtain q where q: "q \<in> S" "lies_between q bp (nxt h q)"
    using between_exists [OF kr_invD(1) [OF inv] _ bp, of "nxt h"] kr_invD(2,6) [OF inv] by blast
  have stop: "free_find h bp p = Some p" if "lies_between p bp (nxt h p)" for p
    using that by (subst free_find.simps) (auto simp: lies_between_def)
  have go: "free_find h bp p = free_find h bp (nxt h p)" if "\<not> lies_between p bp (nxt h p)" for p
    using that by (subst free_find.simps) (auto simp: lies_between_def)
  have "?good (freep h)"
  proof (rule ring_walk [of S "nxt h" ?good q])
    show "?good q" using q stop by blast
    show "\<not> ?good (nxt h p)" if "p \<in> S" "\<not> ?good p" for p
      using that stop go by metis
  qed (use kr_invD [OF inv] q in auto)
  with that show ?thesis by blast
qed

text \<open>The two joins are an insertion into the ring followed by merges of adjacent nodes.\<close>

definition ring_insert :: "nat \<Rightarrow> nat \<Rightarrow> heap \<Rightarrow> heap" where
  "ring_insert bp p h = set_ptr p bp (set_ptr bp (nxt h p) h)"

definition merge_next :: "nat \<Rightarrow> heap \<Rightarrow> heap" where
  "merge_next a h = set_ptr a (nxt h (nxt h a)) (set_size a (units h a + units h (nxt h a)) h)"

lemma ring_insert_units [simp]: "units (ring_insert bp p h) a = units h a"
  by (simp add: ring_insert_def)

lemma ring_insert_next:
  "bp \<noteq> p \<Longrightarrow> nxt (ring_insert bp p h) a = (if a = p then bp else if a = bp then nxt h p else nxt h a)"
  by (simp add: ring_insert_def)

lemma ring_insert_same [simp]:
  "base (ring_insert bp p h) = base h" "bss (ring_insert bp p h) = bss h"
  "top (ring_insert bp p h) = top h" "freep (ring_insert bp p h) = freep h"
  "alloc_mutex (ring_insert bp p h) = alloc_mutex h"
  by (simp_all add: ring_insert_def)

lemma merge_next_same [simp]:
  "base (merge_next a h) = base h" "bss (merge_next a h) = bss h" "top (merge_next a h) = top h"
  "freep (merge_next a h) = freep h" "alloc_mutex (merge_next a h) = alloc_mutex h"
  by (simp_all add: merge_next_def)

lemma merge_next_units:
  "units (merge_next a h) b = (if b = a then units h a + units h (nxt h a) else units h b)"
  by (simp add: merge_next_def)

lemma merge_next_next:
  "nxt (merge_next a h) b = (if b = a then nxt h (nxt h a) else nxt h b)"
  by (simp add: merge_next_def)

lemma ring_insert_inv:
  assumes inv: "kr_inv lo S A h" and bp: "bp \<in> A" and p: "p \<in> S" "lies_between p bp (nxt h p)"
  shows "kr_inv lo (insert bp S) (A - {bp}) (ring_insert bp p h)"
proof -
  note D = kr_invD [OF inv]
  have nS: "bp \<notin> S" and ne: "bp \<noteq> p" "bp \<noteq> base h" using D(2,5) bp p by auto
  have "is_next (insert bp S) r (nxt (ring_insert bp p h) r)" if "r \<in> insert bp S" for r
    using that is_next_insert_pred [OF D(6) [OF p(1)] p(2,1)]
      is_next_insert_new [OF D(6) [OF p(1)] p(2,1)] ne
      is_next_insert_other [OF D(6) [OF p(1)] p(2,1) nS _ _ D(6)]
    by (auto simp: ring_insert_next)
  moreover have "insert bp S - {base h} \<union> (A - {bp}) = S - {base h} \<union> A" using bp ne by auto
  moreover have "insert bp S \<inter> (A - {bp}) = {}" using D(5) by auto
  ultimately show ?thesis using D unfolding kr_inv_def blocks_ok_def by simp
qed

lemma merge_next_inv:
  assumes inv: "kr_inv lo S A h" and a: "a \<in> S" "a \<noteq> base h" "block_end h a = nxt h a"
    and f: "freep h \<noteq> nxt h a"
  shows "kr_inv lo (S - {nxt h a}) A (merge_next a h)"
proof -
  let ?b = "nxt h a"
  let ?B = "S - {base h} \<union> A"
  note D = kr_invD [OF inv]
  have aB: "a \<in> ?B" using a by blast
  have bS: "?b \<in> S" using D(6) [OF a(1)] is_next_in by blast
  have ab: "a < ?b" "?b \<noteq> base h" using in_block_bounds [OF inv aB] block_end_not_base [OF inv aB] a(3) by auto
  then have bB: "?b \<in> ?B" using bS by blast
  have "is_next (S - {?b}) r (nxt (merge_next a h) r)" if "r \<in> S - {?b}" for r
  proof (cases "r = a")
    case True
    then show ?thesis
      using is_next_remove_pred [OF D(6) [OF a(1)] D(6) [OF bS] a(1) bS] ab by (simp add: merge_next_next)
  next
    case False
    then show ?thesis using that
      is_next_remove_other [OF D(6) [OF a(1)] a(1) bS _ _ D(6)] by (simp add: merge_next_next)
  qed
  moreover have "blocks_ok lo (S - {?b} - {base h} \<union> A) (merge_next a h)"
  proof -
    have eq: "S - {?b} - {base h} \<union> A = ?B - {?b}" using D(5) bS by auto
    have ends: "block_end (merge_next a h) c = (if c = a then block_end h ?b else block_end h c)" for c
      using a(3) by (simp add: merge_next_units algebra_simps)
    note dis = blocks_okD [OF D(7)]
    have after: "block_end h ?b \<le> c" if "c \<in> ?B - {?b}" "a < c" for c
    proof -
      have "?b \<le> c" using dis(4) [OF aB _ that(2)] a(3) that(1) by (metis DiffD1)
      then have "?b < c" using that(1) by (metis DiffD2 le_neq_implies_less singletonI)
      then show ?thesis using dis(4) [OF bB] that(1) by blast
    qed
    show ?thesis unfolding eq
    proof (rule blocks_okI, goal_cases)
      case (2 c)
      then show ?case using dis(2) [of c] by (auto simp: merge_next_units)
    next
      case (3 c)
      then show ?case using dis(3) bB unfolding ends by auto
    next
      case (4 c d)
      then show ?case using dis(4) [of c d] after [of d] unfolding ends by (cases "c = a") auto
    qed (use dis(1) in auto)
  qed
  moreover have "units (merge_next a h) (base h) = 0" using a(2) D(4) by (simp add: merge_next_units)
  moreover have "base h \<in> S - {?b}" "freep h \<in> S - {?b}" "(S - {?b}) \<inter> A = {}"
    using D(2,3,5) ab f by auto
  ultimately show ?thesis using D(1,8-13) unfolding kr_inv_def by simp
qed

lemma joins_eq:
  assumes "bp \<noteq> p" "nxt h p \<noteq> bp" "block_end h bp = nxt h p \<longrightarrow> nxt h p \<noteq> p"
  shows "(join_lower bp p (join_upper bp p h))\<lparr>freep := p\<rparr> =
    (let h1 = ring_insert bp p (h\<lparr>freep := p\<rparr>);
         h2 = (if block_end h1 bp = nxt h1 bp then merge_next bp h1 else h1)
     in if block_end h2 p = nxt h2 p then merge_next p h2 else h2)"
  using assms by (auto simp: join_lower_def join_upper_def ring_insert_def merge_next_def Let_def
      fun_upd_twist)

lemma free_blocks_inv:
  assumes inv: "kr_inv lo S A h" and bp: "bp \<in> A" and p: "p \<in> S" "lies_between p bp (nxt h p)"
  obtains S' where "kr_inv lo S' (A - {bp}) ((join_lower bp p (join_upper bp p h))\<lparr>freep := p\<rparr>)"
    "\<exists>x\<in>S'. units h bp \<le> units ((join_lower bp p (join_upper bp p h))\<lparr>freep := p\<rparr>) x"
proof -
  note D = kr_invD [OF inv]
  define h0 where "h0 = h\<lparr>freep := p\<rparr>"
  define h1 where "h1 = ring_insert bp p h0"
  define h2 where "h2 = (if block_end h1 bp = nxt h1 bp then merge_next bp h1 else h1)"
  define h3 where "h3 = (if block_end h2 p = nxt h2 p then merge_next p h2 else h2)"
  have ne: "bp \<noteq> p" "nxt h p \<noteq> bp" "bp \<noteq> base h" using D(2,5,6) bp p is_next_in by blast+
  have nb: "block_end h bp \<noteq> base h" using block_end_not_base [OF inv] bp by blast
  have np: "nxt h p \<noteq> p" if "block_end h bp = nxt h p"
  proof
    assume "nxt h p = p"
    then have "S = {p}" using D(6) [OF p(1)] is_next_self by simp
    then show False using nb that \<open>nxt h p = p\<close> D(2) by simp
  qed
  have eq: "(join_lower bp p (join_upper bp p h))\<lparr>freep := p\<rparr> = h3"
    using joins_eq [OF ne(1,2)] np unfolding h3_def h2_def h1_def h0_def Let_def by blast
  have i1: "kr_inv lo (insert bp S) (A - {bp}) h1" unfolding h1_def h0_def
    by (rule ring_insert_inv [OF kr_inv_freep [OF inv p(1)] bp]) (use p in auto)
  have n1: "nxt h1 bp = nxt h p" "nxt h1 p = bp" "freep h1 = p" "base h1 = base h"
    "units h1 bp = units h bp"
    using ne by (simp_all add: h1_def ring_insert_next h0_def)
  have i2: "\<exists>S2. kr_inv lo S2 (A - {bp}) h2 \<and> bp \<in> S2 \<and> p \<in> S2"
  proof (cases "block_end h1 bp = nxt h1 bp")
    case True
    then have "nxt h p \<noteq> p" using np n1 by simp
    with merge_next_inv [OF i1 _ _ True] n1 ne True show ?thesis unfolding h2_def
      using p(1) by (intro exI [of _ "insert bp S - {nxt h p}"]) auto
  next
    case False
    with i1 p(1) show ?thesis unfolding h2_def by auto
  qed
  then obtain S2 where S2: "kr_inv lo S2 (A - {bp}) h2" "bp \<in> S2" "p \<in> S2" by blast
  have n2: "nxt h2 p = bp" "freep h2 = p" "base h2 = base h" "units h bp \<le> units h2 bp"
    using n1 ne by (simp_all add: h2_def merge_next_next merge_next_units)
  show ?thesis
  proof (cases "block_end h2 p = nxt h2 p")
    case True
    have pb: "p \<noteq> base h"
      using True n2 kr_invD(4) [OF S2(1)] ne by (auto simp: sizeof_Header_def)
    have "kr_inv lo (S2 - {bp}) (A - {bp}) h3"
      using merge_next_inv [OF S2(1,3) _ True] True n2 pb ne by (simp add: h3_def)
    moreover have "units h bp \<le> units h3 p" "p \<in> S2 - {bp}"
      using True n2 S2 ne by (simp_all add: h3_def merge_next_units)
    ultimately show ?thesis using that eq by metis
  next
    case False
    with S2 n2 that eq show ?thesis unfolding h3_def by metis
  qed
qed

lemma sys_free_ok:
  assumes inv: "kr_inv lo S A h" and bp: "bp \<in> A"
  obtains S' h' where "sys_free me (bp + sizeof_Header) h = Ret h'" "kr_inv lo S' (A - {bp}) h'"
    "\<forall>a\<in>A - {bp}. units h' a = units h a" "\<exists>x\<in>S'. units h bp \<le> units h' x"
proof -
  obtain m where m: "lock me h = Ret (h\<lparr>alloc_mutex := m\<rparr>)" "internal m = 0"
    using lock_ok kr_invD(13) [OF inv] by metis
  let ?h = "h\<lparr>alloc_mutex := m\<rparr>"
  have i: "kr_inv lo S A ?h" using kr_inv_mutex [OF inv m(2)] .
  have nS: "bp \<notin> S" using kr_invD(5) [OF inv] bp by blast
  obtain p where p: "free_find ?h bp (freep ?h) = Some p" "p \<in> S" "lies_between p bp (nxt ?h p)"
    using free_find_ok [OF i nS] by blast
  let ?h3 = "(join_lower bp p (join_upper bp p ?h))\<lparr>freep := p\<rparr>"
  obtain S' where S': "kr_inv lo S' (A - {bp}) ?h3" "\<exists>x\<in>S'. units ?h bp \<le> units ?h3 x"
    using free_blocks_inv [OF i bp p(2,3)] by blast
  obtain m' where m': "unlock me ?h3 = Ret (?h3\<lparr>alloc_mutex := m'\<rparr>)" "internal m' = 0"
    using unlock_ok kr_invD(13) [OF S'(1)] by metis
  have "freep h \<noteq> 0"
    using kr_invD [OF inv] in_block_bounds(1) [OF inv, of "freep h"] by (cases "freep h = base h") auto
  then have "sys_free me (bp + sizeof_Header) h = Ret (?h3\<lparr>alloc_mutex := m'\<rparr>)"
    using m(1) p(1) m'(1) by (simp add: sys_free_def sizeof_Header_def)
  moreover have "\<forall>a\<in>A - {bp}. units ?h3 a = units h a"
    using p(2) kr_invD(5) [OF inv] by (auto simp: join_lower_def join_upper_def Let_def)
  ultimately show ?thesis
    using that kr_inv_mutex [OF S'(1) m'(2)] S'(2) by simp
qed

section \<open>\<open>sys$alloc\<close>\<close>

lemma first_ring_same [simp]: "freep h \<noteq> 0 \<Longrightarrow> first_ring h = h"
  by (simp add: first_ring_def)

lemma take_block_ok:
  assumes inv: "kr_inv lo S A h" and r: "r \<in> S" "p = nxt h r" and n: "1 \<le> n" "n \<le> units h p"
  obtains a S' h' where "take_block me n h r p = Ret (a + sizeof_Header, h')" "a \<notin> A" "0 < a"
    "kr_inv lo S' (insert a A) h'" "units h' a = n" "\<forall>a\<in>A. units h' a = units h a"
proof -
  note D = kr_invD [OF inv]
  let ?B = "S - {base h} \<union> A"
  have pS: "p \<in> S" using D(6) [OF r(1)] is_next_in r(2) by simp
  have pb: "p \<noteq> base h" using D(4) n by auto
  then have pB: "p \<in> ?B" using pS by blast
  have rp: "r \<noteq> p"
    using D(2) D(6) [OF r(1)] is_next_self r(2) pb by (metis singletonD)
  have pA: "p \<notin> A" using D(5) pS by blast
  have nr: "is_next S r p" using D(6) [OF r(1)] r(2) by simp
  show ?thesis
  proof (cases "units h p = n")
    case True
    let ?h = "(set_ptr r (nxt h p) h)\<lparr>freep := r\<rparr>"
    have "is_next (S - {p}) x (nxt ?h x)" if "x \<in> S - {p}" for x
      using that is_next_remove_pred [OF nr D(6) [OF pS] r(1) pS rp]
        is_next_remove_other [OF nr r(1) pS _ _ D(6)] by auto
    moreover have "S - {p} - {base h} \<union> insert p A = ?B" using pS pb by auto
    moreover have "(S - {p}) \<inter> insert p A = {}" using D(5) by auto
    ultimately have "kr_inv lo (S - {p}) (insert p A) ?h"
      using D(1-4,7-13) pb r(1) rp unfolding kr_inv_def blocks_ok_def by auto
    moreover obtain m where "unlock me ?h = Ret (?h\<lparr>alloc_mutex := m\<rparr>)" "internal m = 0"
      using unlock_ok [of ?h] D(13) by auto
    moreover have "0 < p" using in_block_bounds [OF inv pB] D(8) by simp
    ultimately show ?thesis
      using that [of p "?h\<lparr>alloc_mutex := m\<rparr>" "S - {p}"] True pA kr_inv_mutex rp
      by (auto simp: take_block_def)
  next
    case False
    then have lt: "n < units h p" using n by simp
    let ?q = "p + sizeof_Header * (units h p - n)"
    let ?h = "(set_size ?q n (set_size p (units h p - n) h))\<lparr>freep := r\<rparr>"
    have qp: "p < ?q" using lt by (simp add: sizeof_Header_def)
    have qe: "block_end h p = ?q + sizeof_Header * n"
      using lt by (simp add: add_mult_distrib2 [symmetric])
    note dis = blocks_okD [OF D(7)]
    have q_new: "?q \<notin> ?B"
    proof
      assume "?q \<in> ?B"
      from dis(4) [OF pB this qp] qe n(1) show False by (simp add: sizeof_Header_def)
    qed
    have qb: "?q \<noteq> base h" "?q \<notin> S"
      using in_block_bounds [OF inv pB] qp qe D(10,12) q_new n(1) by auto
    have "blocks_ok lo (S - {base h} \<union> insert ?q A) ?h"
    proof -
      have eq: "S - {base h} \<union> insert ?q A = insert ?q ?B" by auto
      have u: "units ?h c = (if c = ?q then n else if c = p then units h p - n else units h c)" for c
        by simp
      have before: "block_end h c \<le> ?q" if "c \<in> ?B" "c < ?q" "c \<noteq> p" for c
      proof (cases "c < p")
        case True
        then show ?thesis using dis(4) [OF that(1) pB] qp by linarith
      next
        case False
        then show ?thesis using dis(4) [OF pB that(1)] qe that(2,3) by linarith
      qed
      have pq: "block_end ?h p = ?q" "block_end ?h ?q = block_end h p" using qp qe by simp_all
      show ?thesis unfolding eq
      proof (rule blocks_okI, goal_cases)
        case (1 c)
        then show ?case using dis(1) dis(1) [OF pB] qp by fastforce
      next
        case (2 c)
        then show ?case using dis(2) n(1) lt by (auto simp: u)
      next
        case (3 c)
        then show ?case using dis(3) [of c] dis(3) [OF pB] pq qe by (cases "c = ?q"; cases "c = p") auto
      next
        case (4 c d)
        consider "c = ?q" | "c = p" "c \<noteq> ?q" | "c \<noteq> p" "c \<noteq> ?q" by blast
        then show ?case
        proof cases
          case 1
          then have "d \<in> ?B" "p < d" using 4 qp by auto
          then have "block_end h p \<le> d" by (rule dis(4) [OF pB])
          then show ?thesis using pq(2) unfolding 1 by linarith
        next
          case 2
          then show ?thesis using dis(4) [OF pB, of d] 4 pq qe by (cases "d = ?q") auto
        next
          case 3
          then have "c \<in> ?B" using 4 by auto
          then show ?thesis using 3 4 before [of c] dis(4) [of c d] u [of c] by (cases "d = ?q") auto
        qed
      qed
    qed
    moreover have "is_next S x (nxt ?h x)" if "x \<in> S" for x using D(6) [OF that] by auto
    ultimately have "kr_inv lo S (insert ?q A) ?h"
      using D(1-5,8-13) qb pb r(1) unfolding kr_inv_def by auto
    moreover obtain m where m: "unlock me ?h = Ret (?h\<lparr>alloc_mutex := m\<rparr>)" "internal m = 0"
      using unlock_ok [of ?h] D(13) by auto
    ultimately have 1: "kr_inv lo S (insert ?q A) (?h\<lparr>alloc_mutex := m\<rparr>)" by (metis kr_inv_mutex)
    have 2: "take_block me n h r p = Ret (?q + sizeof_Header, ?h\<lparr>alloc_mutex := m\<rparr>)"
      using m(1) False by (simp add: take_block_def Let_def)
    have 3: "0 < ?q" using in_block_bounds [OF inv pB] D(8) by simp
    have 4: "units (?h\<lparr>alloc_mutex := m\<rparr>) ?q = n" by simp
    have 5: "\<forall>a\<in>A. units (?h\<lparr>alloc_mutex := m\<rparr>) a = units h a"
    proof
      fix a assume "a \<in> A"
      then have "a \<noteq> p" "a \<noteq> ?q" using pA q_new by blast+
      then show "units (?h\<lparr>alloc_mutex := m\<rparr>) a = units h a" by simp
    qed
    have 6: "?q \<notin> A" using q_new by blast
    show ?thesis by (rule that [OF 2 6 3 1 4 5])
  qed
qed

abbreviation big_free :: "nat set \<Rightarrow> heap \<Rightarrow> nat \<Rightarrow> bool" where
  "big_free S h n \<equiv> \<exists>x\<in>S. n \<le> units h x"

lemma alloc_loop_found:
  assumes inv: "kr_inv lo S A h" and big: "big_free S h n"
  shows "\<exists>r\<in>S. n \<le> units h (nxt h r) \<and>
    alloc_loop me bk ps n h (freep h) (nxt h (freep h)) = Some (take_block me n h r (nxt h r))"
proof -
  let ?good = "\<lambda>q. \<exists>r\<in>S. n \<le> units h (nxt h r) \<and>
    alloc_loop me bk ps n h q (nxt h q) = Some (take_block me n h r (nxt h r))"
  note D = kr_invD [OF inv]
  obtain x where x: "x \<in> S" "n \<le> units h x" using big by blast
  obtain q where q: "q \<in> S" "nxt h q = x" using is_next_pred [OF D(1) x(1) D(6)] by blast
  show "?good (freep h)"
  proof (rule ccontr)
    assume nf: "\<not> ?good (freep h)"
    have "?good (freep h)"
    proof (rule ring_walk [of S "nxt h" ?good q])
      show "?good q" using q x by (subst alloc_loop.simps) auto
      show "\<not> ?good (nxt h p)" if "p \<in> S" "\<not> ?good p" for p
      proof (cases "n \<le> units h (nxt h p)")
        case True
        then have "?good p" using that(1) by (subst alloc_loop.simps) auto
        with that(2) show ?thesis by blast
      next
        case False
        show ?thesis
        proof (cases "nxt h p = freep h")
          case True
          with nf show ?thesis by simp
        next
          case neq: False
          then have "alloc_loop me bk ps n h p (nxt h p) =
              alloc_loop me bk ps n h (nxt h p) (nxt h (nxt h p))"
            using False by (subst alloc_loop.simps) simp
          with that(2) show ?thesis by simp
        qed
      qed
    qed (use D q in auto)
    with nf show False by blast
  qed
qed

text \<open>What the loop does when it has wrapped around.\<close>

definition grow :: "u64 \<Rightarrow> (nat \<Rightarrow> nat \<Rightarrow> int) \<Rightarrow> u64 \<Rightarrow> nat \<Rightarrow> heap \<Rightarrow> (nat \<times> heap) outcome option" where
  "grow me bk ps n h =
     (case sys_morecore me bk ps n h of
        Ret r \<Rightarrow>
          (if fst r = 0 then Some (bindo (unlock me (snd r)) (\<lambda>h. Ret (0, h)))
           else alloc_loop me bk ps n (snd r) (fst r) (nxt (snd r) (fst r)))
      | Panic \<Rightarrow> Some Panic | Fault \<Rightarrow> Some Fault | Timeout \<Rightarrow> None)"

lemma alloc_loop_not_found:
  assumes inv: "kr_inv lo S A h" and small: "\<not> big_free S h n"
  shows "alloc_loop me bk ps n h (freep h) (nxt h (freep h)) = grow me bk ps n h"
proof -
  note D = kr_invD [OF inv]
  let ?good = "\<lambda>q. alloc_loop me bk ps n h q (nxt h q) = grow me bk ps n h"
  obtain q where q: "q \<in> S" "nxt h q = freep h" using is_next_pred [OF D(1,3) D(6)] by blast
  have sm: "\<not> n \<le> units h (nxt h p)" if "p \<in> S" for p
    using small D(6) [OF that] is_next_in by blast
  have wrap: "?good p" if "p \<in> S" "nxt h p = freep h" for p
    using sm [OF that(1)] that(2) by (subst alloc_loop.simps) (simp add: grow_def)
  show "?good (freep h)"
  proof (rule ring_walk [of S "nxt h" ?good q])
    show "?good q" using wrap q by blast
    show "\<not> ?good (nxt h p)" if "p \<in> S" "\<not> ?good p" for p
    proof -
      have "nxt h p \<noteq> freep h" using wrap that by blast
      then have "alloc_loop me bk ps n h p (nxt h p) =
          alloc_loop me bk ps n h (nxt h p) (nxt h (nxt h p))"
        using sm [OF that(1)] by (subst alloc_loop.simps) simp
      with that(2) show ?thesis by simp
    qed
  qed (use D q in auto)
qed

definition pagesize_ok :: "u64 \<Rightarrow> bool" where
  "pagesize_ok ps \<longleftrightarrow> (\<exists>k. 4 \<le> k \<and> k \<le> 30 \<and> ps = 2 ^ k)"

lemma round_up_ge:
  assumes "k < 32" "unat a < 2 ^ 31"
  shows "unat a \<le> unat (round_up a (2 ^ k))" "unat (round_up a (2 ^ k)) < unat a + 2 ^ k"
proof -
  have "(2 :: nat) ^ k \<le> 2 ^ 31" using assms(1) by (intro power_increasing) auto
  then have "unat (a + (2 ^ k - 1)) = unat a + (2 ^ k - 1)"
    using assms by (simp add: pow_minus_1 unat_mask64 unat_add_no_wrap)
  moreover have "unat (round_up a (2 ^ k)) = unat (a + (2 ^ k - 1)) - unat (a + (2 ^ k - 1)) mod 2 ^ k"
    unfolding round_up_def pow_minus_1 by (rule unat_and_not_mask)
  moreover have "unat (a + (2 ^ k - 1)) mod 2 ^ k < 2 ^ k" by simp
  ultimately show "unat a \<le> unat (round_up a (2 ^ k))" "unat (round_up a (2 ^ k)) < unat a + 2 ^ k"
    by linarith+
qed

lemma morecore_units:
  assumes "pagesize_ok ps" "n < 2 ^ 30"
  shows "n \<le> unat (ucast (round_up (of_nat n) (ps div of_nat sizeof_Header)) :: u32)"
proof -
  obtain k where k: "4 \<le> k" "k \<le> 30" "ps = 2 ^ k" using assms(1) by (auto simp: pagesize_ok_def)
  have "ps div of_nat sizeof_Header = 2 ^ (k - 4)"
  proof -
    have "unat (ps div 16) = 2 ^ k div 16" using k by (simp add: unat_div)
    also have "\<dots> = 2 ^ (k - 4)" using k(1) by (simp add: power_diff)
    also have "\<dots> = unat ((2 :: u64) ^ (k - 4))" using k by simp
    finally show ?thesis by (simp add: word_unat_eq_iff sizeof_Header_def)
  qed
  moreover have u: "unat (of_nat n :: u64) = n" using assms(2) by (simp add: unat_of_nat take_bit_nat_eq_self)
  moreover have "(2 :: nat) ^ (k - 4) \<le> 2 ^ 26" using k by (intro power_increasing) auto
  moreover have "n \<le> unat (round_up (of_nat n) (2 ^ (k - 4)))"
    "unat (round_up (of_nat n) (2 ^ (k - 4))) < n + 2 ^ (k - 4)"
    using round_up_ge [of "k - 4" "of_nat n"] k(2) assms(2) u by simp_all
  moreover have "unat (round_up (of_nat n) (2 ^ (k - 4))) < 2 ^ 32"
    using calculation assms(2) by simp
  ultimately show ?thesis by (simp add: unsigned_ucast_eq take_bit_nat_eq_self)
qed

lemma morecore_ok:
  assumes inv: "kr_inv lo S A h" and ps: "pagesize_ok ps" and n: "1 \<le> n" "n < 2 ^ 30"
  obtains (no) "sys_morecore me bk ps n h = Ret (0, h)"
    | (yes) S' h' where "sys_morecore me bk ps n h = Ret (freep h', h')" "kr_inv lo S' A h'"
        "big_free S' h' n" "freep h' \<noteq> 0" "\<forall>a\<in>A. units h' a = units h a"
proof -
  note D = kr_invD [OF inv]
  define nu where "nu = unat (ucast (round_up (of_nat n) (ps div of_nat sizeof_Header)) :: u32)"
  have nu: "n \<le> nu" using morecore_units [OF ps n(2)] by (simp add: nu_def)
  show ?thesis
  proof (cases "bss h + nu * sizeof_Header > top h \<or> bk (bss h) (bss h + nu * sizeof_Header - 1) \<noteq> 0")
    case True
    then have "sys_morecore me bk ps n h = Ret (0, h)"
      by (auto simp: sys_morecore_def nu_def [symmetric] Let_def)
    then show ?thesis by (rule no)
  next
    case False
    then have le: "bss h + nu * sizeof_Header \<le> top h" by simp
    let ?h = "set_size (bss h) nu (h\<lparr>bss := bss h + nu * sizeof_Header\<rparr>)"
    let ?B = "S - {base h} \<union> A"
    note dis = blocks_okD [OF D(7)]
    have below: "a < bss h" if "a \<in> ?B" for a using in_block_bounds [OF inv that] by linarith
    then have new: "bss h \<notin> ?B" by blast
    have nb: "bss h \<noteq> base h" using D(9,10,12) by linarith
    have "blocks_ok lo (insert (bss h) ?B) ?h"
    proof (rule blocks_okI, goal_cases)
      case (2 a)
      then show ?case using dis(2) [of a] nu n(1) by auto
    next
      case (3 a)
      then show ?case using dis(3) [of a] by (cases "a = bss h") (auto simp: algebra_simps)
    next
      case (4 a b)
      then show ?case using below [of b] dis(3,4) by (cases "a = bss h"; cases "b = bss h") auto
    qed (use dis(1) D(9) in auto)
    moreover have "S - {base ?h} \<union> insert (bss h) A = insert (bss h) ?B" by auto
    moreover have "is_next S x (nxt ?h x)" if "x \<in> S" for x using D(6) [OF that] by auto
    ultimately have i: "kr_inv lo S (insert (bss h) A) ?h"
      using D(1-5,8-13) le nb new unfolding kr_inv_def by auto
    obtain S' h' where r: "sys_free me (bss h + sizeof_Header) ?h = Ret h'"
      "kr_inv lo S' (insert (bss h) A - {bss h}) h'" "\<exists>x\<in>S'. units ?h (bss h) \<le> units h' x"
      "\<forall>a\<in>insert (bss h) A - {bss h}. units h' a = units ?h a"
      by (rule sys_free_ok [OF i, of "bss h" me]) auto
    have "insert (bss h) A - {bss h} = A" using new by auto
    with r have i': "kr_inv lo S' A h'" by simp
    have "freep h' \<noteq> 0"
      using kr_invD [OF i'] in_block_bounds(1) [OF i', of "freep h'"]
      by (cases "freep h' = base h'") auto
    moreover have "sys_morecore me bk ps n h = Ret (freep h', h')"
      using False r(1) by (simp add: sys_morecore_def nu_def [symmetric] Let_def)
    moreover have "big_free S' h' n" using r(3) nu by (auto intro: order_trans)
    moreover have "\<forall>a\<in>A. units h' a = units h a" using r(4) new by auto
    ultimately show ?thesis using yes i' by blast
  qed
qed

lemma alloc_loop_ok:
  assumes inv: "kr_inv lo S A h" and ps: "pagesize_ok ps" and n: "1 \<le> n" "n < 2 ^ 30"
  obtains (none) S' h' where "alloc_loop me bk ps n h (freep h) (nxt h (freep h)) = Some (Ret (0, h'))"
      "kr_inv lo S' A h'" "\<forall>a\<in>A. units h' a = units h a"
    | (some) a S' h' where "alloc_loop me bk ps n h (freep h) (nxt h (freep h)) =
        Some (Ret (a + sizeof_Header, h'))" "a \<notin> A" "0 < a" "kr_inv lo S' (insert a A) h'"
        "units h' a = n" "\<forall>a\<in>A. units h' a = units h a"
proof -
  have found: thesis
    if g: "kr_inv lo T A g" "big_free T g n" "alloc_loop me bk ps n h (freep h) (nxt h (freep h)) =
      alloc_loop me bk ps n g (freep g) (nxt g (freep g))"
      "\<forall>a\<in>A. units g a = units h a" for T g
  proof -
    obtain r where r: "r \<in> T" "n \<le> units g (nxt g r)"
      "alloc_loop me bk ps n g (freep g) (nxt g (freep g)) = Some (take_block me n g r (nxt g r))"
      using alloc_loop_found [OF g(1,2)] by blast
    obtain a S' h' where "take_block me n g r (nxt g r) = Ret (a + sizeof_Header, h')" "a \<notin> A"
      "0 < a" "kr_inv lo S' (insert a A) h'" "units h' a = n" "\<forall>a\<in>A. units h' a = units g a"
      using take_block_ok [OF g(1) r(1) refl n(1) r(2)] .
    with r g(3,4) some show thesis by simp
  qed
  show thesis
  proof (cases "big_free S h n")
    case True
    with found [OF inv] show thesis by blast
  next
    case False
    note nf = alloc_loop_not_found [OF inv False, of me bk ps]
    show thesis
    proof (cases rule: morecore_ok [OF inv ps n, of me bk, case_names no yes])
      case no
      obtain m where "unlock me h = Ret (h\<lparr>alloc_mutex := m\<rparr>)" "internal m = 0"
        using unlock_ok kr_invD(13) [OF inv] by metis
      with nf no none [of "h\<lparr>alloc_mutex := m\<rparr>" S] kr_inv_mutex [OF inv] show thesis
        by (simp add: grow_def)
    next
      case (yes S' h')
      with nf have "alloc_loop me bk ps n h (freep h) (nxt h (freep h)) =
        alloc_loop me bk ps n h' (freep h') (nxt h' (freep h'))" by (simp add: grow_def)
      with found yes show thesis by blast
    qed
  qed
qed

section \<open>The contract of the kernel heap\<close>

definition kr_ok :: "u64 \<Rightarrow> heap \<Rightarrow> nat set \<Rightarrow> bool" where
  "kr_ok ps h L \<longleftrightarrow> pagesize_ok ps \<and> (\<exists>lo S A. L = (\<lambda>a. a + sizeof_Header) ` A \<and>
     (kr_inv lo S A h \<or> freep h = 0 \<and> A = {} \<and> kr_inv lo {base h} {} (first_ring h)))"

lemma kr_inv_freep_nonzero: "kr_inv lo S A h \<Longrightarrow> freep h \<noteq> 0"
  using kr_invD [of lo S A h] in_block_bounds(1) [of lo S A h "freep h"]
  by (cases "freep h = base h") auto

lemma unit_count_bounds:
  assumes "unat n < heap_limit"
  shows "unit_count n = (unat n + 15) div 16 + 1" "1 \<le> unit_count n" "unit_count n < 2 ^ 30"
proof -
  have n: "unat n < 2 ^ 32" using assms by (simp add: heap_limit_def)
  have e: "n + of_nat sizeof_Header - 1 = n + 15" by (simp add: sizeof_Header_def)
  have "unat (n + 15) = unat n + 15" using n by (simp add: unat_add_no_wrap)
  then have "unat ((n + 15) div 16) = (unat n + 15) div 16" by (simp add: unat_div)
  then have "unat ((n + 15) div 16 + 1) = (unat n + 15) div 16 + 1"
    using n unat_Suc_no_wrap [of "(n + 15) div 16"] by simp
  moreover have "(unat n + 15) div 16 + 1 < 2 ^ 30" using n by simp
  ultimately show "unit_count n = (unat n + 15) div 16 + 1" "1 \<le> unit_count n" "unit_count n < 2 ^ 30"
    unfolding unit_count_def e
    by (simp_all add: sizeof_Header_def unsigned_ucast_eq take_bit_nat_eq_self)
qed

lemma kr_ok_ring:
  assumes "kr_ok ps h L"
  obtains lo S A where "L = (\<lambda>a. a + sizeof_Header) ` A" "kr_inv lo S A (first_ring h)"
    "internal (alloc_mutex h) = 0"
proof -
  obtain lo S A where L: "L = (\<lambda>a. a + sizeof_Header) ` A"
    "kr_inv lo S A h \<or> freep h = 0 \<and> A = {} \<and> kr_inv lo {base h} {} (first_ring h)"
    using assms by (auto simp: kr_ok_def)
  show thesis
  proof (cases "kr_inv lo S A h")
    case True
    with that L(1) kr_inv_freep_nonzero [OF True] kr_invD(13) [OF True] show thesis by simp
  next
    case False
    then have "A = {}" "kr_inv lo {base h} {} (first_ring h)" using L(2) by auto
    with that L(1) kr_invD(13) [OF this(2)] show thesis by (simp add: first_ring_def Let_def split: if_splits)
  qed
qed

lemma first_ring_mutex: "first_ring (h\<lparr>alloc_mutex := m\<rparr>) = (first_ring h)\<lparr>alloc_mutex := m\<rparr>"
  by (simp add: first_ring_def Let_def)

lemma units_first: "kr_inv lo S A (first_ring h) \<Longrightarrow> a \<in> A \<Longrightarrow> units (first_ring h) a = units h a"
  using kr_invD(2,5) [of lo S A "first_ring h"]
  by (auto simp: first_ring_def Let_def split: if_splits)

lemma sys_alloc_cases:
  assumes ok: "kr_ok ps h L" and n: "unat n < heap_limit"
  obtains (none) h' where "sys_alloc me bk ps n h = Ret (0, h')" "kr_ok ps h' L"
    | (some) p h' where "sys_alloc me bk ps n h = Ret (p, h')" "p \<notin> L" "sizeof_Header < p"
        "kr_ok ps h' (insert p L)" "units h' (p - sizeof_Header) = unit_count n"
        "\<forall>q\<in>L. units h' (q - sizeof_Header) = units h (q - sizeof_Header)"
proof -
  obtain lo S A where L: "L = (\<lambda>a. a + sizeof_Header) ` A" "kr_inv lo S A (first_ring h)"
    "internal (alloc_mutex h) = 0" using kr_ok_ring [OF ok] .
  obtain m where m: "lock me h = Ret (h\<lparr>alloc_mutex := m\<rparr>)" "internal m = 0"
    using lock_ok L(3) by metis
  let ?h = "first_ring (h\<lparr>alloc_mutex := m\<rparr>)"
  have i: "kr_inv lo S A ?h" using kr_inv_mutex [OF L(2) m(2)] by (simp add: first_ring_mutex)
  have ps: "pagesize_ok ps" using ok by (simp add: kr_ok_def)
  note uc = unit_count_bounds [OF n]
  show thesis
  proof (cases rule: alloc_loop_ok [OF i ps uc(2,3), of me bk, case_names none some])
    case (none S' h')
    then have "sys_alloc me bk ps n h = Ret (0, h')" using m(1) by (simp add: sys_alloc_def Let_def)
    moreover have "kr_ok ps h' L" using none(2) L(1) ps by (auto simp: kr_ok_def)
    ultimately show thesis using that(1) by blast
  next
    case (some a S' h')
    then have "sys_alloc me bk ps n h = Ret (a + sizeof_Header, h')"
      using m(1) by (simp add: sys_alloc_def Let_def)
    moreover have "insert (a + sizeof_Header) L = (\<lambda>a. a + sizeof_Header) ` insert a A"
      using L(1) by simp
    then have "kr_ok ps h' (insert (a + sizeof_Header) L)"
      using some(4) ps unfolding kr_ok_def by blast
    moreover have "a + sizeof_Header \<notin> L" using some(2) L(1) by auto
    moreover have "\<forall>q\<in>L. units h' (q - sizeof_Header) = units h (q - sizeof_Header)"
      using some(6) units_first L(1,2) by (auto simp: first_ring_mutex)
    ultimately show thesis using that(2) some(3,5) by simp
  qed
qed

lemma sys_free_cases:
  assumes ok: "kr_ok ps h L" and p: "p \<in> L"
  obtains h' where "sys_free me p h = Ret h'" "kr_ok ps h' (L - {p})"
    "\<forall>q\<in>L - {p}. units h' (q - sizeof_Header) = units h (q - sizeof_Header)"
proof -
  obtain lo S A where L: "L = (\<lambda>a. a + sizeof_Header) ` A" "kr_inv lo S A h"
    using ok p by (auto simp: kr_ok_def)
  obtain bp where bp: "bp \<in> A" "p = bp + sizeof_Header" using p L(1) by blast
  obtain S' h' where r: "sys_free me p h = Ret h'" "kr_inv lo S' (A - {bp}) h'"
    "\<forall>a\<in>A - {bp}. units h' a = units h a"
    using sys_free_ok [OF L(2) bp(1)] bp(2) by metis
  have "L - {p} = (\<lambda>a. a + sizeof_Header) ` (A - {bp})" using L(1) bp by auto
  moreover have "pagesize_ok ps" using ok by (simp add: kr_ok_def)
  ultimately have "kr_ok ps h' (L - {p})" using r(2) unfolding kr_ok_def by blast
  moreover have "\<forall>q\<in>L - {p}. units h' (q - sizeof_Header) = units h (q - sizeof_Header)"
    using r(3) L(1) bp(2) by auto
  ultimately show thesis using that r(1) by blast
qed

interpretation kr: kernel_heap "sys_alloc me bk ps" "sys_free me" "kr_ok ps" for me bk ps
proof
  fix h L n assume "kr_ok ps h L" "unat (n :: u64) < heap_limit"
  from sys_alloc_cases [OF this, of me bk, case_names none some]
  show "\<exists>p h'. sys_alloc me bk ps n h = Ret (p, h') \<and>
      (if p = 0 then kr_ok ps h' L else p \<notin> L \<and> kr_ok ps h' (insert p L))"
    by cases auto
next
  fix h L p assume "kr_ok ps h L" "p \<in> L"
  from sys_free_cases [OF this, of me]
  show "\<exists>h'. sys_free me p h = Ret h' \<and> kr_ok ps h' (L - {p})" by blast
next
  fix h L assume "kr_ok ps h L"
  then show "0 \<notin> L" by (auto simp: kr_ok_def sizeof_Header_def)
qed (simp add: sys_free_def)

lemma alloc_init_ok:
  assumes "pagesize_ok ps" "freep h = 0" "0 < bss_p" "bss_p \<le> top_p" "0 < base h"
    "base h < bss_p \<or> top_p < base h"
  shows "kr_ok ps (sys_alloc_init bss_p top_p h) {}"
proof -
  have "kr_inv bss_p {base h} {} (first_ring (sys_alloc_init bss_p top_p h))"
    using assms by (simp add: kr_inv_def blocks_ok_def first_ring_def sys_alloc_init_def
        sys_mutex_init_def Let_def is_next_def)
  then show ?thesis using assms(1,2) unfolding kr_ok_def
    by (intro conjI exI [of _ bss_p] exI [of _ "{base h}"] exI [of _ "{}"])
      (auto simp: sys_alloc_init_def)
qed

lemma live_blocks_disjoint:
  assumes "kr_ok ps h L" "p \<in> L" "q \<in> L" "p < q"
  shows "block_end h (p - sizeof_Header) \<le> q - sizeof_Header"
proof -
  obtain lo S A where L: "L = (\<lambda>a. a + sizeof_Header) ` A" "kr_inv lo S A h"
    using assms(1,2) by (auto simp: kr_ok_def)
  with assms(2-4) show ?thesis using blocks_okD(4) [OF kr_invD(7) [OF L(2)]] by auto
qed

text \<open>The bytes of a live block, its header left out.\<close>

definition user_bytes :: "heap \<Rightarrow> nat \<Rightarrow> nat set" where
  "user_bytes h p = {p ..< block_end h (p - sizeof_Header)}"

lemma user_bytes_disjoint:
  assumes "kr_ok ps h L" "p \<in> L" "q \<in> L" "p \<noteq> q"
  shows "user_bytes h p \<inter> user_bytes h q = {}"
  using assms live_blocks_disjoint [OF assms(1), of p q] live_blocks_disjoint [OF assms(1), of q p]
  by (cases "p < q") (auto simp: user_bytes_def)

section \<open>Properties\<close>

text \<open>C1: \<open>sys$alloc\<close> on a well-formed heap returns for every request below 4 GB, whatever the pager
  answers: \<open>NULL\<close>, with the heap still well formed and the same blocks in use, or a new block of at
  least the bytes asked for, which overlaps no block in use. The blocks in use keep their
  extents.\<close>

theorem sys_alloc_correct:
  assumes "kr_ok ps h L" "unat n < heap_limit"
  shows "\<exists>p h'. sys_alloc me bk ps n h = Ret (p, h') \<and>
    (if p = 0 then kr_ok ps h' L
     else kr_ok ps h' (insert p L) \<and> p \<notin> L \<and> unat n \<le> card (user_bytes h' p) \<and>
          (\<forall>q\<in>L. user_bytes h' q = user_bytes h q \<and> user_bytes h' q \<inter> user_bytes h' p = {}))"
proof (cases rule: sys_alloc_cases [OF assms, of me bk, case_names none some])
  case (some p h')
  have "unat n \<le> card (user_bytes h' p)"
    using some(3,5) unit_count_bounds(1) [OF assms(2)] by (simp add: user_bytes_def sizeof_Header_def)
  moreover have "user_bytes h' q = user_bytes h q \<and> user_bytes h' q \<inter> user_bytes h' p = {}"
    if "q \<in> L" for q
    using some(6) that user_bytes_disjoint [OF some(4), of q p] some(2) by (auto simp: user_bytes_def)
  ultimately show ?thesis using some by auto
qed auto


text \<open>The heap that \<open>sys$alloc_init\<close> sets up is well formed with no block in use, for any arena
  that does not contain the static list header.\<close>

theorem sys_alloc_init_ok:
  assumes "pagesize_ok ps" "freep h = 0" "0 < bss_p" "bss_p \<le> top_p" "0 < base h"
    "base h < bss_p \<or> top_p < base h"
  shows "kr_ok ps (sys_alloc_init bss_p top_p h) {}"
  using assms by (rule alloc_init_ok)

definition sample_heap :: heap where
  "sample_heap = \<lparr>bss = 0, top = 0, base = 0x100, freep = 0, hdr = (\<lambda>_. \<lparr>s_ptr = 0, s_size = 0\<rparr>),
     alloc_mutex = \<lparr>holder = 0, internal = 0, count = 0\<rparr>\<rparr>"

lemma pagesize_4k: "pagesize_ok 0x1000"
  unfolding pagesize_ok_def by (rule exI [of _ 12]) simp

theorem sys_alloc_init_ok_witness: "kr_ok 0x1000 (sys_alloc_init 0x10000 0x20000 sample_heap) {}"
  by (rule sys_alloc_init_ok [OF pagesize_4k]) (simp_all add: sample_heap_def)

lemma sample_ok: "kr_ok 0x1000 (sys_alloc_init 0x10000 0x20000 sample_heap) {}"
  by (rule alloc_init_ok [OF pagesize_4k]) (simp_all add: sample_heap_def)

text \<open>The first block of the sample heap lies at the end of the page that was added.\<close>

abbreviation sample_init :: heap where
  "sample_init \<equiv> sys_alloc_init 0x10000 0x20000 sample_heap"

lemmas sample_eval = sys_alloc_def sys_alloc_init_def sample_heap_def lock_def unlock_def
  sys_mutex_count_lock_def sys_mutex_count_unlock_def sys_mutex_init_def mutex_lock_def
  try_lock_def mutex_unlock_def first_ring_def Let_def unit_count_def sizeof_Header_def
  alloc_loop.simps free_find.simps sys_morecore_def round_up_def sys_free_def
  join_lower_def join_upper_def take_block_def

lemma sample_alloc_ptr:
  "(case sys_alloc 1 (\<lambda>_ _. 0) 0x1000 100 sample_init of Ret r \<Rightarrow> fst r | _ \<Rightarrow> 0) = 0x10F90"
  by (simp add: sample_eval)

lemma sample_node_ptr:
  "(case sys_alloc 1 (\<lambda>_ _. 0) 0x1000 24 sample_init of Ret r \<Rightarrow> fst r | _ \<Rightarrow> 0) = 0x10FE0"
  by (simp add: sample_eval)

lemma small_request: "unat (100 :: u64) < heap_limit"
  by (simp add: heap_limit_def)

theorem sys_alloc_correct_witness:
  "\<exists>h'. sys_alloc 1 (\<lambda>_ _. 0) 0x1000 100 sample_init = Ret (0x10F90, h') \<and>
     kr_ok 0x1000 h' {0x10F90} \<and> 100 \<le> card (user_bytes h' 0x10F90)"
proof -
  from sys_alloc_correct [OF sample_ok small_request, of 1 "\<lambda>_ _. 0"] obtain p h' where
    r: "sys_alloc 1 (\<lambda>_ _. 0) 0x1000 100 sample_init = Ret (p, h')"
    "p = 0 \<or> kr_ok 0x1000 h' {p} \<and> 100 \<le> card (user_bytes h' p)"
    by (auto split: if_splits)
  have "p = 0x10F90" using sample_alloc_ptr r(1) by simp
  with r show ?thesis by auto
qed


end
