(* ===== verification/Linked_Lists.thy ===== *)
theory Linked_Lists
  imports Kernel_Heap
begin

text \<open>
  The circular doubly linked lists of \<open>sys/sys_lists.c\<close> in an explicit store: \<open>nodes\<close> maps the
  address of a \<open>struct ll\<close> to its fields. A \<open>struct double_list\<close> is read through the cast of the
  code as a node whose \<open>next\<close> is the head and whose \<open>prev\<close> is the tail. The heap is a parameter
  (\<open>alloc\<close> and \<open>release\<close> are \<open>sys$alloc\<close> and \<open>sys$free\<close>). The lemmas relate the store to the list of
  node addresses: insertion and deletion of a node are insertion and deletion of list elements.
\<close>

section \<open>The model\<close>

record ll =
  ll_next :: ptr
  ll_prev :: ptr
  ll_data :: ptr

record 'h lmem =
  lheap :: 'h
  nodes :: "ptr \<Rightarrow> ll"

abbreviation next_of :: "('h, 'z) lmem_scheme \<Rightarrow> ptr \<Rightarrow> ptr" where "next_of m p \<equiv> ll_next (nodes m p)"
abbreviation prev_of :: "('h, 'z) lmem_scheme \<Rightarrow> ptr \<Rightarrow> ptr" where "prev_of m p \<equiv> ll_prev (nodes m p)"
abbreviation data_of :: "('h, 'z) lmem_scheme \<Rightarrow> ptr \<Rightarrow> ptr" where "data_of m p \<equiv> ll_data (nodes m p)"

abbreviation set_next :: "ptr \<Rightarrow> ptr \<Rightarrow> ('h, 'z) lmem_scheme \<Rightarrow> ('h, 'z) lmem_scheme" where
  "set_next p q m \<equiv> m\<lparr>nodes := (nodes m)(p := (nodes m p)\<lparr>ll_next := q\<rparr>)\<rparr>"
abbreviation set_prev :: "ptr \<Rightarrow> ptr \<Rightarrow> ('h, 'z) lmem_scheme \<Rightarrow> ('h, 'z) lmem_scheme" where
  "set_prev p q m \<equiv> m\<lparr>nodes := (nodes m)(p := (nodes m p)\<lparr>ll_prev := q\<rparr>)\<rparr>"
abbreviation set_data :: "ptr \<Rightarrow> ptr \<Rightarrow> ('h, 'z) lmem_scheme \<Rightarrow> ('h, 'z) lmem_scheme" where
  "set_data p q m \<equiv> m\<lparr>nodes := (nodes m)(p := (nodes m p)\<lparr>ll_data := q\<rparr>)\<rparr>"

definition sizeof_ll :: u64 where "sizeof_ll = 24"
definition offset_data :: nat where "offset_data = 16"

definition lalloc :: "'h alloc_fn \<Rightarrow> u64 \<Rightarrow> ('h, 'z) lmem_scheme \<Rightarrow> (ptr \<times> ('h, 'z) lmem_scheme) outcome" where
  "lalloc alloc n m = bindo (alloc n (lheap m)) (\<lambda>(p, h). Ret (p, m\<lparr>lheap := h\<rparr>))"

definition lfree :: "'h free_fn \<Rightarrow> ptr \<Rightarrow> ('h, 'z) lmem_scheme \<Rightarrow> ('h, 'z) lmem_scheme outcome" where
  "lfree release p m = bindo (release p (lheap m)) (\<lambda>h. Ret (m\<lparr>lheap := h\<rparr>))"

definition dl_list_create_front ::
    "'h alloc_fn \<Rightarrow> ptr \<Rightarrow> u64 \<Rightarrow> ('h, 'z) lmem_scheme \<Rightarrow> (ptr \<times> ('h, 'z) lmem_scheme) outcome" where
  "dl_list_create_front alloc dl payload m =
     bindo (lalloc alloc (sizeof_ll + payload) m) (\<lambda>(n, m).
       if n \<noteq> 0 then
         let m = set_prev n dl m;
             m = set_prev (next_of m dl) n m;
             m = set_next n (next_of m dl) m;
             m = set_next dl n m
         in Ret (n + offset_data, m)
       else Ret (0, m))"

definition dl_list_create_back ::
    "'h alloc_fn \<Rightarrow> ptr \<Rightarrow> u64 \<Rightarrow> ('h, 'z) lmem_scheme \<Rightarrow> (ptr \<times> ('h, 'z) lmem_scheme) outcome" where
  "dl_list_create_back alloc dl payload m =
     bindo (lalloc alloc (sizeof_ll + payload) m) (\<lambda>(n, m).
       if n \<noteq> 0 then
         let m = set_next n dl m;
             m = set_next (prev_of m dl) n m;
             m = set_prev n (prev_of m dl) m;
             m = set_prev dl n m
         in Ret (n + offset_data, m)
       else Ret (0, m))"

definition dl_list_init :: "ptr \<Rightarrow> ('h, 'z) lmem_scheme \<Rightarrow> ('h, 'z) lmem_scheme" where
  "dl_list_init dl m = set_prev dl dl (set_next dl dl m)"

text \<open>The loop of \<open>dl_list_clear\<close> reads \<open>iter->next\<close> but never assigns \<open>iter\<close>.\<close>

partial_function (option) dl_clear_loop ::
    "'h free_fn \<Rightarrow> ptr \<Rightarrow> ('h, 'z) lmem_scheme \<Rightarrow> ('h, 'z) lmem_scheme outcome option" where
  "dl_clear_loop release iter m =
     (if iter = 0 then Some (Ret m)
      else case bindo (lfree release (data_of m iter) m) (lfree release iter) of
             Ret m' \<Rightarrow> dl_clear_loop release iter m'
           | Panic \<Rightarrow> Some Panic | Fault \<Rightarrow> Some Fault | Timeout \<Rightarrow> None)"

definition dl_list_clear :: "'h free_fn \<Rightarrow> ptr \<Rightarrow> ('h, 'z) lmem_scheme \<Rightarrow> ('h, 'z) lmem_scheme outcome" where
  "dl_list_clear release list m =
     (case dl_clear_loop release (next_of m list) m of
        None \<Rightarrow> Timeout
      | Some r \<Rightarrow> bindo r (\<lambda>m. Ret (set_prev list 0 (set_next list 0 m))))"

definition ll_new :: "'h alloc_fn \<Rightarrow> ('h, 'z) lmem_scheme \<Rightarrow> (ptr \<times> ('h, 'z) lmem_scheme) outcome" where
  "ll_new alloc m =
     bindo (lalloc alloc sizeof_ll m) (\<lambda>(p, m).
       if p \<noteq> 0 then Ret (p, set_data p 0 (set_prev p p (set_next p p m))) else Ret (p, m))"

definition ll_delete :: "'h free_fn \<Rightarrow> ptr \<Rightarrow> ('h, 'z) lmem_scheme \<Rightarrow> (ptr \<times> ('h, 'z) lmem_scheme) outcome" where
  "ll_delete release p m =
     (let nx = next_of m p;
          m1 = set_prev (next_of m p) (prev_of m p) m;
          m2 = set_next (prev_of m1 p) (next_of m1 p) m1
      in bindo (lfree release p m2) (\<lambda>m. Ret (nx, m)))"

definition ll_insert_before ::
    "'h alloc_fn \<Rightarrow> ptr \<Rightarrow> ptr \<Rightarrow> ('h, 'z) lmem_scheme \<Rightarrow> (ptr \<times> ('h, 'z) lmem_scheme) outcome" where
  "ll_insert_before alloc p data m =
     bindo (lalloc alloc sizeof_ll m) (\<lambda>(n, m).
       if n \<noteq> 0 then
         let m = set_next n p m;
             m = set_next (prev_of m p) n m;
             m = set_prev n (prev_of m p) m;
             m = set_prev p n m
         in Ret (n, set_data n data m)
       else Ret (n, m))"

section \<open>Chains of nodes\<close>

text \<open>\<open>chain m p xs q\<close>: from \<open>p\<close> the links lead through the nodes \<open>xs\<close> to \<open>q\<close>, and back.\<close>

fun chain :: "('h, 'z) lmem_scheme \<Rightarrow> ptr \<Rightarrow> ptr list \<Rightarrow> ptr \<Rightarrow> bool" where
  "chain m p [] q \<longleftrightarrow> next_of m p = q \<and> prev_of m q = p"
| "chain m p (x # xs) q \<longleftrightarrow> next_of m p = x \<and> prev_of m x = p \<and> chain m x xs q"

text \<open>A circular list with the header node \<open>r\<close>.\<close>

definition circular :: "('h, 'z) lmem_scheme \<Rightarrow> ptr \<Rightarrow> ptr list \<Rightarrow> bool" where
  "circular m r xs \<longleftrightarrow> distinct (r # xs) \<and> chain m r xs r"

lemma chain_append: "chain m p (xs @ x # ys) q \<longleftrightarrow> chain m p xs x \<and> chain m x ys q"
  by (induction m p xs x rule: chain.induct) auto

lemma chain_cong:
  assumes "\<And>a. a \<in> set (p # xs) \<Longrightarrow> next_of m' a = next_of m a"
    and "\<And>a. a \<in> set (xs @ [q]) \<Longrightarrow> prev_of m' a = prev_of m a"
  shows "chain m' p xs q = chain m p xs q"
  using assms by (induction m p xs q rule: chain.induct) auto

lemma chain_prev: "chain m p xs q \<Longrightarrow> prev_of m q = last (p # xs)"
  by (induction m p xs q rule: chain.induct) auto

lemma chain_next: "chain m p xs q \<Longrightarrow> next_of m p = hd (xs @ [q])"
  by (cases xs) auto

lemma chain_next_last: "chain m p xs q \<Longrightarrow> next_of m (last (p # xs)) = q"
  by (induction m p xs q rule: chain.induct) auto

text \<open>Linking a new node \<open>n\<close> in front of \<open>q\<close>, and unlinking the node \<open>x\<close>.\<close>

definition link_before :: "ptr \<Rightarrow> ptr \<Rightarrow> ('h, 'z) lmem_scheme \<Rightarrow> ('h, 'z) lmem_scheme" where
  "link_before n q m =
     set_prev q n (set_prev n (prev_of m q) (set_next (prev_of m q) n (set_next n q m)))"

lemma link_before_next:
  assumes "prev_of m q \<noteq> n" "q \<noteq> n"
  shows "next_of (link_before n q m) a =
      (if a = n then q else if a = prev_of m q then n else next_of m a)"
    and "prev_of (link_before n q m) a =
      (if a = q then n else if a = n then prev_of m q else prev_of m a)"
    and "data_of (link_before n q m) a = data_of m a"
  using assms by (auto simp: link_before_def)

lemma chain_link:
  assumes "chain m p xs q" "distinct (p # xs)" "q \<notin> set xs" "n \<notin> set (p # xs @ [q])"
  shows "chain (link_before n q m) p (xs @ [n]) q"
proof -
  have l: "prev_of m q = last (p # xs)" using chain_prev [OF assms(1)] .
  then have ne: "prev_of m q \<noteq> n" "q \<noteq> n" using assms(4) last_in_set [of "p # xs"] by (auto split: if_splits)
  note ln = link_before_next [OF ne]
  have "chain (link_before n q m) p xs n"
    using assms ln l
  proof (induction xs arbitrary: p)
    case (Cons x xs)
    have "p \<noteq> last (x # xs)" using Cons.prems(2) last_in_set [of "x # xs"] by auto
    then have "next_of (link_before n q m) p = x" "prev_of (link_before n q m) x = p"
      using Cons.prems by (auto simp: Cons.prems(5,6))
    moreover have "chain (link_before n q m) x xs n"
      by (rule Cons.IH) (use Cons.prems in auto)
    ultimately show ?case by simp
  qed auto
  then show ?thesis using chain_append [of "link_before n q m" p xs n "[]" q] ln by simp
qed

lemma circular_link:
  assumes "circular m r (xs @ ys)" "q = hd (ys @ [r])" "n \<notin> set (r # xs @ ys)"
  shows "circular (link_before n q m) r (xs @ n # ys)"
proof (cases ys)
  case Nil
  then show ?thesis
    using assms chain_link [of m r xs r n] by (auto simp: circular_def)
next
  case (Cons y zs)
  have c: "chain m r xs y" "chain m y zs r" and d: "distinct (r # xs @ y # zs)"
    using assms(1) Cons by (auto simp: circular_def chain_append)
  have q: "q = y" using assms(2) Cons by simp
  have l: "prev_of m y = last (r # xs)" using chain_prev [OF c(1)] .
  then have ne: "prev_of m y \<noteq> n" "y \<noteq> n" "prev_of m y \<in> set (r # xs)"
    using assms(3) Cons last_in_set [of "r # xs"] by (auto split: if_splits)
  have "chain (link_before n y m) r (xs @ [n]) y"
    by (rule chain_link [OF c(1)]) (use d assms(3) Cons in auto)
  moreover have "chain (link_before n y m) y zs r"
  proof -
    have "chain (link_before n y m) y zs r = chain m y zs r"
      by (rule chain_cong) (use d assms(3) Cons ne in \<open>auto simp: link_before_next\<close>)
    with c(2) show ?thesis by simp
  qed
  ultimately have "chain (link_before n y m) r ((xs @ [n]) @ y # zs) r"
    by (simp only: chain_append)
  then show ?thesis using q d assms(3) Cons by (auto simp: circular_def)
qed

definition unlink :: "ptr \<Rightarrow> ('h, 'z) lmem_scheme \<Rightarrow> ('h, 'z) lmem_scheme" where
  "unlink x m = set_next (prev_of m x) (next_of m x) (set_prev (next_of m x) (prev_of m x) m)"

lemma unlink_next:
  "next_of (unlink x m) a = (if a = prev_of m x then next_of m x else next_of m a)"
  "prev_of (unlink x m) a = (if a = next_of m x then prev_of m x else prev_of m a)"
  "data_of (unlink x m) a = data_of m a"
  by (auto simp: unlink_def)

lemma chain_unlink:
  assumes "chain m p xs x" "chain m x ys q" "distinct (p # xs @ x # ys)" "q \<notin> set (xs @ x # ys)"
  shows "chain (unlink x m) p (xs @ ys) q"
proof -
  have l: "prev_of m x = last (p # xs)" "next_of m x = hd (ys @ [q])"
    using chain_prev [OF assms(1)] chain_next [OF assms(2)] .
  have "chain (unlink x m) p xs (hd (ys @ [q]))" if "chain m p xs x" "distinct (p # xs)"
    "prev_of m x = last (p # xs)" "hd (ys @ [q]) \<notin> set xs" for p xs
    using that
  proof (induction xs arbitrary: p)
    case (Cons z xs)
    have "p \<noteq> last (z # xs)" using Cons.prems(2) last_in_set [of "z # xs"] by auto
    then have "next_of (unlink x m) p = z" "prev_of (unlink x m) z = p"
      using Cons.prems l by (auto simp: unlink_next)
    moreover have "chain (unlink x m) z xs (hd (ys @ [q]))"
      by (rule Cons.IH) (use Cons.prems in auto)
    ultimately show ?case by simp
  qed (use l in \<open>auto simp: unlink_next\<close>)
  from this [OF assms(1) _ l(1)] have c: "chain (unlink x m) p xs (hd (ys @ [q]))"
    using assms(3,4) by (cases ys) auto
  show ?thesis
  proof (cases ys)
    case Nil
    with c show ?thesis by simp
  next
    case (Cons y zs)
    have pm: "prev_of m x \<in> set (p # xs)" using l(1) last_in_set [of "p # xs"] by (auto split: if_splits)
    have "chain (unlink x m) y zs q = chain m y zs q"
      by (rule chain_cong) (use Cons assms(3,4) l(2) pm in \<open>auto simp: unlink_next\<close>)
    then show ?thesis using c Cons assms(2) by (simp add: chain_append)
  qed
qed

lemma circular_unlink:
  assumes "circular m r (xs @ x # ys)"
  shows "circular (unlink x m) r (xs @ ys)"
  using assms chain_unlink [of m r xs x ys r] by (auto simp: circular_def chain_append)

lemma chain_heap [simp]: "chain (m\<lparr>lheap := h\<rparr>) p xs q = chain m p xs q"
  by (rule chain_cong) auto

lemma circular_heap [simp]: "circular (m\<lparr>lheap := h\<rparr>) r xs = circular m r xs"
  by (simp add: circular_def)

lemma circular_data [simp]: "circular (set_data n d m) r xs = circular m r xs"
proof -
  have "chain (set_data n d m) r xs r = chain m r xs r" by (rule chain_cong) auto
  then show ?thesis by (simp add: circular_def)
qed

lemma link_before_heap [simp]: "lheap (link_before n q m) = lheap m"
  by (simp add: link_before_def)

lemma unlink_heap [simp]: "lheap (unlink x m) = lheap m"
  by (simp add: unlink_def)

lemma circular_tail: "circular m r xs \<Longrightarrow> prev_of m r = last (r # xs)"
  using chain_prev [of m r xs r] by (simp add: circular_def)

lemma circular_head: "circular m r xs \<Longrightarrow> next_of m r = hd (xs @ [r])"
  using chain_next [of m r xs r] by (simp add: circular_def)

lemma ll_update_commute: "x\<lparr>ll_prev := a, ll_next := b\<rparr> = x\<lparr>ll_next := b, ll_prev := a\<rparr>"
  by simp

text \<open>The operations, in terms of \<open>link_before\<close> and \<open>unlink\<close>.\<close>

lemma ll_insert_before_eq:
  assumes "alloc sizeof_ll (lheap m) = Ret (n, h)" "n \<noteq> 0" "n \<noteq> p"
  shows "ll_insert_before alloc p d m = Ret (n, set_data n d (link_before n p (m\<lparr>lheap := h\<rparr>)))"
  using assms by (simp add: ll_insert_before_def lalloc_def link_before_def Let_def)

lemma ll_insert_before_fail:
  assumes "alloc sizeof_ll (lheap m) = Ret (0, h)"
  shows "ll_insert_before alloc p d m = Ret (0, m\<lparr>lheap := h\<rparr>)"
  using assms by (simp add: ll_insert_before_def lalloc_def)

lemma ll_delete_eq:
  assumes "release p (lheap m) = Ret h"
    "next_of m p \<noteq> p"
  shows "ll_delete release p m = Ret (next_of m p, (unlink p m)\<lparr>lheap := h\<rparr>)"
  using assms by (simp add: ll_delete_def lfree_def unlink_def Let_def)

lemma dl_create_front_eq:
  assumes "alloc (sizeof_ll + k) (lheap m) = Ret (n, h)" "n \<noteq> 0" "n \<noteq> dl" "circular m dl xs" "n \<notin> set xs"
  shows "\<exists>m'. dl_list_create_front alloc dl k m = Ret (n + offset_data, m') \<and> circular m' dl (n # xs)
    \<and> lheap m' = h"
proof -
  let ?m = "m\<lparr>lheap := h\<rparr>"
  let ?q = "next_of m dl"
  have q: "?q = hd (xs @ [dl])" using circular_head [OF assms(4)] .
  then have qn: "?q \<noteq> n" using assms(3,5) by (cases xs) auto
  have "circular ?m dl ([] @ xs)" using assms(4) by simp
  then have "chain ?m dl [] ?q" using q by (cases xs) (auto simp: circular_def)
  then have pq: "prev_of m ?q = dl" by simp
  have "dl_list_create_front alloc dl k m = Ret (n + offset_data, link_before n ?q ?m)"
    using assms(1-3) qn pq
    by (auto simp: dl_list_create_front_def lalloc_def Let_def link_before_def fun_upd_twist
        ll_update_commute)
  moreover have "circular (link_before n ?q ?m) dl ([] @ n # xs)"
    by (rule circular_link) (use assms q in auto)
  ultimately show ?thesis by simp
qed

lemma dl_create_back_eq:
  assumes "alloc (sizeof_ll + k) (lheap m) = Ret (n, h)" "n \<noteq> 0" "n \<noteq> dl" "circular m dl xs" "n \<notin> set xs"
  shows "\<exists>m'. dl_list_create_back alloc dl k m = Ret (n + offset_data, m') \<and> circular m' dl (xs @ [n])
    \<and> lheap m' = h"
proof -
  let ?m = "m\<lparr>lheap := h\<rparr>"
  have "dl_list_create_back alloc dl k m = Ret (n + offset_data, link_before n dl ?m)"
    using assms(1-3)
    by (auto simp: dl_list_create_back_def lalloc_def Let_def link_before_def)
  moreover have "circular (link_before n dl ?m) dl (xs @ n # [])"
    by (rule circular_link) (use assms in auto)
  ultimately show ?thesis by simp
qed

lemma dl_clear_never:
  assumes "dl_clear_loop release iter m = Some r"
  shows "iter \<noteq> 0 \<longrightarrow> r \<noteq> Ret m'"
proof (rule dl_clear_loop.raw_induct [OF _ assms, where P = "\<lambda>_ iter _ r. iter \<noteq> 0 \<longrightarrow> r \<noteq> Ret m'"])
  fix f :: "'a free_fn \<Rightarrow> ptr \<Rightarrow> ('a, 'b) lmem_scheme \<Rightarrow> ('a, 'b) lmem_scheme outcome option"
  fix release iter and m :: "('a, 'b) lmem_scheme" and y
  assume IH: "\<And>release iter (m :: ('a, 'b) lmem_scheme) y. f release iter m = Some y \<Longrightarrow>
      iter \<noteq> 0 \<longrightarrow> y \<noteq> Ret m'"
    and eq: "(if iter = 0 then Some (Ret m)
      else case bindo (lfree release (data_of m iter) m) (lfree release iter) of
             Ret m' \<Rightarrow> f release iter m'
           | Panic \<Rightarrow> Some Panic | Fault \<Rightarrow> Some Fault | Timeout \<Rightarrow> None) = Some y"
  show "iter \<noteq> 0 \<longrightarrow> y \<noteq> Ret m'"
    using IH [of release iter _ y] eq by (auto split: outcome.splits)
qed

section \<open>Operations on a list in the kernel heap\<close>

text \<open>\<open>list_ok heap_ok m r xs L\<close>: a well-formed heap with a circular list whose nodes, the header included, are live blocks.\<close>

definition list_ok :: "('h \<Rightarrow> ptr set \<Rightarrow> bool) \<Rightarrow> ('h, 'z) lmem_scheme \<Rightarrow> ptr \<Rightarrow> ptr list \<Rightarrow> ptr set \<Rightarrow> bool" where
  "list_ok heap_ok m r xs L \<longleftrightarrow> heap_ok (lheap m) L \<and> circular m r xs \<and> set (r # xs) \<subseteq> L"

context kernel_heap
begin

lemma node_request: "unat sizeof_ll < heap_limit"
  by (simp add: sizeof_ll_def heap_limit_def)

lemma ll_new_cases:
  assumes "heap_ok (lheap m) L"
  obtains (fail) h where "ll_new alloc m = Ret (0, m\<lparr>lheap := h\<rparr>)" "heap_ok h L"
    | (ok) r m' where "ll_new alloc m = Ret (r, m')" "r \<noteq> 0" "r \<notin> L" "list_ok heap_ok m' r [] (insert r L)"
        "data_of m' r = 0" "\<forall>a. a \<noteq> r \<longrightarrow> nodes m' a = nodes m a" "lmem.more m' = lmem.more m"
proof (cases rule: alloc_cases [OF assms node_request, case_names null fresh])
  case (null h')
  then have "ll_new alloc m = Ret (0, m\<lparr>lheap := h'\<rparr>)" by (simp add: ll_new_def lalloc_def)
  with null(2) fail show thesis by blast
next
  case (fresh p h')
  let ?m = "set_data p 0 (set_prev p p (set_next p p (m\<lparr>lheap := h'\<rparr>)))"
  have "ll_new alloc m = Ret (p, ?m)" using fresh by (simp add: ll_new_def lalloc_def)
  moreover have "list_ok heap_ok ?m p [] (insert p L)"
    using fresh by (simp add: list_ok_def circular_def)
  ultimately show thesis using ok fresh by simp
qed

lemma ll_insert_before_cases:
  assumes "list_ok heap_ok m r (xs @ ys) L" "q = hd (ys @ [r])"
  obtains (fail) h where "ll_insert_before alloc q d m = Ret (0, m\<lparr>lheap := h\<rparr>)" "heap_ok h L"
    | (ok) n m' where "ll_insert_before alloc q d m = Ret (n, m')" "n \<noteq> 0" "n \<notin> L"
        "list_ok heap_ok m' r (xs @ n # ys) (insert n L)" "data_of m' n = d"
        "\<forall>a. a \<noteq> n \<longrightarrow> data_of m' a = data_of m a" "lmem.more m' = lmem.more m"
proof -
  have ok: "heap_ok (lheap m) L" and c: "circular m r (xs @ ys)" and s: "set (r # xs @ ys) \<subseteq> L"
    using assms(1) by (auto simp: list_ok_def)
  show thesis
  proof (cases rule: alloc_cases [OF ok node_request, case_names null fresh])
    case (null h')
    then show thesis using that(1) [of h'] ll_insert_before_fail [of alloc m h'] by simp
  next
    case (fresh n h')
    let ?m = "m\<lparr>lheap := h'\<rparr>"
    let ?m' = "set_data n d (link_before n q ?m)"
    have qL: "q \<in> set (r # xs @ ys)" using assms(2) by (cases ys) auto
    then have nq: "n \<noteq> q" using s fresh(3) by blast
    have eq: "ll_insert_before alloc q d m = Ret (n, ?m')"
      by (rule ll_insert_before_eq [of alloc m n h' q d, OF fresh(1,2) nq])
    have nn: "n \<notin> set (r # xs @ ys)" using s fresh(3) by blast
    have cc: "circular ?m r (xs @ ys)" using c by simp
    have "circular (link_before n q ?m) r (xs @ n # ys)"
      by (rule circular_link [OF cc assms(2) nn])
    then have "list_ok heap_ok ?m' r (xs @ n # ys) (insert n L)"
      using fresh(4) s by (auto simp: list_ok_def)
    moreover have "data_of ?m' a = data_of m a" if "a \<noteq> n" for a
      using that by (auto simp: link_before_def)
    moreover have "data_of ?m' n = d" by simp
    moreover have "lmem.more ?m' = lmem.more m" by (simp add: link_before_def)
    ultimately show thesis using that(2) eq fresh(2,3) by blast
  qed
qed

lemma ll_delete_cases:
  assumes "list_ok heap_ok m r (xs @ x # ys) L"
  obtains m' where "ll_delete release x m = Ret (hd (ys @ [r]), m')" "list_ok heap_ok m' r (xs @ ys) (L - {x})"
    "\<forall>a. data_of m' a = data_of m a" "lmem.more m' = lmem.more m"
proof -
  have ok: "heap_ok (lheap m) L" and c: "circular m r (xs @ x # ys)" and s: "set (r # xs @ x # ys) \<subseteq> L"
    using assms(1) by (auto simp: list_ok_def)
  obtain h where h: "release x (lheap m) = Ret h" "heap_ok h (L - {x})"
    using release_law [OF ok, of x] s by auto
  have "chain m x ys r" and d: "distinct (r # xs @ x # ys)"
    using c by (auto simp: circular_def chain_append)
  then have nx: "next_of m x = hd (ys @ [r])" using chain_next by blast
  then have "next_of m x \<noteq> x" using d by (cases ys) auto
  then have eq: "ll_delete release x m = Ret (hd (ys @ [r]), (unlink x m)\<lparr>lheap := h\<rparr>)"
    using ll_delete_eq [of release x m h] h(1) nx by simp
  have "list_ok heap_ok ((unlink x m)\<lparr>lheap := h\<rparr>) r (xs @ ys) (L - {x})"
    using circular_unlink [OF c] h(2) s d by (auto simp: list_ok_def)
  with that eq show thesis by (simp add: unlink_next) (simp add: unlink_def)
qed

end

section \<open>Properties\<close>

text \<open>C32: \<open>dl_list_clear\<close> never comes back from clearing a list that \<open>dl_list_init\<close> or the creating
  operations have set up, not even the empty one: it frees the first node for ever (or the free
  itself fails), whatever the heap does.\<close>

theorem dl_list_clear_never_returns:
  assumes "circular m dl xs" "0 \<notin> set (dl # xs)"
  shows "dl_list_clear release dl m \<noteq> Ret m'"
proof -
  have "next_of m dl \<noteq> 0" using circular_head [OF assms(1)] assms(2) by (cases xs) auto
  then show ?thesis
    using dl_clear_never [of release "next_of m dl" m]
    by (auto simp: dl_list_clear_def split: option.splits)
qed

theorem dl_list_clear_never_returns_witness:
  "\<forall>m'. dl_list_clear (\<lambda>p (h :: unit). Ret h) 8
     (dl_list_init 8 \<lparr>lheap = (), nodes = (\<lambda>_. \<lparr>ll_next = 0, ll_prev = 0, ll_data = 0\<rparr>)\<rparr>) \<noteq> Ret m'"
proof -
  let ?m = "dl_list_init 8 \<lparr>lheap = (), nodes = (\<lambda>_. \<lparr>ll_next = 0, ll_prev = 0, ll_data = 0\<rparr>)\<rparr>"
  have "circular ?m 8 []" by (simp add: circular_def dl_list_init_def)
  from dl_list_clear_never_returns [OF this] show ?thesis by simp
qed

end
