(* ===== verification/Range_Freelist.thy ===== *)
theory Range_Freelist
  imports Linked_Lists
begin

text \<open>
  The range free list of \<open>sys/sys_rfl.c\<close>, from which thread numbers are taken: a circular list whose
  nodes point to \<open>struct range\<close> objects, in ascending order and without adjacent ranges. Nodes and
  ranges live in an explicit store over the kernel heap. The lemmas show that the list is a pool of
  identifiers: taking one removes the least number, giving one back adds it or leaves the pool as it
  was when memory runs out.
\<close>

section \<open>The model\<close>

record range =
  rg_from :: u64
  rg_to :: u64

record 'h rmem = "'h lmem" +
  ranges :: "ptr \<Rightarrow> range"

definition sizeof_range :: u64 where "sizeof_range = 16"

definition RFL_SUCCESS :: int where "RFL_SUCCESS = 0"
definition E_RFL_INV_RANGE :: int where "E_RFL_INV_RANGE = -1"
definition E_RFL_OVERLAP :: int where "E_RFL_OVERLAP = -2"
definition E_RFL_NOMEM :: int where "E_RFL_NOMEM = -3"

abbreviation set_from :: "ptr \<Rightarrow> u64 \<Rightarrow> 'h rmem \<Rightarrow> 'h rmem" where
  "set_from p v m \<equiv> m\<lparr>ranges := (ranges m)(p := (ranges m p)\<lparr>rg_from := v\<rparr>)\<rparr>"
abbreviation set_to :: "ptr \<Rightarrow> u64 \<Rightarrow> 'h rmem \<Rightarrow> 'h rmem" where
  "set_to p v m \<equiv> m\<lparr>ranges := (ranges m)(p := (ranges m p)\<lparr>rg_to := v\<rparr>)\<rparr>"

definition sys_rfl_new :: "'h alloc_fn \<Rightarrow> 'h rmem \<Rightarrow> (ptr \<times> 'h rmem) outcome" where
  "sys_rfl_new alloc m = ll_new alloc m"

text \<open>How the loop of \<open>sys$rfl_insert_range\<close> ends: with an overlap, with the range to extend
  downwards, with the node to extend upwards, or with the node to insert before.\<close>

datatype scan = Overlap | Prepend ptr | Append ptr | Before ptr

partial_function (option) rfl_scan :: "'h rmem \<Rightarrow> ptr \<Rightarrow> u64 \<Rightarrow> u64 \<Rightarrow> ptr \<Rightarrow> scan option" where
  "rfl_scan m rfl from to temp =
     (if temp = rfl then Some (Before temp)
      else let r = ranges m (data_of m temp)
           in if from \<ge> rg_from r \<and> from \<le> rg_to r \<or> to \<ge> rg_from r \<and> to \<le> rg_to r then Some Overlap
              else if rg_from r = to + 1 then Some (Prepend (data_of m temp))
              else if rg_to r = from - 1 then Some (Append temp)
              else if rg_from r > to then Some (Before temp)
              else rfl_scan m rfl from to (next_of m temp))"

definition rfl_append :: "'h free_fn \<Rightarrow> u64 \<Rightarrow> ptr \<Rightarrow> 'h rmem \<Rightarrow> (int \<times> 'h rmem) outcome" where
  "rfl_append release to temp m =
     (let rp = data_of m temp;
          next_range = data_of m (next_of m temp);
          m1 = set_to rp to m
      in if next_range \<noteq> 0 \<and> rg_to (ranges m1 rp) + 1 = rg_from (ranges m1 next_range) then
           let m2 = set_to rp (rg_to (ranges m1 next_range)) m1
           in bindo (lfree release next_range m2) (\<lambda>m3.
                bindo (ll_delete release (next_of m3 temp) m3) (\<lambda>(_, m4). Ret (RFL_SUCCESS, m4)))
         else Ret (RFL_SUCCESS, m1))"

definition rfl_add_range ::
    "'h alloc_fn \<Rightarrow> u64 \<Rightarrow> u64 \<Rightarrow> ptr \<Rightarrow> 'h rmem \<Rightarrow> (int \<times> 'h rmem) outcome" where
  "rfl_add_range alloc from to temp m =
     bindo (lalloc alloc sizeof_range m) (\<lambda>(new_range, m1).
       if new_range = 0 then Ret (E_RFL_NOMEM, m1)
       else bindo (ll_insert_before alloc temp new_range m1) (\<lambda>(_, m2).
         Ret (RFL_SUCCESS, set_to new_range to (set_from new_range from m2))))"

definition sys_rfl_insert_range ::
    "'h alloc_fn \<Rightarrow> 'h free_fn \<Rightarrow> ptr \<Rightarrow> u64 \<Rightarrow> u64 \<Rightarrow> 'h rmem \<Rightarrow> (int \<times> 'h rmem) outcome" where
  "sys_rfl_insert_range alloc release rfl from to m =
     (if from > to then Ret (E_RFL_INV_RANGE, m)
      else case rfl_scan m rfl from to (next_of m rfl) of
             None \<Rightarrow> Timeout
           | Some Overlap \<Rightarrow> Ret (E_RFL_OVERLAP, m)
           | Some (Prepend rp) \<Rightarrow> Ret (RFL_SUCCESS, set_from rp from m)
           | Some (Append temp) \<Rightarrow> rfl_append release to temp m
           | Some (Before temp) \<Rightarrow> rfl_add_range alloc from to temp m)"

definition sys_rfl_free ::
    "'h alloc_fn \<Rightarrow> 'h free_fn \<Rightarrow> ptr \<Rightarrow> u64 \<Rightarrow> 'h rmem \<Rightarrow> (int \<times> 'h rmem) outcome" where
  "sys_rfl_free alloc release rfl val m = sys_rfl_insert_range alloc release rfl val val m"

definition sys_rfl_alloc :: "'h free_fn \<Rightarrow> ptr \<Rightarrow> 'h rmem \<Rightarrow> (u64 \<times> 'h rmem) outcome" where
  "sys_rfl_alloc release rfl m =
     (if next_of m rfl = rfl then Ret (-1, m)
      else let rp = data_of m (next_of m rfl);
               retval = rg_from (ranges m rp)
           in if rg_from (ranges m rp) = rg_to (ranges m rp) then
                bindo (lfree release rp m) (\<lambda>m1.
                  bindo (ll_delete release (next_of m1 rfl) m1) (\<lambda>(_, m2). Ret (retval, m2)))
              else Ret (retval, set_from rp (rg_from (ranges m rp) + 1) m))"

section \<open>Sorted lists of ranges\<close>

type_synonym ranges = "(u64 \<times> u64) list"

definition range_ids :: "ranges \<Rightarrow> u64 set" where
  "range_ids rs = {i. \<exists>(f, t) \<in> set rs. f \<le> i \<and> i \<le> t}"

text \<open>Ascending, not empty, not adjacent, and below the number -1.\<close>

fun ranges_ok :: "nat \<Rightarrow> ranges \<Rightarrow> bool" where
  "ranges_ok k [] \<longleftrightarrow> True"
| "ranges_ok k ((f, t) # rs) \<longleftrightarrow> k \<le> unat f \<and> f \<le> t \<and> t < no_id \<and> ranges_ok (unat t + 2) rs"

text \<open>What inserting the range from \<open>a\<close> to \<open>b\<close> means.\<close>

fun add_range :: "u64 \<Rightarrow> u64 \<Rightarrow> ranges \<Rightarrow> ranges" where
  "add_range a b [] = [(a, b)]"
| "add_range a b ((f, t) # rs) =
     (if f = b + 1 then (a, t) # rs
      else if t = a - 1 then
        (case rs of
           [] \<Rightarrow> [(f, b)]
         | (f', t') # rs' \<Rightarrow> if b + 1 = f' then (f, t') # rs' else (f, b) # rs)
      else if f > b then (a, b) # (f, t) # rs
      else (f, t) # add_range a b rs)"

lemma range_ids_simps [simp]:
  "range_ids [] = {}"
  "range_ids ((f, t) # rs) = {f..t} \<union> range_ids rs"
  by (auto simp: range_ids_def)

lemma ranges_ok_mono: "ranges_ok k rs \<Longrightarrow> j \<le> k \<Longrightarrow> ranges_ok j rs"
  by (cases rs) auto

lemma ranges_ok_remove: "ranges_ok k (xs @ y # ys) \<Longrightarrow> ranges_ok k (xs @ ys)"
proof (induction xs arbitrary: k)
  case Nil
  obtain f t where "y = (f, t)" by force
  with Nil show ?case using ranges_ok_mono [of "unat t + 2" ys k] by (auto simp: word_le_nat_alt)
qed auto

lemma ranges_ok_ids: "ranges_ok k rs \<Longrightarrow> i \<in> range_ids rs \<Longrightarrow> k \<le> unat i \<and> i < no_id"
proof (induction k rs rule: ranges_ok.induct)
  case (2 k f t rs)
  then show ?case
    by (auto simp: word_le_nat_alt word_less_nat_alt)
qed simp

lemma below_no_id: "a < no_id \<Longrightarrow> unat (a + 1) = unat a + 1"
  using unat_plus_1_less by blast

lemma ids_split:
  assumes "f \<le> t" "a \<le> b" "b < no_id" "t < no_id"
  shows "f = b + 1 \<Longrightarrow> {a..t} = {a..b} \<union> {f..t}" "t = a - 1 \<Longrightarrow> a \<noteq> 0 \<Longrightarrow> {f..b} = {f..t} \<union> {a..b}"
proof -
  show "{a..t} = {a..b} \<union> {f..t}" if "f = b + 1"
    using that assms below_no_id [OF assms(3)] by (auto simp: word_le_nat_alt)
  show "{f..b} = {f..t} \<union> {a..b}" if "t = a - 1" "a \<noteq> 0"
  proof -
    have "a = t + 1" using that(1) by simp
    then have "unat a = unat t + 1" using below_no_id [OF assms(4)] by simp
    then show ?thesis using assms(1,2) by (auto simp: word_le_nat_alt)
  qed
qed

lemma add_range_ok:
  assumes "ranges_ok k rs" "a \<le> b" "b < no_id" "range_ids rs \<inter> {a..b} = {}" "k \<le> unat a"
  shows "ranges_ok k (add_range a b rs) \<and> range_ids (add_range a b rs) = range_ids rs \<union> {a..b}"
  using assms
proof (induction a b rs arbitrary: k rule: add_range.induct)
  case (2 a b f t rs)
  have p: "k \<le> unat f" "f \<le> t" "t < no_id" "ranges_ok (unat t + 2) rs" "a \<le> b" "b < no_id"
    "range_ids rs \<inter> {a..b} = {}" "k \<le> unat a"
    using "2.prems" by auto
  have disj: "\<not> (f \<le> i \<and> i \<le> t)" if "a \<le> i" "i \<le> b" for i
    using "2.prems"(4) that by auto
  have apart: "unat t < unat a \<or> unat b < unat f"
    using disj [of a] disj [of f] p(2,5) by (auto simp: word_le_nat_alt)
  note sp = ids_split [OF p(2,5,6,3)]
  show ?case
  proof (cases "f = b + 1")
    case True
    then have "unat f = unat b + 1" using below_no_id [OF p(6)] by simp
    then have "ranges_ok k ((a, t) # rs)" using p by (simp add: word_le_nat_alt)
    then show ?thesis using True sp(1) by auto
  next
    case nf: False
    show ?thesis
    proof (cases "t = a - 1")
      case True
      then have "a = t + 1" by simp
      then have ua: "unat a = unat t + 1" using below_no_id [OF p(3)] by simp
      then have a0: "a \<noteq> 0" by auto
      have fb: "f \<le> b" using p(2,5) ua by (simp add: word_le_nat_alt)
      show ?thesis
      proof (cases rs)
        case Nil
        then show ?thesis using nf True sp(2) a0 p fb by auto
      next
        case (Cons r rs')
        obtain f' t' where r: "r = (f', t')" by force
        have q: "unat t + 2 \<le> unat f'" "f' \<le> t'" "t' < no_id" "ranges_ok (unat t' + 2) rs'"
          using p(4) Cons r by auto
        have "\<not> (a \<le> f' \<and> f' \<le> b)" using p(7) Cons r q by auto
        then have bf: "unat b < unat f'" using q(1) ua by (auto simp: word_le_nat_alt)
        show ?thesis
        proof (cases "b + 1 = f'")
          case True
          have "{f'..t'} \<union> {a..b} = {a..t'}"
            using ids_split(1) [OF q(2) p(5,6) q(3)] True by auto
          moreover have "{f..t} \<union> {a..t'} = {f..t'}"
            using ids_split(2) [of f t a t'] p q True ua a0 bf \<open>t = a - 1\<close>
            by (auto simp: word_le_nat_alt)
          moreover have "f \<le> t'" using fb bf q(2) by (simp add: word_le_nat_alt)
          ultimately show ?thesis using nf \<open>t = a - 1\<close> Cons r True q p by auto
        next
          case False
          have "unat f' \<noteq> unat b + 1" using False below_no_id [OF p(6)] by (metis word_unat_eq_iff)
          then have "ranges_ok (unat b + 2) rs" using Cons r q bf by simp
          then show ?thesis using nf \<open>t = a - 1\<close> Cons r False sp(2) a0 p fb by auto
        qed
      qed
    next
      case nt: False
      have t1: "unat t + 1 \<noteq> unat a"
        using nt below_no_id [OF p(3)] by (metis add_diff_cancel_right' word_unat_eq_iff)
      have f1: "unat f \<noteq> unat b + 1" using nf below_no_id [OF p(6)] by (metis word_unat_eq_iff)
      show ?thesis
      proof (cases "f > b")
        case True
        then have "unat b + 2 \<le> unat f" using f1 by (simp add: word_less_nat_alt)
        then show ?thesis using True nf nt p by auto
      next
        case False
        then have "unat t + 2 \<le> unat a" using apart t1 by (auto simp: word_less_nat_alt)
        with "2.IH" [OF nf nt False p(4-7)] show ?thesis using False nf nt p by auto
      qed
    qed
  qed
qed auto

section \<open>The list in memory\<close>

definition val_of :: "'h rmem \<Rightarrow> ptr \<Rightarrow> u64 \<times> u64" where
  "val_of m x = (rg_from (ranges m (data_of m x)), rg_to (ranges m (data_of m x)))"

definition rfl_ok :: "('h \<Rightarrow> ptr set \<Rightarrow> bool) \<Rightarrow> 'h rmem \<Rightarrow> ptr \<Rightarrow> ptr list \<Rightarrow> ptr set \<Rightarrow> bool" where
  "rfl_ok heap_ok m r xs L \<longleftrightarrow>
     list_ok heap_ok m r xs L \<and> distinct (map (data_of m) xs) \<and>
     data_of m ` set xs \<subseteq> L - set (r # xs) \<and> data_of m r = 0 \<and> ranges_ok 0 (map (val_of m) xs)"

fun list_scan :: "'h rmem \<Rightarrow> ptr \<Rightarrow> u64 \<Rightarrow> u64 \<Rightarrow> ptr list \<Rightarrow> scan" where
  "list_scan m rfl from to [] = Before rfl"
| "list_scan m rfl from to (x # xs) =
     (case val_of m x of (f, t) \<Rightarrow>
        if from \<ge> f \<and> from \<le> t \<or> to \<ge> f \<and> to \<le> t then Overlap
        else if f = to + 1 then Prepend (data_of m x)
        else if t = from - 1 then Append x
        else if f > to then Before x
        else list_scan m rfl from to xs)"

lemma rfl_scan_eq:
  "chain m p xs rfl \<Longrightarrow> rfl \<notin> set xs \<Longrightarrow> rfl_scan m rfl a b (hd (xs @ [rfl])) = Some (list_scan m rfl a b xs)"
proof (induction xs arbitrary: p)
  case (Cons x xs)
  have nx: "next_of m x = hd (xs @ [rfl])" using Cons.prems(1) chain_next by auto
  have "rfl_scan m rfl a b (hd (xs @ [rfl])) = Some (list_scan m rfl a b xs)"
    using Cons.prems by (intro Cons.IH [of x]) auto
  then show ?case using Cons.prems(2) nx
    by (subst append_Cons, subst list.sel, subst rfl_scan.simps) (auto simp: val_of_def Let_def)
qed (simp add: rfl_scan.simps)

lemma list_scan_cases:
  assumes "range_ids (map (val_of m) ys) \<inter> {a..b} = {}" "a \<le> b"
  obtains
    (prepend) xs y zs where "list_scan m r a b ys = Prepend (data_of m y)" "ys = xs @ y # zs"
      "add_range a b (map (val_of m) ys) = map (val_of m) xs @ (a, snd (val_of m y)) # map (val_of m) zs"
  | (append) xs y zs where "list_scan m r a b ys = Append y" "ys = xs @ y # zs"
      "add_range a b (map (val_of m) ys) = map (val_of m) xs @
        (case zs of [] \<Rightarrow> [(fst (val_of m y), b)]
         | z # zs' \<Rightarrow> if b + 1 = fst (val_of m z)
             then (fst (val_of m y), snd (val_of m z)) # map (val_of m) zs'
             else (fst (val_of m y), b) # map (val_of m) zs)"
  | (before) xs zs where "list_scan m r a b ys = Before (hd (zs @ [r]))" "ys = xs @ zs"
      "add_range a b (map (val_of m) ys) = map (val_of m) xs @ (a, b) # map (val_of m) zs"
  using assms
proof (induction ys arbitrary: thesis)
  case Nil
  then show ?case by auto
next
  case (Cons x ys)
  obtain f t where v: "val_of m x = (f, t)" by force
  have no: "\<not> (a \<ge> f \<and> a \<le> t \<or> b \<ge> f \<and> b \<le> t)" using Cons.prems(4,5) v by auto
  consider "f = b + 1" | "f \<noteq> b + 1" "t = a - 1" | "f \<noteq> b + 1" "t \<noteq> a - 1" "f > b"
    | "f \<noteq> b + 1" "t \<noteq> a - 1" "\<not> f > b" by blast
  then show ?case
  proof cases
    case 1
    then show ?thesis using no v by (intro Cons.prems(1) [of x "[]" ys]) auto
  next
    case 2
    then show ?thesis using no v
      by (intro Cons.prems(2) [of x "[]" ys]) (auto simp: val_of_def split: list.splits)
  next
    case 3
    then show ?thesis using no v by (intro Cons.prems(3) [of "x # ys" "[]"]) auto
  next
    case 4
    have s: "list_scan m r a b (x # ys) = list_scan m r a b ys"
      "add_range a b (map (val_of m) (x # ys)) = val_of m x # add_range a b (map (val_of m) ys)"
      using 4 no v by auto
    show ?thesis
    proof (rule Cons.IH)
      fix xs y zs
      assume "list_scan m r a b ys = Prepend (data_of m y)" "ys = xs @ y # zs"
        "add_range a b (map (val_of m) ys) = map (val_of m) xs @ (a, snd (val_of m y)) # map (val_of m) zs"
      then show thesis using s by (intro Cons.prems(1) [of y "x # xs" zs]) auto
    next
      fix xs y zs
      assume "list_scan m r a b ys = Append y" "ys = xs @ y # zs"
        "add_range a b (map (val_of m) ys) = map (val_of m) xs @
          (case zs of [] \<Rightarrow> [(fst (val_of m y), b)]
           | z # zs' \<Rightarrow> if b + 1 = fst (val_of m z)
               then (fst (val_of m y), snd (val_of m z)) # map (val_of m) zs'
               else (fst (val_of m y), b) # map (val_of m) zs)"
      then show thesis using s by (intro Cons.prems(2) [of y "x # xs" zs]) (simp_all del: add_range.simps)
    next
      fix xs zs
      assume "list_scan m r a b ys = Before (hd (zs @ [r]))" "ys = xs @ zs"
        "add_range a b (map (val_of m) ys) = map (val_of m) xs @ (a, b) # map (val_of m) zs"
      then show thesis using s by (intro Cons.prems(3) [of zs "x # xs"]) auto
    next
      show "range_ids (map (val_of m) ys) \<inter> {a..b} = {}" using Cons.prems(4) v by auto
      show "a \<le> b" by (rule Cons.prems(5))
    qed
  qed
qed

lemma circular_ranges [simp]: "circular (ranges_update f m) r xs = circular m r xs"
proof -
  have "chain (ranges_update f m) r xs r = chain m r xs r" by (rule chain_cong) auto
  then show ?thesis by (simp add: circular_def)
qed

lemma list_ok_ranges [simp]: "list_ok heap_ok (ranges_update f m) r xs L = list_ok heap_ok m r xs L"
  by (simp add: list_ok_def)

lemma val_of_upd_other: "data_of m x \<noteq> p \<Longrightarrow> val_of (m\<lparr>ranges := (ranges m)(p := v)\<rparr>) x = val_of m x"
  by (simp add: val_of_def)

lemma distinct_map_split:
  assumes "distinct (map f (xs @ y # zs))"
  shows "z \<in> set xs \<union> set zs \<Longrightarrow> f z \<noteq> f y"
  using assms by (auto simp: image_iff)

lemma map_val_upd:
  assumes "distinct (map (data_of m) (xs @ y # zs))"
  shows "map (val_of (m\<lparr>ranges := (ranges m)(data_of m y := v)\<rparr>)) (xs @ y # zs) =
    map (val_of m) xs @ (rg_from v, rg_to v) # map (val_of m) zs"
proof -
  have "val_of (m\<lparr>ranges := (ranges m)(data_of m y := v)\<rparr>) z = val_of m z" if "z \<in> set xs \<union> set zs" for z
    using distinct_map_split [OF assms that] by (rule val_of_upd_other)
  moreover have "val_of (m\<lparr>ranges := (ranges m)(data_of m y := v)\<rparr>) y = (rg_from v, rg_to v)"
    by (simp add: val_of_def)
  ultimately show ?thesis by simp
qed

lemma same_ranges: "lmem.more m = lmem.more m' \<Longrightarrow> ranges m = ranges m'" for m m' :: "'h rmem"
  by (cases m; cases m') simp

lemma rfl_okD:
  assumes "rfl_ok heap_ok m r xs L"
  shows "list_ok heap_ok m r xs L" "distinct (map (data_of m) xs)"
    "data_of m ` set xs \<subseteq> L - set (r # xs)" "data_of m r = 0" "ranges_ok 0 (map (val_of m) xs)"
    "heap_ok (lheap m) L" "circular m r xs" "set (r # xs) \<subseteq> L"
  using assms by (auto simp: rfl_ok_def list_ok_def)

lemma rfl_ok_values:
  assumes "rfl_ok heap_ok m r xs L" "ranges_ok 0 (map (val_of (ranges_update f m)) xs)"
  shows "rfl_ok heap_ok (ranges_update f m) r xs L"
  using assms by (simp add: rfl_ok_def)

text \<open>An operation that leaves every node's data alone and the values of the nodes that remain.\<close>

lemma rfl_ok_change:
  assumes "rfl_ok heap_ok m r xs L" "list_ok heap_ok m' r ys L'" "set ys \<subseteq> set xs"
    "\<forall>a. data_of m' a = data_of m a" "distinct ys"
    "data_of m ` set ys \<subseteq> L'" "ranges_ok 0 (map (val_of m') ys)"
  shows "rfl_ok heap_ok m' r ys L'"
proof -
  note D = rfl_okD [OF assms(1)]
  have "inj_on (data_of m) (set ys)" using D(2) assms(3) by (meson distinct_map inj_on_subset)
  then have "distinct (map (data_of m') ys)" using assms(4,5) by (simp add: distinct_map)
  moreover have "data_of m ` set ys \<inter> set (r # ys) = {}" using D(3) assms(3) by auto
  ultimately show ?thesis using assms(2,4,6,7) D(4) by (auto simp: rfl_ok_def)
qed

context kernel_heap
begin

lemma range_request: "unat sizeof_range < heap_limit"
  by (simp add: sizeof_range_def heap_limit_def)

text \<open>Removing the range object of a node and the node itself.\<close>

lemma remove_node:
  assumes ok: "rfl_ok heap_ok m r (xs @ y # ys) L"
  obtains m1 m2 where "lfree release (data_of m y) m = Ret m1" "nodes m1 = nodes m"
    "ll_delete release y m1 = Ret (hd (ys @ [r]), m2)" "ranges m2 = ranges m"
    "rfl_ok heap_ok m2 r (xs @ ys) (L - {data_of m y} - {y})" "map (val_of m2) (xs @ ys) = map (val_of m) (xs @ ys)"
proof -
  note D = rfl_okD [OF ok]
  have dy: "data_of m y \<in> L" "data_of m y \<notin> set (r # xs @ y # ys)" using D(3) by auto
  obtain h where h: "release (data_of m y) (lheap m) = Ret h" "heap_ok h (L - {data_of m y})"
    using release_law [OF D(6) dy(1)] by blast
  let ?m1 = "m\<lparr>lheap := h\<rparr>"
  have l1: "list_ok heap_ok ?m1 r (xs @ y # ys) (L - {data_of m y})"
    using D(7,8) h(2) dy(2) by (auto simp: list_ok_def)
  obtain m2 where m2: "ll_delete release y ?m1 = Ret (hd (ys @ [r]), m2)"
    "list_ok heap_ok m2 r (xs @ ys) (L - {data_of m y} - {y})" "\<forall>a. data_of m2 a = data_of ?m1 a"
    "lmem.more m2 = lmem.more ?m1"
    using ll_delete_cases [OF l1] .
  have rg: "ranges m2 = ranges m" using same_ranges [OF m2(4)] by simp
  have v: "val_of m2 = val_of m" using rg m2(3) by (auto simp: val_of_def)
  have ds: "distinct (xs @ y # ys)" using D(7) by (simp add: circular_def)
  have "data_of m ` set (xs @ ys) \<subseteq> L - {data_of m y} - {y}"
    using D(3) distinct_map_split [OF D(2)] by auto
  moreover have "ranges_ok 0 (map (val_of m2) (xs @ ys))"
    using D(5) unfolding v by (auto intro: ranges_ok_remove)
  ultimately have "rfl_ok heap_ok m2 r (xs @ ys) (L - {data_of m y} - {y})"
    using m2(2,3) ds by (intro rfl_ok_change [OF ok]) auto
  moreover have "lfree release (data_of m y) m = Ret ?m1" using h(1) by (simp add: lfree_def)
  ultimately show thesis using that m2(1) rg v by simp
qed

text \<open>The three ways the insertion ends.\<close>

lemma insert_prepend:
  assumes ok: "rfl_ok heap_ok m r (xs @ y # zs) L"
    and ro: "ranges_ok 0 (map (val_of m) xs @ (a, snd (val_of m y)) # map (val_of m) zs)"
  shows "rfl_ok heap_ok (set_from (data_of m y) a m) r (xs @ y # zs) L"
    "map (val_of (set_from (data_of m y) a m)) (xs @ y # zs) =
      map (val_of m) xs @ (a, snd (val_of m y)) # map (val_of m) zs"
proof -
  show v: "map (val_of (set_from (data_of m y) a m)) (xs @ y # zs) =
      map (val_of m) xs @ (a, snd (val_of m y)) # map (val_of m) zs"
    unfolding map_val_upd [OF rfl_okD(2) [OF ok]] by (simp add: val_of_def)
  have "ranges_ok 0 (map (val_of (set_from (data_of m y) a m)) (xs @ y # zs))"
    unfolding v by (rule ro)
  then show "rfl_ok heap_ok (set_from (data_of m y) a m) r (xs @ y # zs) L"
    by (rule rfl_ok_values [OF ok])
qed

lemma set_to_vals:
  assumes ok: "rfl_ok heap_ok m r (xs @ y # zs) L"
  shows "map (val_of (set_to (data_of m y) b m)) (xs @ y # zs) =
      map (val_of m) xs @ (fst (val_of m y), b) # map (val_of m) zs"
  unfolding map_val_upd [OF rfl_okD(2) [OF ok]] by (simp add: val_of_def)

lemma insert_append:
  assumes ok: "rfl_ok heap_ok m r (xs @ y # zs) L"
    and vs: "vs = map (val_of m) xs @
        (case zs of [] \<Rightarrow> [(fst (val_of m y), b)]
         | z # zs' \<Rightarrow> if b + 1 = fst (val_of m z)
             then (fst (val_of m y), snd (val_of m z)) # map (val_of m) zs'
             else (fst (val_of m y), b) # map (val_of m) zs)"
    and ro: "ranges_ok 0 vs"
  shows "\<exists>m' ys L'. rfl_append release b y m = Ret (RFL_SUCCESS, m') \<and>
    rfl_ok heap_ok m' r ys L' \<and> map (val_of m') ys = vs"
proof -
  note D = rfl_okD [OF ok]
  let ?m1 = "set_to (data_of m y) b m"
  have c: "chain m y zs r" and d: "distinct (r # xs @ y # zs)"
    using D(7) by (auto simp: circular_def chain_append)
  have nx: "next_of m y = hd (zs @ [r])" using chain_next [OF c] .
  have z0: "data_of m z \<noteq> 0" if "z \<in> set zs" for z
    using D(3) null_not_live [OF D(6)] that by auto
  note v1 = set_to_vals [OF ok, of b]
  show ?thesis
  proof (cases "\<exists>z zs'. zs = z # zs' \<and> b + 1 = fst (val_of m z)")
    case False
    then have vs1: "vs = map (val_of m) xs @ (fst (val_of m y), b) # map (val_of m) zs"
      using vs by (cases zs) auto
    have "rfl_append release b y m = Ret (RFL_SUCCESS, ?m1)"
    proof (cases zs)
      case Nil
      then show ?thesis using nx D(4) by (simp add: rfl_append_def Let_def)
    next
      case (Cons z zs')
      have "data_of m z \<noteq> data_of m y" using distinct_map_split [OF D(2), of z] Cons by simp
      then show ?thesis using nx Cons False by (simp add: rfl_append_def Let_def val_of_def)
    qed
    moreover have "rfl_ok heap_ok ?m1 r (xs @ y # zs) L"
      by (rule rfl_ok_values [OF ok]) (unfold v1, use ro vs1 in simp)
    ultimately show ?thesis using v1 vs1 by blast
  next
    case True
    then obtain z zs' where z: "zs = z # zs'" "b + 1 = fst (val_of m z)" by blast
    let ?b = "snd (val_of m z)"
    let ?m2 = "set_to (data_of m y) ?b m"
    have vs1: "vs = map (val_of m) xs @ (fst (val_of m y), ?b) # map (val_of m) zs'"
      using vs z by simp
    have zy: "data_of m z \<noteq> data_of m y" using distinct_map_split [OF D(2), of z] z by simp
    have vz: "val_of ?m2 z = val_of m z" using zy by (rule val_of_upd_other)
    note v2 = set_to_vals [OF ok, of ?b]
    \<comment> \<open>before the next node is removed, its range overlaps the one extended\<close>
    have D': "list_ok heap_ok ?m2 r (xs @ y # z # zs') L" using D(1) z by simp
    obtain h where h: "release (data_of m z) (lheap m) = Ret h" "heap_ok h (L - {data_of m z})"
      using release_law [OF D(6), of "data_of m z"] D(3) z(1) by auto
    let ?m3 = "?m2\<lparr>lheap := h\<rparr>"
    have dz: "data_of m z \<notin> set (r # xs @ y # z # zs')" using D(3) z(1) by auto
    have l3: "list_ok heap_ok ?m3 r ((xs @ [y]) @ z # zs') (L - {data_of m z})"
      using D' h(2) dz by (auto simp: list_ok_def)
    obtain m4 where m4: "ll_delete release z ?m3 = Ret (hd (zs' @ [r]), m4)"
      "list_ok heap_ok m4 r ((xs @ [y]) @ zs') (L - {data_of m z} - {z})"
      "\<forall>a. data_of m4 a = data_of ?m3 a" "lmem.more m4 = lmem.more ?m3"
      using ll_delete_cases [OF l3] .
    have rg: "ranges m4 = ranges ?m2" using same_ranges [OF m4(4)] by simp
    have v4: "val_of m4 x = val_of ?m2 x" for x using rg m4(3) by (simp add: val_of_def)
    have "map (val_of ?m2) (xs @ y # zs) =
        map (val_of m) xs @ (fst (val_of m y), ?b) # val_of m z # map (val_of m) zs'"
      using v2 z(1) by simp
    then have v: "map (val_of m4) ((xs @ [y]) @ zs') = vs" unfolding vs1 using z(1)
      by (simp add: v4)
    have "rfl_append release b y m = Ret (RFL_SUCCESS, m4)"
    proof -
      have "rg_to (ranges ?m1 (data_of m y)) + 1 = rg_from (ranges ?m1 (data_of m z))"
        using z(2) zy by (simp add: val_of_def)
      moreover have "set_to (data_of m y) (rg_to (ranges ?m1 (data_of m z))) ?m1 = ?m2"
        using zy by (simp add: val_of_def)
      moreover have "lfree release (data_of m z) ?m2 = Ret ?m3" using h(1) by (simp add: lfree_def)
      moreover have "next_of m y = z" "next_of ?m3 y = z" using nx z(1) by simp_all
      ultimately show ?thesis
        using m4(1) z0 [of z] z(1) unfolding rfl_append_def by (simp add: Let_def)
    qed
    moreover have "rfl_ok heap_ok m4 r ((xs @ [y]) @ zs') (L - {data_of m z} - {z})"
    proof (rule rfl_ok_change [OF ok m4(2)])
      show "data_of m ` set ((xs @ [y]) @ zs') \<subseteq> L - {data_of m z} - {z}"
        using D(3) distinct_map_split [of "data_of m" "xs @ [y]" z zs'] D(2) z(1) by auto
      show "ranges_ok 0 (map (val_of m4) ((xs @ [y]) @ zs'))" unfolding v by (rule ro)
    qed (use z(1) d m4(3) in auto)
    ultimately show ?thesis using v by blast
  qed
qed

lemma insert_before_ok:
  assumes ok: "rfl_ok heap_ok m r (xs @ zs) L" and q: "q = hd (zs @ [r])"
    and ro: "ranges_ok 0 (map (val_of m) xs @ (a, b) # map (val_of m) zs)"
  shows "\<exists>e m' ys L'. rfl_add_range alloc a b q m = Ret (e, m') \<and> rfl_ok heap_ok m' r ys L' \<and>
    (e = RFL_SUCCESS \<and> map (val_of m') ys = map (val_of m) xs @ (a, b) # map (val_of m) zs \<or>
     e \<in> {E_RFL_NOMEM, RFL_SUCCESS} \<and> map (val_of m') ys = map (val_of m) (xs @ zs))"
proof -
  note D = rfl_okD [OF ok]
  show ?thesis
  proof (cases rule: alloc_cases [OF D(6) range_request, case_names null fresh])
    case (null h)
    let ?m = "m\<lparr>lheap := h\<rparr>"
    have "rfl_add_range alloc a b q m = Ret (E_RFL_NOMEM, ?m)"
      using null by (simp add: rfl_add_range_def lalloc_def)
    moreover have "val_of ?m = val_of m" by (auto simp: val_of_def)
    moreover have "list_ok heap_ok ?m r (xs @ zs) L" using D(1) null(2) by (simp add: list_ok_def)
    then have "rfl_ok heap_ok ?m r (xs @ zs) L"
      using ok calculation(2) by (simp add: rfl_ok_def)
    ultimately show ?thesis by force
  next
    case (fresh p h)
    let ?m = "m\<lparr>lheap := h\<rparr>"
    let ?L = "insert p L"
    have l1: "list_ok heap_ok ?m r (xs @ zs) ?L" using D(1) fresh(4) by (auto simp: list_ok_def)
    have p_new: "p \<notin> set (r # xs @ zs)" "p \<notin> data_of m ` set (xs @ zs)" using D(3,8) fresh(3) by auto
    show ?thesis
    proof (cases rule: ll_insert_before_cases [OF l1 q, of p, case_names fail ok])
      case (fail h')
      let ?m2 = "set_to p b (set_from p a (?m\<lparr>lheap := h'\<rparr>))"
      have v: "val_of ?m2 x = val_of m x" if "x \<in> set (xs @ zs)" for x
        using that p_new(2) by (auto simp: val_of_def)
      then have vs: "map (val_of ?m2) (xs @ zs) = map (val_of m) (xs @ zs)" by (meson map_eq_conv)
      have "rfl_add_range alloc a b q m = Ret (RFL_SUCCESS, ?m2)"
        using fresh fail(1) by (simp add: rfl_add_range_def lalloc_def)
      moreover have "ranges_ok 0 (map (val_of ?m2) (xs @ zs))" unfolding vs by (rule D(5))
      moreover have "list_ok heap_ok ?m2 r (xs @ zs) ?L" using D(7,8) fail(2) by (auto simp: list_ok_def)
      ultimately have "rfl_add_range alloc a b q m = Ret (RFL_SUCCESS, ?m2)"
        "rfl_ok heap_ok ?m2 r (xs @ zs) ?L"
        using D(2-4) p_new unfolding rfl_ok_def by auto
      then show ?thesis using vs by blast
    next
      case (ok n m2)
      let ?m2 = "set_to p b (set_from p a m2)"
      have rg: "ranges m2 = ranges m" using same_ranges [OF ok(7)] by simp
      have nn: "n \<noteq> p" "n \<notin> L" using ok(3) by auto
      have dn: "data_of ?m2 x = data_of m x" if "x \<in> set (xs @ zs)" for x
        using ok(6) that D(8) nn(2) by auto
      have dr: "data_of ?m2 r = 0" using ok(6) D(4,8) nn(2) by auto
      have v: "val_of ?m2 x = val_of m x" if "x \<in> set (xs @ zs)" for x
        using that p_new(2) dn [OF that] rg by (auto simp: val_of_def)
      have "map (val_of ?m2) xs = map (val_of m) xs" "map (val_of ?m2) zs = map (val_of m) zs"
        using v by auto
      moreover have "val_of ?m2 n = (a, b)" using ok(5) by (simp add: val_of_def)
      ultimately have vs: "map (val_of ?m2) (xs @ n # zs) = map (val_of m) xs @ (a, b) # map (val_of m) zs"
        by simp
      have l2: "list_ok heap_ok ?m2 r (xs @ n # zs) (insert n ?L)" using ok(4) by simp
      have dmap: "map (data_of ?m2) xs = map (data_of m) xs" "map (data_of ?m2) zs = map (data_of m) zs"
        "data_of ?m2 n = p"
        using dn ok(5) by auto
      have "distinct (map (data_of ?m2) (xs @ n # zs))"
        unfolding map_append list.map dmap using D(2) p_new(2) by auto
      moreover have "data_of ?m2 ` set (xs @ n # zs) \<subseteq> insert n ?L - set (r # xs @ n # zs)"
      proof -
        have "data_of ?m2 ` set (xs @ n # zs) = insert p (data_of m ` set (xs @ zs))"
          using dn ok(5) by auto
        then show ?thesis using D(3) p_new nn by auto
      qed
      moreover have "ranges_ok 0 (map (val_of ?m2) (xs @ n # zs))" unfolding vs by (rule ro)
      ultimately have "rfl_ok heap_ok ?m2 r (xs @ n # zs) (insert n ?L)"
        using l2 dr unfolding rfl_ok_def by blast
      moreover have "rfl_add_range alloc a b q m = Ret (RFL_SUCCESS, ?m2)"
        using fresh ok(1) by (simp add: rfl_add_range_def lalloc_def)
      ultimately show ?thesis using vs by blast
    qed
  qed
qed

lemma rfl_insert_cases:
  assumes ok: "rfl_ok heap_ok m r xs L" and ab: "a \<le> b" "b < no_id"
    and dj: "range_ids (map (val_of m) xs) \<inter> {a..b} = {}"
  shows "\<exists>e m' ys L'. sys_rfl_insert_range alloc release r a b m = Ret (e, m') \<and>
    rfl_ok heap_ok m' r ys L' \<and>
    (e = RFL_SUCCESS \<and> range_ids (map (val_of m') ys) = range_ids (map (val_of m) xs) \<union> {a..b} \<or>
     e \<in> {E_RFL_NOMEM, RFL_SUCCESS} \<and> range_ids (map (val_of m') ys) = range_ids (map (val_of m) xs))"
proof -
  note D = rfl_okD [OF ok]
  have c: "chain m r xs r" "r \<notin> set xs" using D(7) by (auto simp: circular_def)
  have sc: "rfl_scan m r a b (next_of m r) = Some (list_scan m r a b xs)"
    using rfl_scan_eq [OF c] chain_next [OF c(1)] by simp
  have ar: "ranges_ok 0 (add_range a b (map (val_of m) xs))"
    "range_ids (add_range a b (map (val_of m) xs)) = range_ids (map (val_of m) xs) \<union> {a..b}"
    using add_range_ok [OF D(5) ab dj] by auto
  have op: "sys_rfl_insert_range alloc release r a b m =
      (case list_scan m r a b xs of
         Overlap \<Rightarrow> Ret (E_RFL_OVERLAP, m)
       | Prepend rp \<Rightarrow> Ret (RFL_SUCCESS, set_from rp a m)
       | Append temp \<Rightarrow> rfl_append release b temp m
       | Before temp \<Rightarrow> rfl_add_range alloc a b temp m)"
    using ab(1) sc by (auto simp: sys_rfl_insert_range_def split: scan.splits)
  show ?thesis
  proof (cases rule: list_scan_cases [OF dj ab(1), of r, case_names prepend append before])
    case (prepend us y zs)
    have ok': "rfl_ok heap_ok m r (us @ y # zs) L" using ok prepend(2) by simp
    note ip = insert_prepend [OF ok' ar(1) [unfolded prepend(3)]]
    have "range_ids (map (val_of (set_from (data_of m y) a m)) (us @ y # zs)) =
        range_ids (map (val_of m) xs) \<union> {a..b}"
      unfolding ip(2) using ar(2) prepend(3) by simp
    moreover have "sys_rfl_insert_range alloc release r a b m = Ret (RFL_SUCCESS, set_from (data_of m y) a m)"
      using op prepend(1) by simp
    ultimately show ?thesis using ip(1) by blast
  next
    case (append us y zs)
    have ok': "rfl_ok heap_ok m r (us @ y # zs) L" using ok append(2) by simp
    from insert_append [OF ok' append(3) ar(1)] obtain m' ys L' where
      "rfl_append release b y m = Ret (RFL_SUCCESS, m')" "rfl_ok heap_ok m' r ys L'"
      and vs: "map (val_of m') ys = add_range a b (map (val_of m) xs)" by blast
    moreover have "range_ids (map (val_of m') ys) = range_ids (map (val_of m) xs) \<union> {a..b}"
      unfolding vs by (rule ar(2))
    moreover have "sys_rfl_insert_range alloc release r a b m = rfl_append release b y m"
      using op append(1) by simp
    ultimately show ?thesis by metis
  next
    case (before us zs)
    have ok': "rfl_ok heap_ok m r (us @ zs) L" using ok before(2) by simp
    from insert_before_ok [OF ok' refl ar(1) [unfolded before(3)]] obtain e m' ys L' where
      "rfl_add_range alloc a b (hd (zs @ [r])) m = Ret (e, m')" "rfl_ok heap_ok m' r ys L'"
      "e = RFL_SUCCESS \<and> map (val_of m') ys = add_range a b (map (val_of m) xs) \<or>
       e \<in> {E_RFL_NOMEM, RFL_SUCCESS} \<and> map (val_of m') ys = map (val_of m) xs"
      unfolding before(3) before(2) [symmetric] by blast
    moreover have "sys_rfl_insert_range alloc release r a b m = rfl_add_range alloc a b (hd (zs @ [r])) m"
      using op before(1) by simp
    ultimately show ?thesis using ar(2) by metis
  qed
qed

text \<open>\<open>sys$rfl_alloc\<close>: the least number of the first range.\<close>

lemma rfl_alloc_cases:
  assumes ok: "rfl_ok heap_ok m r xs L"
  obtains (empty) "xs = []" "sys_rfl_alloc release r m = Ret (no_id, m)"
    | (some) i m' ys L' where "sys_rfl_alloc release r m = Ret (i, m')" "rfl_ok heap_ok m' r ys L'"
        "i \<in> range_ids (map (val_of m) xs)" "\<forall>j \<in> range_ids (map (val_of m) xs). i \<le> j"
        "range_ids (map (val_of m') ys) = range_ids (map (val_of m) xs) - {i}"
        "L - (set xs \<union> data_of m ` set xs) \<subseteq> L'"
proof (cases xs)
  case Nil
  then show thesis using empty rfl_okD(7) [OF ok]
    by (simp add: circular_def sys_rfl_alloc_def no_id_def)
next
  case (Cons y ys)
  note D = rfl_okD [OF ok]
  obtain f t where v: "val_of m y = (f, t)" by force
  have ft: "f \<le> t" "t < no_id" "ranges_ok (unat t + 2) (map (val_of m) ys)" using D(5) Cons v by auto
  have fv: "f = rg_from (ranges m (data_of m y))" "t = rg_to (ranges m (data_of m y))"
    using v by (auto simp: val_of_def)
  have nx: "next_of m r = y" "y \<noteq> r" using D(7) Cons by (auto simp: circular_def)
  have up: "unat t < unat j" if "j \<in> range_ids (map (val_of m) ys)" for j
    using ranges_ok_ids [OF ft(3) that] by simp
  have least: "\<forall>j \<in> range_ids (map (val_of m) xs). f \<le> j"
    using Cons v up ft(1) by (force simp: word_le_nat_alt)
  have mem: "f \<in> range_ids (map (val_of m) xs)" using Cons v ft(1) by simp
  have ok': "rfl_ok heap_ok m r ([] @ y # ys) L" using ok Cons by simp
  show thesis
  proof (cases "f = t")
    case True
    obtain m1 m2 where r: "lfree release (data_of m y) m = Ret m1" "nodes m1 = nodes m"
      "ll_delete release y m1 = Ret (hd (ys @ [r]), m2)"
      "rfl_ok heap_ok m2 r ([] @ ys) (L - {data_of m y} - {y})"
      "map (val_of m2) ([] @ ys) = map (val_of m) ([] @ ys)"
      using remove_node [OF ok'] by metis
    have "sys_rfl_alloc release r m = Ret (f, m2)"
      using r(1-3) nx True fv by (simp add: sys_rfl_alloc_def Let_def)
    moreover have "range_ids (map (val_of m2) ys) = range_ids (map (val_of m) xs) - {f}"
    proof -
      have "f \<notin> range_ids (map (val_of m) ys)" using up [of f] True by auto
      moreover have "map (val_of m2) ys = map (val_of m) ys" using r(5) by (simp only: append_Nil)
      then have "range_ids (map (val_of m2) ys) = range_ids (map (val_of m) ys)" by (simp only:)
      ultimately show ?thesis using Cons v True by simp
    qed
    moreover have "L - (set xs \<union> data_of m ` set xs) \<subseteq> L - {data_of m y} - {y}" using Cons by auto
    moreover have "rfl_ok heap_ok m2 r ys (L - {data_of m y} - {y})" using r(4) by simp
    ultimately show thesis using some [of f m2 ys] mem least by blast
  next
    case False
    let ?m = "set_from (data_of m y) (f + 1) m"
    have lt: "f < t" using ft(1) False by simp
    then have u: "unat (f + 1) = unat f + 1" by (rule unat_plus_1_less)
    have ro: "ranges_ok 0 (map (val_of m) [] @ (f + 1, snd (val_of m y)) # map (val_of m) ys)"
      using v lt ft u by (simp add: word_le_nat_alt word_less_nat_alt)
    note ip = insert_prepend [OF ok' ro]
    have "{f + 1..t} = {f..t} - {f}"
      using u lt by (auto simp: word_le_nat_alt word_less_nat_alt word_unat_eq_iff)
    then have "range_ids (map (val_of ?m) ([] @ y # ys)) = range_ids (map (val_of m) xs) - {f}"
      unfolding ip(2) using Cons v up ft(1) by (fastforce simp: word_le_nat_alt)
    moreover have "sys_rfl_alloc release r m = Ret (f, ?m)"
      using nx False fv by (simp add: sys_rfl_alloc_def Let_def)
    ultimately show thesis using some [OF _ ip(1) mem least] by blast
  qed
qed

end

section \<open>The list as a pool of identifiers\<close>

definition rfl_pool_ok :: "('h \<Rightarrow> ptr set \<Rightarrow> bool) \<Rightarrow> ptr \<Rightarrow> 'h rmem \<Rightarrow> bool" where
  "rfl_pool_ok heap_ok r m \<longleftrightarrow> (\<exists>xs L. rfl_ok heap_ok m r xs L)"

definition rfl_avail :: "ptr \<Rightarrow> 'h rmem \<Rightarrow> u64 set" where
  "rfl_avail r m = {i. \<exists>xs. circular m r xs \<and> i \<in> range_ids (map (val_of m) xs)}"

definition rfl_give :: "'h alloc_fn \<Rightarrow> 'h free_fn \<Rightarrow> ptr \<Rightarrow> u64 \<Rightarrow> 'h rmem \<Rightarrow> 'h rmem outcome" where
  "rfl_give alloc release r i m = bindo (sys_rfl_free alloc release r i m) (\<lambda>(_, m). Ret m)"

lemma chain_unique:
  "chain m p xs r \<Longrightarrow> chain m p ys r \<Longrightarrow> r \<notin> set xs \<Longrightarrow> r \<notin> set ys \<Longrightarrow> xs = ys"
proof (induction xs arbitrary: p ys)
  case (Cons x xs)
  then obtain y ys' where "ys = y # ys'" by (cases ys) auto
  with Cons show ?case by auto
next
  case Nil
  then show ?case by (cases ys) auto
qed

lemma rfl_avail_eq: "circular m r xs \<Longrightarrow> rfl_avail r m = range_ids (map (val_of m) xs)"
  using chain_unique [of m r xs r] by (auto simp: rfl_avail_def circular_def)

lemma rfl_avail_ok: "rfl_ok heap_ok m r xs L \<Longrightarrow> rfl_avail r m = range_ids (map (val_of m) xs)"
  using rfl_avail_eq rfl_okD(7) by blast

context kernel_heap
begin

lemma rfl_pool_insert:
  assumes "rfl_pool_ok heap_ok r m" "a \<le> b" "b < no_id" "rfl_avail r m \<inter> {a..b} = {}"
  shows "\<exists>e m'. sys_rfl_insert_range alloc release r a b m = Ret (e, m') \<and> rfl_pool_ok heap_ok r m' \<and>
    (e = RFL_SUCCESS \<and> rfl_avail r m' = rfl_avail r m \<union> {a..b} \<or>
     e \<in> {E_RFL_NOMEM, RFL_SUCCESS} \<and> rfl_avail r m' = rfl_avail r m)"
proof -
  obtain xs L where ok: "rfl_ok heap_ok m r xs L" using assms(1) by (auto simp: rfl_pool_ok_def)
  note av = rfl_avail_ok [OF ok]
  obtain e m' ys L' where r: "sys_rfl_insert_range alloc release r a b m = Ret (e, m')"
    "rfl_ok heap_ok m' r ys L'"
    "e = RFL_SUCCESS \<and> range_ids (map (val_of m') ys) = range_ids (map (val_of m) xs) \<union> {a..b} \<or>
     e \<in> {E_RFL_NOMEM, RFL_SUCCESS} \<and> range_ids (map (val_of m') ys) = range_ids (map (val_of m) xs)"
    using rfl_insert_cases [OF ok assms(2,3) assms(4) [unfolded av]] by blast
  have "rfl_pool_ok heap_ok r m'" using r(2) by (auto simp: rfl_pool_ok_def)
  moreover have "e = RFL_SUCCESS \<and> rfl_avail r m' = rfl_avail r m \<union> {a..b} \<or>
     e \<in> {E_RFL_NOMEM, RFL_SUCCESS} \<and> rfl_avail r m' = rfl_avail r m"
    unfolding av rfl_avail_ok [OF r(2)] by (rule r(3))
  ultimately show ?thesis using r(1) by blast
qed

lemma rfl_pool_take:
  assumes "rfl_pool_ok heap_ok r m"
  shows "\<exists>i m'. sys_rfl_alloc release r m = Ret (i, m') \<and> rfl_pool_ok heap_ok r m' \<and>
    (if rfl_avail r m = {} then i = no_id \<and> m' = m
     else i \<in> rfl_avail r m \<and> (\<forall>j \<in> rfl_avail r m. i \<le> j) \<and> rfl_avail r m' = rfl_avail r m - {i})"
proof -
  obtain xs L where ok: "rfl_ok heap_ok m r xs L" using assms(1) by (auto simp: rfl_pool_ok_def)
  note av = rfl_avail_ok [OF ok]
  show ?thesis
  proof (cases rule: rfl_alloc_cases [OF ok, case_names empty some])
    case empty
    then show ?thesis using av assms by simp
  next
    case (some i m' ys L')
    have "rfl_pool_ok heap_ok r m'" using some(2) by (auto simp: rfl_pool_ok_def)
    moreover have "rfl_avail r m' = rfl_avail r m - {i}"
      unfolding av rfl_avail_ok [OF some(2)] by (rule some(5))
    moreover have "i \<in> rfl_avail r m" "\<forall>j \<in> rfl_avail r m. i \<le> j" unfolding av by (rule some)+
    ultimately show ?thesis using some(1) by auto
  qed
qed

end

sublocale kernel_heap \<subseteq> rfl: id_pool "rfl_pool_ok heap_ok r" "rfl_avail r" "sys_rfl_alloc release r"
    "rfl_give alloc release r" for r
proof
  fix m assume m: "rfl_pool_ok heap_ok r m" "rfl_avail r m = {}"
  from rfl_pool_take [OF m(1)] m
  show "\<exists>s'. sys_rfl_alloc release r m = Ret (no_id, s') \<and> rfl_pool_ok heap_ok r s' \<and> rfl_avail r s' = {}"
    by auto
next
  fix m i m'
  assume m: "rfl_pool_ok heap_ok r m" "rfl_avail r m \<noteq> {}" "sys_rfl_alloc release r m = Ret (i, m')"
  from rfl_pool_take [OF m(1)] m(2,3)
  show "i \<in> rfl_avail r m \<and> rfl_avail r m' = rfl_avail r m - {i} \<and> rfl_pool_ok heap_ok r m'" by auto
next
  fix m i m' assume m: "rfl_pool_ok heap_ok r m" "i \<notin> rfl_avail r m" "i \<noteq> no_id"
    "rfl_give alloc release r i m = Ret m'"
  have "unat i \<noteq> unat no_id" using m(3) by (metis word_unat_eq_iff)
  then have "i < no_id" using unat_lt64 [of i] by (simp add: word_less_nat_alt del: unat_lt64)
  moreover have "rfl_avail r m \<inter> {i..i} = {}" using m(2) by simp
  ultimately obtain e m2 where e: "sys_rfl_insert_range alloc release r i i m = Ret (e, m2)"
    "rfl_pool_ok heap_ok r m2" "rfl_avail r m2 = rfl_avail r m \<union> {i..i} \<or> rfl_avail r m2 = rfl_avail r m"
    using rfl_pool_insert [OF m(1) order_refl] by blast
  then have "m2 = m'" using m(4) by (simp add: rfl_give_def sys_rfl_free_def)
  with e(2,3) show "rfl_pool_ok heap_ok r m' \<and>
      (rfl_avail r m' = rfl_avail r m \<or> rfl_avail r m' = insert i (rfl_avail r m))"
    by (simp add: atLeastAtMost_singleton) blast
next
  fix m assume "rfl_pool_ok heap_ok r m"
  then obtain xs L where ok: "rfl_ok heap_ok m r xs L" by (auto simp: rfl_pool_ok_def)
  have "no_id \<notin> range_ids (map (val_of m) xs)"
    using ranges_ok_ids [OF rfl_okD(5) [OF ok], of no_id] by auto
  then show "no_id \<notin> rfl_avail r m" by (simp add: rfl_avail_ok [OF ok])
qed

section \<open>A sample list\<close>

text \<open>A heap with three blocks in use: the header node, one node, and its range from 5 to 6.\<close>

definition sample_range_heap :: heap where
  "sample_range_heap = \<lparr>bss = 0x10090, top = 0x20000, base = 0x100, freep = 0x100,
     hdr = (\<lambda>a. \<lparr>s_ptr = 0x100, s_size = (if a = 0x100 then 0 else 3)\<rparr>),
     alloc_mutex = \<lparr>holder = 0, internal = 0, count = 0\<rparr>\<rparr>"

definition sample_mem :: "heap rmem" where
  "sample_mem = \<lparr>lheap = sample_range_heap,
     nodes = (\<lambda>a. if a = 0x10010 then \<lparr>ll_next = 0x10040, ll_prev = 0x10040, ll_data = 0\<rparr>
                  else \<lparr>ll_next = 0x10010, ll_prev = 0x10010, ll_data = 0x10070\<rparr>),
     ranges = (\<lambda>_. \<lparr>rg_from = 5, rg_to = 6\<rparr>)\<rparr>"

lemma sample_range_heap_ok: "kr_ok 0x1000 sample_range_heap {0x10010, 0x10040, 0x10070}"
proof -
  have "kr_inv 0x10000 {0x100} {0x10000, 0x10030, 0x10060} sample_range_heap"
    by (simp add: kr_inv_def sample_range_heap_def blocks_ok_def is_next_def sizeof_Header_def)
  moreover have "{0x10010, 0x10040, 0x10070} = (\<lambda>a. a + sizeof_Header) ` {0x10000, 0x10030, 0x10060}"
    by (simp add: sizeof_Header_def)
  ultimately show ?thesis using pagesize_4k unfolding kr_ok_def by blast
qed

lemma sample_rfl_ok: "rfl_ok (kr_ok 0x1000) sample_mem 0x10010 [0x10040] {0x10010, 0x10040, 0x10070}"
  using sample_range_heap_ok
  by (simp add: rfl_ok_def list_ok_def circular_def sample_mem_def val_of_def word_less_nat_alt)

lemma sample_pool: "rfl_pool_ok (kr_ok 0x1000) 0x10010 sample_mem" "rfl_avail 0x10010 sample_mem = {5..6}"
  using sample_rfl_ok rfl_avail_ok [OF sample_rfl_ok]
  by (auto simp: rfl_pool_ok_def val_of_def sample_mem_def)

section \<open>Properties\<close>

text \<open>C25: \<open>sys$rfl_alloc\<close> over the kernel heap always returns: the least number of the list, which is
  removed from it, or -1 with the list unchanged exactly when the list is empty.\<close>

theorem rfl_alloc_least:
  assumes "rfl_pool_ok (kr_ok ps) r m"
  shows "\<exists>i m'. sys_rfl_alloc (sys_free me) r m = Ret (i, m') \<and> rfl_pool_ok (kr_ok ps) r m' \<and>
    (if rfl_avail r m = {} then i = -1 \<and> m' = m
     else i \<in> rfl_avail r m \<and> (\<forall>j \<in> rfl_avail r m. i \<le> j) \<and> rfl_avail r m' = rfl_avail r m - {i})"
  using kr.rfl_pool_take [OF assms, of me] unfolding no_id_def .

theorem rfl_alloc_least_witness:
  "\<exists>i m'. sys_rfl_alloc (sys_free 1) 0x10010 sample_mem = Ret (i, m') \<and> i = 5 \<and>
     rfl_avail 0x10010 m' = {5..6} - {i}"
proof -
  obtain i m' where r: "sys_rfl_alloc (sys_free 1) 0x10010 sample_mem = Ret (i, m')" "i \<in> {5..6}"
    "\<forall>j \<in> {5..6}. i \<le> j" "rfl_avail 0x10010 m' = {5..6} - {i}"
    using rfl_alloc_least [OF sample_pool(1), of 1] unfolding sample_pool(2) by auto
  have "i \<le> 5" by (rule r(3) [rule_format]) simp
  with r show ?thesis by auto
qed



text \<open>C26: In any run in which the numbers given back with \<open>sys$rfl_free\<close> are numbers that are held,
  \<open>sys$rfl_alloc\<close> never hands out a number that is held already.\<close>

theorem rfl_no_double_alloc:
  assumes "rfl_pool_ok (kr_ok ps) r m\<^sub>0" 
    "id_pool.client (sys_rfl_alloc (sys_free me) r) (rfl_give (sys_alloc me bk ps) (sys_free me) r)
       m\<^sub>0 {} m H"
    "sys_rfl_alloc (sys_free me) r m = Ret (i, m')" "i \<noteq> no_id"
  shows "i \<notin> H"
  using kr.rfl.taken_not_held [OF assms(2,1) _ _ assms(3,4)] by simp

theorem rfl_no_double_alloc_witness:
  "\<exists>i m m'. sys_rfl_alloc (sys_free 1) 0x10010 sample_mem = Ret (5, m) \<and>
     sys_rfl_alloc (sys_free 1) 0x10010 m = Ret (i, m') \<and> i \<noteq> 5"
proof -
  let ?take = "sys_rfl_alloc (sys_free 1) 0x10010"
  obtain i m where r: "?take sample_mem = Ret (i, m)" "i \<in> {5..6}" "\<forall>j \<in> {5..6}. i \<le> j"
    "rfl_avail 0x10010 m = {5..6} - {i}" "rfl_pool_ok (kr_ok 0x1000) 0x10010 m"
    using kr.rfl_pool_take [OF sample_pool(1), of 1] unfolding sample_pool(2) by auto
  have "i \<le> 5" by (rule r(3) [rule_format]) simp
  then have "i = 5" using r(2) by (auto intro: antisym)
  then have m: "?take sample_mem = Ret (5, m)" "rfl_avail 0x10010 m = {5..6} - {5}"
    "rfl_pool_ok (kr_ok 0x1000) 0x10010 m"
    using r by auto
  have "(6 :: u64) \<in> {5..6} - {5}" by simp
  then have ne: "rfl_avail 0x10010 m \<noteq> {}" using m(2) by blast
  obtain j m' where j: "?take m = Ret (j, m')" "j \<in> rfl_avail 0x10010 m"
    using kr.rfl_pool_take [OF m(3), of 1] ne by auto
  have "j \<noteq> no_id" using kr.rfl.no_id_not_avail [OF m(3)] j(2) by blast
  have five: "(5 :: u64) \<noteq> no_id" by (simp add: no_id_def)
  have "id_pool.client ?take (rfl_give (sys_alloc 1 (\<lambda>_ _. 0) 0x1000) (sys_free 1) 0x10010)
      sample_mem {} m {5}"
    using kr.rfl.client.take [OF kr.rfl.client.start m(1) five] by simp
  from rfl_no_double_alloc [OF sample_pool(1) this j(1) \<open>j \<noteq> no_id\<close>] m(1) j(1) show ?thesis by auto
qed

text \<open>The overlap test of \<open>sys$rfl_insert_range\<close> looks only at the end points of the new range: a
  range that strictly contains an existing one is not rejected, and no error but lack of memory is
  reported.\<close>

theorem rfl_insert_misses_containment:
  assumes "rfl_ok (kr_ok ps) m r [x] L" "val_of m x = (f, t)" "a < f" "t < b" "b < no_id"
  shows "\<exists>e m'. sys_rfl_insert_range (sys_alloc me bk ps) (sys_free me) r a b m = Ret (e, m') \<and>
    e \<noteq> E_RFL_OVERLAP"
proof -
  note D = rfl_okD [OF assms(1)]
  have ft: "f \<le> t" "t < no_id" using D(5) assms(2) by auto
  have "list_scan m r a b [x] = Before r"
    using assms(2-5) ft below_no_id [OF assms(5)] below_no_id [OF ft(2)]
    by (auto simp: word_le_nat_alt word_less_nat_alt)
  then have op: "sys_rfl_insert_range (sys_alloc me bk ps) (sys_free me) r a b m =
      rfl_add_range (sys_alloc me bk ps) a b r m"
    using rfl_scan_eq [of m r "[x]" r a b] D(7) chain_next [of m r "[x]" r] assms(3,4) ft
    by (auto simp: sys_rfl_insert_range_def circular_def)
  show ?thesis unfolding op
  proof (cases rule: kr.alloc_cases [OF D(6) kr.range_request, of me bk, case_names null fresh])
    case (fresh p h)
    then have l: "list_ok (kr_ok ps) (m\<lparr>lheap := h\<rparr>) r ([x] @ []) (insert p L)"
      using D(1) by (auto simp: list_ok_def)
    have q: "r = hd ([] @ [r])" by simp
    show "\<exists>e m'. rfl_add_range (sys_alloc me bk ps) a b r m = Ret (e, m') \<and> e \<noteq> E_RFL_OVERLAP"
      by (cases rule: kr.ll_insert_before_cases [OF l q, where d = p and me = me and bk = bk])
        (use fresh in \<open>auto simp: rfl_add_range_def lalloc_def RFL_SUCCESS_def E_RFL_OVERLAP_def\<close>)
  qed (auto simp: rfl_add_range_def lalloc_def E_RFL_NOMEM_def E_RFL_OVERLAP_def)
qed

theorem rfl_insert_misses_containment_witness:
  "\<exists>e m'. sys_rfl_insert_range (sys_alloc 1 (\<lambda>_ _. 0) 0x1000) (sys_free 1) 0x10010 3 9 sample_mem = Ret (e, m') \<and>
     e \<noteq> E_RFL_OVERLAP"
  by (rule rfl_insert_misses_containment [OF sample_rfl_ok, of 5 6])
    (simp_all add: sample_mem_def val_of_def no_id_def)

end
