(* ===== verification/Hash_Table.thy ===== *)
theory Hash_Table
  imports Kernel_Heap
begin

unbundle bit_operations_syntax

text \<open>
  The hash table of \<open>sys/sys_hash.c\<close>: buckets are singly linked chains of entries in an explicit
  store over the kernel heap. The word size is 8, so \<open>hash_hash\<close> takes its second branch. The lemmas
  show that every index stays inside a table whose size is a power of two, that the loops end, and
  that the table is an association list per bucket, with the newest binding of a key in front.
\<close>

section \<open>The model\<close>

record hashentry =
  he_next :: ptr
  he_key :: u64
  he_value :: ptr

record hashtable =
  ht_array :: ptr
  ht_table :: "ptr list"
  ht_size :: u32
  ht_spares :: ptr

record 'h hmem =
  hheap :: 'h
  entries :: "ptr \<Rightarrow> hashentry"

definition sizeof_hashtable :: u64 where "sizeof_hashtable = 24"
definition sizeof_hashentry :: u64 where "sizeof_hashentry = 24"

definition halloc :: "'h alloc_fn \<Rightarrow> u64 \<Rightarrow> 'h hmem \<Rightarrow> (ptr \<times> 'h hmem) outcome" where
  "halloc alloc n m = bindo (alloc n (hheap m)) (\<lambda>(p, h). Ret (p, m\<lparr>hheap := h\<rparr>))"

definition hfree :: "'h free_fn \<Rightarrow> ptr \<Rightarrow> 'h hmem \<Rightarrow> 'h hmem outcome" where
  "hfree release p m = bindo (release p (hheap m)) (\<lambda>h. Ret (m\<lparr>hheap := h\<rparr>))"

text \<open>\<open>hash_init\<close> returns the address of the new table structure, or 0, and its contents.\<close>

definition hash_init ::
    "'h alloc_fn \<Rightarrow> 'h free_fn \<Rightarrow> u32 \<Rightarrow> 'h hmem \<Rightarrow> ((ptr \<times> hashtable option) \<times> 'h hmem) outcome" where
  "hash_init alloc release sz m =
     panic_if (sz AND (sz - 1) \<noteq> 0)
       (bindo (halloc alloc sizeof_hashtable m) (\<lambda>(ts, m).
          if ts = 0 then Ret ((0, None), m)
          else bindo (halloc alloc (ucast sz * 8) m) (\<lambda>(arr, m).
            if arr = 0 then bindo (hfree release ts m) (\<lambda>m. Ret ((0, None), m))
            else Ret ((ts, Some \<lparr>ht_array = arr, ht_table = replicate (unat sz) 0, ht_size = sz,
                              ht_spares = 0\<rparr>), m))))"

definition hash_hash :: "u64 \<Rightarrow> u64" where
  "hash_hash key =
     (let key = key + NOT (push_bit 32 key);
          key = key XOR drop_bit 22 key;
          key = key + NOT (push_bit 13 key);
          key = key XOR drop_bit 8 key;
          key = key + push_bit 3 key;
          key = key XOR drop_bit 15 key;
          key = key + NOT (push_bit 27 key);
          key = key XOR drop_bit 31 key
      in key)"

definition hash_index :: "hashtable \<Rightarrow> u64 \<Rightarrow> nat" where
  "hash_index t key = unat (hash_hash key AND ucast (ht_size t - 1))"

text \<open>The loop of \<open>hash_remove\<close> behind the first entry: the predecessor of the entry to unlink, if
  there is one.\<close>

partial_function (option) remove_loop :: "'h hmem \<Rightarrow> u64 \<Rightarrow> ptr \<Rightarrow> ptr option option" where
  "remove_loop m key entry =
     (if entry = 0 then Some None
      else if he_next (entries m entry) \<noteq> 0 \<and> he_key (entries m (he_next (entries m entry))) = key
      then Some (Some entry)
      else remove_loop m key (he_next (entries m entry)))"

definition hash_remove ::
    "'h free_fn \<Rightarrow> hashtable \<Rightarrow> u64 \<Rightarrow> 'h hmem \<Rightarrow> (hashtable \<times> 'h hmem) outcome" where
  "hash_remove release t key m =
     (let hash = hash_index t key
      in fault_if (hash \<ge> length (ht_table t))
        (let entry = ht_table t ! hash
         in if entry \<noteq> 0 \<and> he_key (entries m entry) = key then
              let tmpentry = he_next (entries m entry)
              in bindo (hfree release entry m) (\<lambda>m.
                   Ret (t\<lparr>ht_table := (ht_table t)[hash := tmpentry]\<rparr>, m))
            else case remove_loop m key entry of
                   None \<Rightarrow> Timeout
                 | Some None \<Rightarrow> Ret (t, m)
                 | Some (Some e) \<Rightarrow>
                     let tmpentry = he_next (entries m e);
                         m1 = m\<lparr>entries := (entries m)(e := (entries m e)
                                \<lparr>he_next := he_next (entries m tmpentry)\<rparr>)\<rparr>
                     in bindo (hfree release tmpentry m1) (\<lambda>m. Ret (t, m))))"

partial_function (option) lookup_loop :: "'h hmem \<Rightarrow> u64 \<Rightarrow> ptr \<Rightarrow> ptr option" where
  "lookup_loop m key entry =
     (if entry = 0 then Some 0
      else if he_key (entries m entry) = key then Some (he_value (entries m entry))
      else lookup_loop m key (he_next (entries m entry)))"

definition hash_lookup :: "hashtable \<Rightarrow> u64 \<Rightarrow> 'h hmem \<Rightarrow> ptr outcome" where
  "hash_lookup t key m =
     (let hash = hash_index t key
      in fault_if (hash \<ge> length (ht_table t))
           (case lookup_loop m key (ht_table t ! hash) of None \<Rightarrow> Timeout | Some v \<Rightarrow> Ret v))"

definition hash_insert ::
    "'h alloc_fn \<Rightarrow> hashtable \<Rightarrow> u64 \<Rightarrow> ptr \<Rightarrow> 'h hmem \<Rightarrow> (int \<times> hashtable \<times> 'h hmem) outcome" where
  "hash_insert alloc t key v m =
     (let hash = hash_index t key
      in bindo (halloc alloc sizeof_hashentry m) (\<lambda>(entry, m).
           if entry = 0 then Ret (-1, t, m)
           else fault_if (hash \<ge> length (ht_table t))
             (let m1 = m\<lparr>entries := (entries m)(entry :=
                        \<lparr>he_next = ht_table t ! hash, he_key = key, he_value = v\<rparr>)\<rparr>
              in Ret (0, t\<lparr>ht_table := (ht_table t)[hash := entry]\<rparr>, m1))))"

section \<open>Indices\<close>

definition size_ok :: "u32 \<Rightarrow> bool" where
  "size_ok n \<longleftrightarrow> (\<exists>k < 32. n = 2 ^ k)"

lemma hash_index_bound:
  assumes "size_ok (ht_size t)"
  shows "hash_index t key < unat (ht_size t)"
proof -
  obtain k where k: "k < 32" "ht_size t = 2 ^ k" using assms by (auto simp: size_ok_def)
  have "(2 :: nat) ^ k < 2 ^ 32" using k(1) by (rule power_strict_increasing) simp
  then have "unat (of_nat (2 ^ k) :: u32) = 2 ^ k" by (simp only: unat_of_nat) (simp add: take_bit_nat_eq_self)
  then have u: "unat ((2 :: u32) ^ k) = 2 ^ k" by simp
  have "(2 :: u32) ^ k - 1 = mask k" by (simp add: mask_eq_exp_minus_1)
  then have "(ucast (ht_size t - 1) :: u64) = mask k"
    using k by (intro bit_word_eqI) (auto simp: bit_simps)
  then have "hash_index t key = unat (take_bit k (hash_hash key))"
    by (simp add: hash_index_def take_bit_eq_mask)
  also have "\<dots> < 2 ^ k" by (simp add: unsigned_take_bit_eq)
  finally show ?thesis using k(2) u by simp
qed

section \<open>Buckets as lists\<close>

fun bucket :: "'h hmem \<Rightarrow> ptr \<Rightarrow> ptr list \<Rightarrow> bool" where
  "bucket m p [] \<longleftrightarrow> p = 0"
| "bucket m p (x # xs) \<longleftrightarrow> p = x \<and> x \<noteq> 0 \<and> bucket m (he_next (entries m x)) xs"

definition kv :: "'h hmem \<Rightarrow> ptr \<Rightarrow> u64 \<times> ptr" where
  "kv m x = (he_key (entries m x), he_value (entries m x))"

lemma kv_simps [simp]: "fst (kv m x) = he_key (entries m x)" "snd (kv m x) = he_value (entries m x)"
  by (simp_all add: kv_def)

lemma bucket_cong: "(\<And>x. x \<in> set xs \<Longrightarrow> he_next (entries m' x) = he_next (entries m x)) \<Longrightarrow>
    bucket m' p xs = bucket m p xs"
  by (induction xs arbitrary: p) auto

lemma bucket_head: "bucket m p xs \<Longrightarrow> p = (case xs of [] \<Rightarrow> 0 | x # _ \<Rightarrow> x)"
  by (cases xs) auto

lemma bucket_split: "bucket m p (us @ x # vs) \<Longrightarrow> bucket m (he_next (entries m x)) vs"
  by (induction us arbitrary: p) auto

lemma lookup_loop_eq:
  "bucket m p xs \<Longrightarrow> lookup_loop m key p = Some (case map_of (map (kv m) xs) key of None \<Rightarrow> 0 | Some v \<Rightarrow> v)"
proof (induction xs arbitrary: p)
  case (Cons x xs)
  then show ?case by (subst lookup_loop.simps) simp
qed (simp add: lookup_loop.simps)

text \<open>What removal leaves of a bucket.\<close>

fun del_first :: "'h hmem \<Rightarrow> u64 \<Rightarrow> ptr list \<Rightarrow> ptr list" where
  "del_first m key [] = []"
| "del_first m key (x # xs) = (if he_key (entries m x) = key then xs else x # del_first m key xs)"

lemma del_first_subset: "set (del_first m key xs) \<subseteq> set xs"
  by (induction xs) auto

lemma del_first_distinct: "distinct xs \<Longrightarrow> distinct (del_first m key xs)"
  using del_first_subset by (induction xs) fastforce+

lemma del_first_other: "k \<noteq> key \<Longrightarrow> map_of (map (kv m) (del_first m key xs)) k = map_of (map (kv m) xs) k"
  by (induction xs) auto

lemma del_first_none: "\<forall>x \<in> set xs. he_key (entries m x) \<noteq> key \<Longrightarrow> del_first m key xs = xs"
  by (induction xs) auto

lemma del_first_app:
  "\<forall>x \<in> set us. he_key (entries m x) \<noteq> key \<Longrightarrow> he_key (entries m z) = key \<Longrightarrow>
    del_first m key (us @ z # vs) = us @ vs"
  by (induction us) auto

lemma remove_loop_cases:
  assumes "bucket m p xs" "case xs of [] \<Rightarrow> True | x # _ \<Rightarrow> he_key (entries m x) \<noteq> key"
  obtains (none) "remove_loop m key p = Some None" "\<forall>x \<in> set xs. he_key (entries m x) \<noteq> key"
    | (found) us e z vs where "remove_loop m key p = Some (Some e)" "xs = us @ e # z # vs"
        "he_key (entries m z) = key" "\<forall>x \<in> set (us @ [e]). he_key (entries m x) \<noteq> key"
        "he_next (entries m e) = z"
  using assms
proof (induction xs arbitrary: p thesis)
  case Nil
  then show ?case by (simp add: remove_loop.simps)
next
  case (Cons x xs)
  have x: "p = x" "x \<noteq> 0" "bucket m (he_next (entries m x)) xs" "he_key (entries m x) \<noteq> key"
    using Cons.prems(3,4) by auto
  let ?n = "he_next (entries m x)"
  show ?case
  proof (cases "?n \<noteq> 0 \<and> he_key (entries m ?n) = key")
    case True
    then obtain vs where vs: "xs = ?n # vs" using x(3) by (cases xs) auto
    have "remove_loop m key p = Some (Some x)" using True x by (subst remove_loop.simps) simp
    then show ?thesis
      by (rule Cons.prems(2) [of x "[]" ?n vs]) (use True x vs in auto)
  next
    case False
    have r: "remove_loop m key p = remove_loop m key ?n" using False x by (subst remove_loop.simps) auto
    have c: "case xs of [] \<Rightarrow> True | x # _ \<Rightarrow> he_key (entries m x) \<noteq> key"
      using False x(3) by (cases xs) auto
    show ?thesis
    proof (rule Cons.IH [OF _ _ x(3) c])
      assume "remove_loop m key ?n = Some None" "\<forall>x \<in> set xs. he_key (entries m x) \<noteq> key"
      then show thesis using Cons.prems(1) r x(4) by simp
    next
      fix us e z vs
      assume "remove_loop m key ?n = Some (Some e)" "xs = us @ e # z # vs" "he_key (entries m z) = key"
        "\<forall>x \<in> set (us @ [e]). he_key (entries m x) \<noteq> key" "he_next (entries m e) = z"
      then show thesis using r x(4) by (intro Cons.prems(2) [of e "x # us" z vs]) auto
    qed
  qed
qed

lemma bucket_unlink:
  assumes "bucket m p (us @ e # z # vs)" "distinct (us @ e # z # vs)"
  shows "bucket (m\<lparr>entries := (entries m)(e := (entries m e)\<lparr>he_next := he_next (entries m z)\<rparr>)\<rparr>) p (us @ e # vs)"
  using assms
proof (induction us arbitrary: p)
  case Nil
  define m' where "m' = m\<lparr>entries := (entries m)(e := (entries m e)\<lparr>he_next := he_next (entries m z)\<rparr>)\<rparr>"
  have "bucket m' (he_next (entries m z)) vs = bucket m (he_next (entries m z)) vs"
    by (rule bucket_cong) (use Nil in \<open>auto simp: m'_def\<close>)
  moreover have "he_next (entries m' e) = he_next (entries m z)" by (simp add: m'_def)
  ultimately have "bucket m' p ([] @ e # vs)" using Nil by simp
  then show ?case by (simp only: m'_def)
next
  case (Cons u us)
  have "he_next (((entries m)(e := (entries m e)\<lparr>he_next := he_next (entries m z)\<rparr>)) u) =
      he_next (entries m u)"
    using Cons.prems(2) by auto
  with Cons show ?case by (simp del: fun_upd_apply)
qed

section \<open>The table as a map\<close>

text \<open>\<open>bs\<close> are the entries of each bucket, in order.\<close>

definition hash_ok :: "('h \<Rightarrow> ptr set \<Rightarrow> bool) \<Rightarrow> hashtable \<Rightarrow> 'h hmem \<Rightarrow> ptr list list \<Rightarrow> ptr set \<Rightarrow> bool" where
  "hash_ok heap_ok t m bs L \<longleftrightarrow>
     heap_ok (hheap m) L \<and> size_ok (ht_size t) \<and> length (ht_table t) = unat (ht_size t) \<and>
     length bs = length (ht_table t) \<and> distinct (concat bs) \<and> set (concat bs) \<subseteq> L \<and>
     (\<forall>i < length bs. bucket m (ht_table t ! i) (bs ! i))"

definition binding :: "hashtable \<Rightarrow> 'h hmem \<Rightarrow> ptr list list \<Rightarrow> u64 \<Rightarrow> ptr option" where
  "binding t m bs k = map_of (map (kv m) (bs ! hash_index t k)) k"

lemma hash_okD:
  assumes "hash_ok heap_ok t m bs L"
  shows "heap_ok (hheap m) L" "size_ok (ht_size t)" "length (ht_table t) = unat (ht_size t)"
    "length bs = length (ht_table t)" "distinct (concat bs)" "set (concat bs) \<subseteq> L"
    "i < length bs \<Longrightarrow> bucket m (ht_table t ! i) (bs ! i)" "hash_index t k < length bs"
    "hash_index t k < length (ht_table t)"
  using assms hash_index_bound [of t k] by (auto simp: hash_ok_def)

lemma hash_lookup_eq:
  assumes "hash_ok heap_ok t m bs L"
  shows "hash_lookup t k m = Ret (case binding t m bs k of None \<Rightarrow> 0 | Some v \<Rightarrow> v)"
  using lookup_loop_eq [OF hash_okD(7) [OF assms hash_okD(8) [OF assms]]] hash_okD(9) [OF assms, of k]
  by (simp add: hash_lookup_def binding_def Let_def fault_if_def)

lemma concat_update:
  assumes "i < length bs"
  shows "concat (bs[i := b]) = concat (take i bs) @ b @ concat (drop (Suc i) bs)"
    "concat bs = concat (take i bs) @ bs ! i @ concat (drop (Suc i) bs)"
proof -
  show "concat (bs[i := b]) = concat (take i bs) @ b @ concat (drop (Suc i) bs)"
    using assms by (simp add: upd_conv_take_nth_drop)
  have "concat bs = concat (take i bs @ bs ! i # drop (Suc i) bs)"
    using assms by (simp add: id_take_nth_drop [symmetric])
  then show "concat bs = concat (take i bs) @ bs ! i @ concat (drop (Suc i) bs)" by simp
qed

lemma nth_in_concat: "i < length bs \<Longrightarrow> x \<in> set (bs ! i) \<Longrightarrow> x \<in> set (concat bs)"
  using nth_mem [of i bs] by auto

lemma bucket_of_unique:
  assumes "distinct (concat bs)" "i < length bs" "j < length bs" "i \<noteq> j" "x \<in> set (bs ! i)"
  shows "x \<notin> set (bs ! j)"
proof -
  have "set (bs ! j) \<subseteq> set (concat (take i bs)) \<union> set (concat (drop (Suc i) bs))"
  proof (cases "j < i")
    case True
    then have "bs ! j \<in> set (take i bs)" using assms(2) by (auto simp: in_set_conv_nth)
    then show ?thesis by auto
  next
    case False
    then have "j - Suc i < length (drop (Suc i) bs)" "drop (Suc i) bs ! (j - Suc i) = bs ! j"
      using assms(3,4) by auto
    then have "bs ! j \<in> set (drop (Suc i) bs)" by (metis nth_mem)
    then show ?thesis by auto
  qed
  moreover have "distinct (concat (take i bs) @ bs ! i @ concat (drop (Suc i) bs))"
    using assms(1) concat_update(2) [OF assms(2)] by simp
  ultimately show ?thesis using assms(5) unfolding distinct_append set_append by blast
qed

lemma hash_ok_other_buckets:
  assumes ok: "hash_ok heap_ok t m bs L" and i: "i < length bs"
    and heap: "heap_ok (hheap m') L'" and L': "set (concat (bs[i := b])) \<subseteq> L'" "distinct (concat (bs[i := b]))"
    and b: "bucket m' p b"
    and same: "\<And>j x. j < length bs \<Longrightarrow> j \<noteq> i \<Longrightarrow> x \<in> set (bs ! j) \<Longrightarrow> entries m' x = entries m x"
  shows "hash_ok heap_ok (t\<lparr>ht_table := (ht_table t)[i := p]\<rparr>) m' (bs[i := b]) L'"
proof -
  note D = hash_okD [OF ok]
  have "bucket m' ((ht_table t)[i := p] ! j) (bs[i := b] ! j)" if "j < length bs" for j
  proof (cases "j = i")
    case True
    then show ?thesis using b i D(4) by simp
  next
    case False
    have "bucket m' (ht_table t ! j) (bs ! j) = bucket m (ht_table t ! j) (bs ! j)"
      by (rule bucket_cong) (use same that False in auto)
    then show ?thesis using D(7) [OF that] False by simp
  qed
  then show ?thesis using D heap L' by (simp add: hash_ok_def)
qed

context kernel_heap
begin

lemma entry_request: "unat sizeof_hashentry < heap_limit"
  by (simp add: sizeof_hashentry_def heap_limit_def)

lemma hash_insert_cases:
  assumes ok: "hash_ok heap_ok t m bs L"
  obtains (fail) m' where "hash_insert alloc t k v m = Ret (-1, t, m')" "hash_ok heap_ok t m' bs L"
      "binding t m' bs = binding t m bs"
    | (succ) t' m' bs' L' where "hash_insert alloc t k v m = Ret (0, t', m')" "hash_ok heap_ok t' m' bs' L'"
        "binding t' m' bs' = (binding t m bs)(k \<mapsto> v)"
        "binding t' m' (bs'[hash_index t' k := tl (bs' ! hash_index t' k)]) = binding t m bs"
        "he_key (entries m' (ht_table t' ! hash_index t' k)) = k" "ht_table t' ! hash_index t' k \<noteq> 0"
proof -
  note D = hash_okD [OF ok]
  let ?i = "hash_index t k"
  have i: "?i < length bs" by (rule D(8))
  show thesis
  proof (cases rule: alloc_cases [OF D(1) entry_request, case_names null fresh])
    case (null h)
    let ?m = "m\<lparr>hheap := h\<rparr>"
    have "hash_insert alloc t k v m = Ret (-1, t, ?m)" using null(1) by (simp add: hash_insert_def halloc_def Let_def)
    moreover have "bucket ?m p xs = bucket m p xs" for p xs by (rule bucket_cong) simp
    then have "hash_ok heap_ok t ?m bs L" using ok null(2) by (simp add: hash_ok_def)
    moreover have kv: "kv ?m = kv m" by (auto simp: kv_def)
    have "binding t ?m bs = binding t m bs" by (rule ext) (simp only: binding_def kv)
    ultimately show thesis using fail by blast
  next
    case (fresh e h)
    let ?m = "m\<lparr>hheap := h, entries := (entries m)(e := \<lparr>he_next = ht_table t ! ?i, he_key = k, he_value = v\<rparr>)\<rparr>"
    let ?t = "t\<lparr>ht_table := (ht_table t)[?i := e]\<rparr>"
    let ?bs = "bs[?i := e # bs ! ?i]"
    have e_new: "e \<notin> set (concat bs)" using D(6) fresh(3) by blast
    have same: "entries ?m x = entries m x" if "x \<in> set (concat bs)" for x using that e_new by auto
    have 1: "hash_insert alloc t k v m = Ret (0, ?t, ?m)"
      using fresh(1,2) D(9) [of k] by (simp add: hash_insert_def halloc_def Let_def fault_if_def)
    have "bucket ?m (ht_table t ! ?i) (bs ! ?i) = bucket m (ht_table t ! ?i) (bs ! ?i)"
      by (rule bucket_cong) (use same nth_in_concat [OF i] in auto)
    then have b: "bucket ?m e (e # bs ! ?i)" using D(7) [OF i] fresh(2) by simp
    have 2: "hash_ok heap_ok ?t ?m ?bs (insert e L)"
    proof (rule hash_ok_other_buckets [OF ok i _ _ _ b])
      show "set (concat ?bs) \<subseteq> insert e L" using D(6) concat_update [OF i] by auto
      show "distinct (concat ?bs)" using D(5) e_new concat_update [OF i] by auto
      show "entries ?m x = entries m x" if "j < length bs" "j \<noteq> ?i" "x \<in> set (bs ! j)" for j x
        by (rule same) (rule nth_in_concat [OF that(1,3)])
    qed (use fresh(4) in simp)
    have hi: "hash_index ?t = hash_index t" by (auto simp: hash_index_def)
    have kvs: "map (kv ?m) (bs ! j) = map (kv m) (bs ! j)" if "j < length bs" for j
      using same nth_in_concat [OF that] by (intro map_cong refl) (simp only: kv_def)
    have kve: "kv ?m e = (k, v)" by (simp add: kv_def)
    have 3: "binding ?t ?m ?bs = (binding t m bs)(k \<mapsto> v)"
    proof
      fix k'
      show "binding ?t ?m ?bs k' = ((binding t m bs)(k \<mapsto> v)) k'"
      proof (cases "hash_index t k' = ?i")
        case True
        then have "binding ?t ?m ?bs k' = map_of ((k, v) # map (kv m) (bs ! ?i)) k'"
          using i unfolding binding_def hi by (simp only: True nth_list_update_eq list.map kve kvs [OF i])
        then show ?thesis using True by (simp add: binding_def)
      next
        case False
        then have "?bs ! hash_index t k' = bs ! hash_index t k'" "k' \<noteq> k" by auto
        then have "binding ?t ?m ?bs k' = binding t m bs k'"
          unfolding binding_def hi by (simp only: kvs [OF D(8), of k'])
        then show ?thesis using \<open>k' \<noteq> k\<close> by simp
      qed
    qed
    have 4: "binding ?t ?m (?bs[hash_index ?t k := tl (?bs ! hash_index ?t k)]) = binding t m bs"
    proof
      fix k'
      have "?bs[hash_index ?t k := tl (?bs ! hash_index ?t k)] = bs" using i by (simp add: hi)
      then show "binding ?t ?m (?bs[hash_index ?t k := tl (?bs ! hash_index ?t k)]) k' = binding t m bs k'"
        unfolding binding_def by (simp only: hi kvs [OF D(8), of k'])
    qed
    have 5: "ht_table ?t ! hash_index ?t k = e" using D(9) [of k] by (simp add: hi)
    show thesis by (rule that(2) [OF 1 2 3 4]) (use 5 fresh(2) in simp_all)
  qed
qed

lemma hash_remove_cases:
  assumes ok: "hash_ok heap_ok t m bs L"
  obtains t' m' L' where "hash_remove release t k m = Ret (t', m')"
    "hash_ok heap_ok t' m' (bs[hash_index t k := del_first m k (bs ! hash_index t k)]) L'"
    "\<And>x. x \<in> set (concat bs) \<Longrightarrow> kv m' x = kv m x" "ht_size t' = ht_size t"
proof -
  note D = hash_okD [OF ok]
  let ?i = "hash_index t k"
  let ?b = "bs ! ?i"
  have i: "?i < length bs" by (rule D(8))
  have bk: "bucket m (ht_table t ! ?i) ?b" by (rule D(7) [OF i])
  have db: "distinct ?b" using D(5) concat_update(2) [OF i] by auto
  have subL: "set (concat (bs[?i := b])) \<subseteq> L - {z} \<and> distinct (concat (bs[?i := b]))"
    if "set b \<subseteq> set ?b - {z}" "distinct b" "z \<in> set ?b" for b z
    using that D(5,6) concat_update [OF i] by auto
  show thesis
  proof (cases "ht_table t ! ?i \<noteq> 0 \<and> he_key (entries m (ht_table t ! ?i)) = k")
    case True
    then obtain ys where ys: "?b = ht_table t ! ?i # ys" using bk by (cases ?b) auto
    let ?e = "ht_table t ! ?i"
    have e: "?e \<in> set ?b" using ys by (metis list.set_intros(1))
    obtain h where h: "release ?e (hheap m) = Ret h" "heap_ok h (L - {?e})"
      using release_law [OF D(1)] D(6) nth_in_concat [OF i e] by blast
    let ?m = "m\<lparr>hheap := h\<rparr>"
    have "bucket m (he_next (entries m ?e)) ys" using bk ys by (metis bucket.simps(2))
    moreover have "bucket ?m (he_next (entries m ?e)) ys = bucket m (he_next (entries m ?e)) ys"
      by (rule bucket_cong) simp
    ultimately have b: "bucket ?m (he_next (entries m ?e)) ys" by simp
    have "set ys \<subseteq> set ?b - {?e}" "distinct ys" using db by (auto simp: ys)
    note s = subL [OF this e]
    have 1: "hash_remove release t k m = Ret (t\<lparr>ht_table := (ht_table t)[?i := he_next (entries m ?e)]\<rparr>, ?m)"
      using True h(1) D(9) [of k] by (simp add: hash_remove_def hfree_def Let_def fault_if_def)
    have d: "del_first m k ?b = ys" using ys True by (metis del_first.simps(2))
    have 2: "hash_ok heap_ok (t\<lparr>ht_table := (ht_table t)[?i := he_next (entries m ?e)]\<rparr>) ?m (bs[?i := ys]) (L - {?e})"
      by (rule hash_ok_other_buckets [OF ok i _ _ _ b]) (use h(2) s in auto)
    show thesis by (rule that [OF 1]) (use 2 d in \<open>simp_all add: kv_def\<close>)
  next
    case False
    then have c: "case ?b of [] \<Rightarrow> True | x # _ \<Rightarrow> he_key (entries m x) \<noteq> k" using bk by (cases ?b) auto
    show thesis
    proof (cases rule: remove_loop_cases [OF bk c, case_names none found])
      case none
      have 1: "hash_remove release t k m = Ret (t, m)"
        using False none(1) D(9) [of k] by (auto simp: hash_remove_def Let_def fault_if_def)
      have "bs[?i := del_first m k ?b] = bs" using del_first_none [OF none(2)] by simp
      then show thesis using that [OF 1] ok by simp
    next
      case (found us e z vs)
      let ?m1 = "m\<lparr>entries := (entries m)(e := (entries m e)\<lparr>he_next := he_next (entries m z)\<rparr>)\<rparr>"
      have z: "z \<in> set ?b" "e \<in> set ?b" using found(2) by auto
      obtain h where h: "release z (hheap m) = Ret h" "heap_ok h (L - {z})"
        using release_law [OF D(1)] D(6) nth_in_concat [OF i z(1)] by blast
      let ?m = "?m1\<lparr>hheap := h\<rparr>"
      have "del_first m k ((us @ [e]) @ z # vs) = (us @ [e]) @ vs"
        by (rule del_first_app) (use found(3,4) in auto)
      then have d: "del_first m k ?b = us @ e # vs" using found(2) by simp
      have "bucket ?m1 (ht_table t ! ?i) (us @ e # vs)"
        using bucket_unlink bk db found(2) by metis
      moreover have "bucket ?m p xs = bucket ?m1 p xs" for p xs by (rule bucket_cong) simp
      ultimately have b: "bucket ?m (ht_table t ! ?i) (us @ e # vs)" by blast
      have s: "set (concat (bs[?i := us @ e # vs])) \<subseteq> L - {z} \<and> distinct (concat (bs[?i := us @ e # vs]))"
        by (rule subL [OF _ _ z(1)]) (use db found(2) in auto)
      have same: "entries ?m x = entries m x" if "j < length bs" "j \<noteq> ?i" "x \<in> set (bs ! j)" for j x
        using bucket_of_unique [OF D(5) i that(1) that(2) [symmetric] z(2)] that(3) by auto
      have 2: "hash_ok heap_ok (t\<lparr>ht_table := (ht_table t)[?i := ht_table t ! ?i]\<rparr>) ?m
          (bs[?i := us @ e # vs]) (L - {z})"
        by (rule hash_ok_other_buckets [OF ok i _ _ _ b same]) (use h(2) s in auto)
      have 1: "hash_remove release t k m = Ret (t, ?m)"
        using False found(1,5) h(1) D(9) [of k]
        by (auto simp: hash_remove_def hfree_def Let_def fault_if_def)
      show thesis by (rule that [OF 1]) (use 2 d in \<open>simp_all add: kv_def\<close>)
    qed
  qed
qed

end

section \<open>Properties\<close>

text \<open>A table over the kernel heap, its buckets and the blocks in use left implicit.\<close>

definition table_ok :: "u64 \<Rightarrow> hashtable \<Rightarrow> heap hmem \<Rightarrow> bool" where
  "table_ok ps t m \<longleftrightarrow> (\<exists>bs L. hash_ok (kr_ok ps) t m bs L)"



text \<open>\<open>hash_init\<close> accepts the size 0, which is not a power of two, and every look-up in the table
  it returns reads outside the bucket array.\<close>

theorem hash_size_zero_faults:
  assumes "hash_init alloc release 0 m = Ret ((p, Some t), m')"
  shows "hash_lookup t k m'' = Fault"
  using assms
  by (auto simp: hash_init_def halloc_def hash_lookup_def panic_if_def Let_def fault_if_def
      split: if_splits)

theorem hash_size_zero_faults_witness:
  "\<exists>t m'. hash_init (\<lambda>n h. Ret (h, h + 64)) (\<lambda>p h. Ret h) 0
      \<lparr>hheap = 64, entries = (\<lambda>_. \<lparr>he_next = 0, he_key = 0, he_value = 0\<rparr>)\<rparr> = Ret ((64, Some t), m') \<and>
    hash_lookup t 7 m' = Fault"
proof -
  let ?m = "\<lparr>hheap = 64 :: nat, entries = (\<lambda>_. \<lparr>he_next = 0, he_key = 0, he_value = 0\<rparr>)\<rparr>"
  have i: "hash_init (\<lambda>n h. Ret (h, h + 64)) (\<lambda>p h. Ret h) 0 ?m =
     Ret ((64, Some \<lparr>ht_array = 128, ht_table = [], ht_size = 0, ht_spares = 0\<rparr>), ?m\<lparr>hheap := 192\<rparr>)"
    by (simp add: hash_init_def halloc_def)
  from i hash_size_zero_faults [OF i, of 7 "?m\<lparr>hheap := 192\<rparr>"] show ?thesis by blast
qed

definition sample_table :: hashtable where
  "sample_table = \<lparr>ht_array = 0x10010, ht_table = [0, 0, 0, 0], ht_size = 4, ht_spares = 0\<rparr>"

definition sample_hmem :: "heap hmem" where
  "sample_hmem = \<lparr>hheap = sample_init, entries = (\<lambda>_. \<lparr>he_next = 0, he_key = 0, he_value = 0\<rparr>)\<rparr>"

lemma sample_table_ok: "table_ok 0x1000 sample_table sample_hmem"
proof -
  have "size_ok 4" unfolding size_ok_def by (rule exI [of _ 2]) simp
  moreover have "bucket sample_hmem ([0, 0, 0, 0] ! i) ([[], [], [], []] ! i)" if "i < 4" for i
    using that by (auto simp: less_Suc_eq numeral_eq_Suc)
  ultimately have "hash_ok (kr_ok 0x1000) sample_table sample_hmem [[], [], [], []] {}"
    using sample_ok by (simp add: hash_ok_def sample_table_def sample_hmem_def)
  then show ?thesis unfolding table_ok_def by blast
qed


lemma sample_insert:
  "\<exists>t1 m1. hash_insert (sys_alloc 1 (\<lambda>_ _. 0) 0x1000) sample_table 5 0x77 sample_hmem = Ret (0, t1, m1)"
proof -
  obtain bs L where ok: "hash_ok (kr_ok 0x1000) sample_table sample_hmem bs L"
    using sample_table_ok by (auto simp: table_ok_def)
  have i: "hash_index sample_table 5 < length (ht_table sample_table)" by (rule hash_okD(9) [OF ok])
  obtain p h where "sys_alloc 1 (\<lambda>_ _. 0) 0x1000 24 sample_init = Ret (p, h)"
    using kr.alloc_returns [OF sample_ok, of 24 1 "\<lambda>_ _. 0"] by (auto simp: heap_limit_def)
  then show ?thesis using sample_node_ptr i
    by (auto simp: hash_insert_def halloc_def sample_hmem_def sizeof_hashentry_def Let_def fault_if_def)
qed


end
