(* ===== verification/Bit_Freelist.thy ===== *)
theory Bit_Freelist
  imports Interfaces
begin

unbundle bit_operations_syntax

text \<open>
  The bit map free list of \<open>sys/sys_bfl.c\<close>, from which a protection domain takes the numbers of its
  UTCB slots. A set bit is a free number. The record is \<open>struct bfl\<close> of
  \<open>include/freevms/sys_thread.h\<close> without its unused \<open>array_size\<close>. The lemmas show that the list is
  a pool of identifiers that always hands out the least free number.
\<close>

section \<open>The model\<close>

record bfl =
  curpos :: u32
  len :: u32
  bitarray :: "u64 list"

text \<open>The loop of \<open>find_first_set\<close>; the first argument is the number of rounds left.\<close>

fun find_first_set_loop :: "nat \<Rightarrow> u64 \<Rightarrow> nat \<Rightarrow> int" where
  "find_first_set_loop 0 x ret = -1"
| "find_first_set_loop (Suc n) x ret =
     (if x AND 1 \<noteq> 0 then int ret else find_first_set_loop n (drop_bit 1 x) (ret + 1))"

definition find_first_set :: "u64 \<Rightarrow> int" where
  "find_first_set x = find_first_set_loop 64 x 0"

definition sys_bfl_free :: "bfl \<Rightarrow> u64 \<Rightarrow> bfl outcome" where
  "sys_bfl_free b val =
     (let idx = val div 64
      in panic_if (idx \<ge> ucast (len b))
           (fault_if (unat idx \<ge> length (bitarray b))
             (Ret (b\<lparr>bitarray := (bitarray b)
                [unat idx := bitarray b ! unat idx OR push_bit (unat (val mod 64)) 1]\<rparr>))))"

text \<open>The loop of \<open>sys$bfl_new\<close> that frees \<open>0, \<dots>, size - 1\<close>; \<open>n\<close> is the number of rounds left.\<close>

fun bfl_free_loop :: "nat \<Rightarrow> u64 \<Rightarrow> bfl \<Rightarrow> bfl outcome" where
  "bfl_free_loop 0 i b = Ret b"
| "bfl_free_loop (Suc n) i b = bindo (sys_bfl_free b i) (bfl_free_loop n (i + 1))"

text \<open>\<open>mem\<close> is the pointer \<open>sys$alloc\<close> returned for the header and the bit array.\<close>

definition sys_bfl_new :: "u64 \<Rightarrow> u64 \<Rightarrow> bfl option outcome" where
  "sys_bfl_new mem sz =
     (let array_size = sz div 64 + 1
      in if mem = 0 then Ret None
         else bindo (bfl_free_loop (unat sz) 0
                \<lparr>curpos = 0, len = ucast array_size,
                 bitarray = replicate (unat array_size) 0\<rparr>) (\<lambda>b. Ret (Some b)))"

text \<open>The scan for a word that is not 0, from index \<open>i\<close> up to but not including \<open>stop\<close>.\<close>

fun bfl_scan :: "u64 list \<Rightarrow> nat \<Rightarrow> nat \<Rightarrow> nat option" where
  "bfl_scan arr i 0 = None"
| "bfl_scan arr i (Suc n) =
     (if arr ! i \<noteq> 0 then Some i else bfl_scan arr (Suc i) n)"

text \<open>\<open>sys$bfl_alloc\<close>. The code's test \<open>bfl->bitarray == 0\<close> compares the address of the array, which
  is never null, so \<open>curpos\<close> is never advanced.\<close>

definition sys_bfl_alloc :: "bfl \<Rightarrow> (u64 \<times> bfl) outcome" where
  "sys_bfl_alloc b =
     (let cp = unat (curpos b); l = unat (len b)
      in case (case bfl_scan (bitarray b) cp (l - cp) of
                 Some i \<Rightarrow> Some i
               | None \<Rightarrow> bfl_scan (bitarray b) 0 cp) of
           None \<Rightarrow> Ret (-1, b)
         | Some i \<Rightarrow>
             fault_if (i \<ge> length (bitarray b))
               (let pos = (of_int (find_first_set (bitarray b ! i)) :: u32);
                    w = bitarray b ! i AND NOT (push_bit (unat pos) 1)
                in Ret (ucast (of_nat i * 64 + pos :: u32), b\<lparr>bitarray := (bitarray b)[i := w]\<rparr>)))"

section \<open>Free numbers\<close>

definition free_bit :: "u64 list \<Rightarrow> nat \<Rightarrow> bool" where
  "free_bit arr n \<longleftrightarrow> n div 64 < length arr \<and> bit (arr ! (n div 64)) (n mod 64)"

definition bfl_ok :: "bfl \<Rightarrow> bool" where
  "bfl_ok b \<longleftrightarrow> curpos b = 0 \<and> unat (len b) = length (bitarray b) \<and> length (bitarray b) < 2 ^ 26"

definition bfl_avail :: "bfl \<Rightarrow> u64 set" where
  "bfl_avail b = {i. free_bit (bitarray b) (unat i)}"

lemma ffs_loop_spec:
  assumes "bit x k" "\<And>i. i < k \<Longrightarrow> \<not> bit x i" "k < n"
  shows "find_first_set_loop n x r = int (r + k)"
  using assms
proof (induction n x r arbitrary: k rule: find_first_set_loop.induct)
  case (2 n x r)
  show ?case
  proof (cases k)
    case 0
    with "2.prems"(1) show ?thesis by (simp add: and_one_eq bit_0 mod_2_eq_odd)
  next
    case (Suc m)
    then have "\<not> bit x 0" using "2.prems"(2) by blast
    then have z: "\<not> x AND 1 \<noteq> 0" by (simp add: and_one_eq bit_0 mod_2_eq_odd)
    have "find_first_set_loop n (drop_bit 1 x) (r + 1) = int (r + 1 + m)"
    proof (rule "2.IH" [OF z])
      show "bit (drop_bit 1 x) m" using "2.prems"(1) Suc by (simp add: bit_simps)
      show "\<And>i. i < m \<Longrightarrow> \<not> bit (drop_bit 1 x) i"
        using "2.prems"(2) Suc by (simp add: bit_simps)
      show "m < n" using "2.prems"(3) Suc by simp
    qed
    then show ?thesis using Suc by (simp only: find_first_set_loop.simps z if_False)
  qed
qed simp

lemma find_first_set_Least:
  assumes "(x :: u64) \<noteq> 0"
  shows "find_first_set x = int (LEAST k. bit x k)" "bit x (LEAST k. bit x k)"
    "(LEAST k. bit x k) < 64"
proof -
  obtain m where m: "bit x m" using assms by (auto simp: bit_eq_iff)
  then show b: "bit x (LEAST k. bit x k)" by (rule LeastI)
  then show lt: "(LEAST k. bit x k) < 64"
    using bit_imp_le_length [OF b] by simp
  have "find_first_set_loop 64 x 0 = int (0 + (LEAST k. bit x k))"
    by (rule ffs_loop_spec [OF b _ lt]) (rule not_less_Least)
  then show "find_first_set x = int (LEAST k. bit x k)"
    by (simp only: find_first_set_def add_0)
qed

lemma bfl_scan_None: "bfl_scan arr i n = None \<longleftrightarrow> (\<forall>j. i \<le> j \<and> j < i + n \<longrightarrow> arr ! j = 0)"
proof (induction arr i n rule: bfl_scan.induct)
  case (2 arr i n)
  show ?case
  proof (cases "arr ! i = 0")
    case True
    with 2 have "bfl_scan arr i (Suc n) = None \<longleftrightarrow>
        (\<forall>j. Suc i \<le> j \<and> j < Suc i + n \<longrightarrow> arr ! j = 0)" by simp
    also have "\<dots> \<longleftrightarrow> (\<forall>j. i \<le> j \<and> j < i + Suc n \<longrightarrow> arr ! j = 0)"
      using True by (metis Suc_leD Suc_leI add_Suc add_Suc_right le_neq_implies_less)
    finally show ?thesis .
  next
    case False
    then show ?thesis by auto
  qed
qed auto

lemma bfl_scan_Some:
  "bfl_scan arr i n = Some k \<Longrightarrow>
    i \<le> k \<and> k < i + n \<and> arr ! k \<noteq> 0 \<and> (\<forall>j. i \<le> j \<and> j < k \<longrightarrow> arr ! j = 0)"
proof (induction arr i n rule: bfl_scan.induct)
  case (2 arr i n)
  show ?case
  proof (cases "arr ! i = 0")
    case True
    with 2 have IH: "Suc i \<le> k \<and> k < Suc i + n \<and> arr ! k \<noteq> 0 \<and>
        (\<forall>j. Suc i \<le> j \<and> j < k \<longrightarrow> arr ! j = 0)" by simp
    then have "\<forall>j. i \<le> j \<and> j < k \<longrightarrow> arr ! j = 0"
      using True by (metis Suc_leI le_neq_implies_less)
    with IH show ?thesis by auto
  next
    case False
    with "2.prems" show ?thesis by auto
  qed
qed simp

lemma free_bit_split: "i < length arr \<Longrightarrow> k < 64 \<Longrightarrow> free_bit arr (i * 64 + k) \<longleftrightarrow> bit (arr ! i) k"
  by (simp add: free_bit_def)

lemma free_bit_bound: "free_bit arr n \<Longrightarrow> n < length arr * 64"
  by (auto simp: free_bit_def)

lemma free_bit_clear:
  assumes "i < length arr" "k < 64"
  shows "free_bit (arr[i := arr ! i AND NOT (push_bit k 1)]) n \<longleftrightarrow> free_bit arr n \<and> n \<noteq> i * 64 + k"
proof (cases "n div 64 = i")
  case True
  have "n = i * 64 + k \<longleftrightarrow> n mod 64 = k" using True div_mult_mod_eq [of n 64] by linarith
  then show ?thesis
    using True assms by (auto simp: free_bit_def bit_simps)
next
  case False
  then have "n \<noteq> i * 64 + k" using assms(2) by auto
  with False show ?thesis by (simp add: free_bit_def)
qed

lemma free_bit_set:
  assumes "i < length arr" "k < 64"
  shows "free_bit (arr[i := arr ! i OR push_bit k 1]) n \<longleftrightarrow> free_bit arr n \<or> n = i * 64 + k"
proof (cases "n div 64 = i")
  case True
  have "n = i * 64 + k \<longleftrightarrow> n mod 64 = k" using True div_mult_mod_eq [of n 64] by linarith
  then show ?thesis
    using True assms by (auto simp: free_bit_def bit_simps)
next
  case False
  then have "n \<noteq> i * 64 + k" using assms(2) by auto
  with False show ?thesis by (simp add: free_bit_def)
qed

lemma slot_no_wrap:
  assumes "i < 2 ^ 26" "k < 64"
  shows "unat (ucast (of_nat i * 64 + of_int (int k) :: u32) :: u64) = i * 64 + k"
proof -
  have "i * 64 + k < 2 ^ 32" using assms by simp
  moreover have "(of_nat i * 64 + of_int (int k) :: u32) = of_nat (i * 64 + k)" by simp
  ultimately show ?thesis
    by (simp only: unsigned_ucast_eq unat_of_nat) (simp add: take_bit_eq_mod)
qed

text \<open>\<open>sys$bfl_alloc\<close> on every branch: the least free number, or -1.\<close>

lemma bfl_alloc_none:
  assumes "bfl_ok b" "\<forall>n. \<not> free_bit (bitarray b) n"
  shows "sys_bfl_alloc b = Ret (-1, b)"
proof -
  have "bitarray b ! i = 0" if "i < length (bitarray b)" for i
  proof (rule bit_word_eqI)
    fix k assume "k < LENGTH(64)"
    then have "k < 64" by simp
    with free_bit_split [OF that this] assms(2) show "bit (bitarray b ! i) k \<longleftrightarrow> bit 0 k" by simp
  qed
  with assms(1) have "bfl_scan (bitarray b) 0 (unat (len b)) = None"
    by (auto simp: bfl_scan_None bfl_ok_def)
  with assms(1) show ?thesis by (simp add: sys_bfl_alloc_def bfl_ok_def)
qed

lemma bfl_alloc_some:
  assumes ok: "bfl_ok b" and ex: "free_bit (bitarray b) m"
  obtains n b' where "sys_bfl_alloc b = Ret (n, b')" "unat n = (LEAST n. free_bit (bitarray b) n)"
    "bfl_ok b'" "\<And>i. free_bit (bitarray b') i \<longleftrightarrow> free_bit (bitarray b) i \<and> i \<noteq> unat n"
proof -
  let ?arr = "bitarray b"
  have l: "curpos b = 0" "unat (len b) = length ?arr" "length ?arr < 2 ^ 26"
    using ok by (auto simp: bfl_ok_def)
  have "?arr ! (m div 64) \<noteq> 0" "m div 64 < length ?arr"
    using ex by (auto simp: free_bit_def)
  then obtain i where i: "bfl_scan ?arr 0 (length ?arr) = Some i"
    by (cases "bfl_scan ?arr 0 (length ?arr)") (auto simp: bfl_scan_None)
  note sc = bfl_scan_Some [OF i]
  let ?k = "LEAST k. bit (?arr ! i) k"
  have k: "find_first_set (?arr ! i) = int ?k" "bit (?arr ! i) ?k" "?k < 64"
    using find_first_set_Least sc by auto
  have il: "i < length ?arr" using sc by simp
  have u: "unat (ucast (of_nat i * 64 + of_int (int ?k) :: u32) :: u64) = i * 64 + ?k"
    using slot_no_wrap [of i ?k] il l(3) k(3) by simp
  have pos: "unat (of_int (int ?k) :: u32) = ?k" using k(3) by (simp add: unat_of_nat)
  let ?b' = "b\<lparr>bitarray := ?arr[i := ?arr ! i AND NOT (push_bit ?k 1)]\<rparr>"
  have "sys_bfl_alloc b = Ret (ucast (of_nat i * 64 + of_int (int ?k) :: u32), ?b')"
    using i il l(1,2) pos unfolding sys_bfl_alloc_def by (simp add: k(1) Let_def)
  moreover have "(LEAST n. free_bit ?arr n) = i * 64 + ?k"
  proof (rule Least_equality)
    show "free_bit ?arr (i * 64 + ?k)" using free_bit_split [OF il k(3)] k(2) by simp
  next
    fix n assume n: "free_bit ?arr n"
    then have "?arr ! (n div 64) \<noteq> 0" "n div 64 < length ?arr" by (auto simp: free_bit_def)
    then have "i \<le> n div 64" using sc by (metis linorder_not_less zero_le)
    moreover have "?k \<le> n mod 64" if "n div 64 = i"
      using n that by (intro Least_le) (simp add: free_bit_def)
    ultimately show "i * 64 + ?k \<le> n"
      using k(3) div_mult_mod_eq [of n 64] by (cases "n div 64 = i") linarith+
  qed
  moreover have "bfl_ok ?b'" using l by (simp add: bfl_ok_def)
  ultimately show ?thesis
    using that [of "ucast (of_nat i * 64 + of_int (int ?k) :: u32)" ?b'] u
      free_bit_clear [OF il k(3)] by simp
qed

lemma unat_len_u64: "bfl_ok b \<Longrightarrow> unat (ucast (len b) :: u64) = length (bitarray b)"
  by (simp add: bfl_ok_def unsigned_ucast_eq take_bit_nat_eq_self)

lemma bfl_free_spec:
  assumes "bfl_ok b"
  shows "sys_bfl_free b v =
    (if unat v div 64 \<ge> length (bitarray b) then Panic
     else Ret (b\<lparr>bitarray := (bitarray b)[unat v div 64 :=
            bitarray b ! (unat v div 64) OR push_bit (unat v mod 64) 1]\<rparr>))"
proof -
  have "unat (v div 64) = unat v div 64" "unat (v mod 64) = unat v mod 64"
    by (simp_all add: unat_div unat_mod)
  moreover have "v div 64 \<ge> ucast (len b) \<longleftrightarrow> unat v div 64 \<ge> length (bitarray b)"
    using unat_len_u64 [OF assms] by (simp add: word_le_nat_alt unat_div)
  ultimately show ?thesis by (simp add: sys_bfl_free_def Let_def panic_if_def fault_if_def)
qed

lemma bfl_free_ok:
  assumes "bfl_ok b" "unat v < length (bitarray b) * 64"
  obtains b' where "sys_bfl_free b v = Ret b'" "bfl_ok b'"
    "length (bitarray b') = length (bitarray b)"
    "\<And>i. free_bit (bitarray b') i \<longleftrightarrow> free_bit (bitarray b) i \<or> i = unat v"
proof -
  have lt: "unat v div 64 < length (bitarray b)" using assms(2) by (simp add: less_mult_imp_div_less)
  let ?b = "b\<lparr>bitarray := (bitarray b)[unat v div 64 :=
            bitarray b ! (unat v div 64) OR push_bit (unat v mod 64) 1]\<rparr>"
  have "sys_bfl_free b v = Ret ?b" using bfl_free_spec [OF assms(1), of v] lt by simp
  moreover have "bfl_ok ?b" using assms(1) by (simp add: bfl_ok_def)
  ultimately show ?thesis
    using that [of ?b] free_bit_set [OF lt, of "unat v mod 64"] by simp
qed

lemma bfl_free_loop_ok:
  assumes "bfl_ok b" "unat i + n \<le> length (bitarray b) * 64"
  shows "\<exists>b'. bfl_free_loop n i b = Ret b' \<and> bfl_ok b' \<and>
    (\<forall>k. free_bit (bitarray b') k \<longleftrightarrow> free_bit (bitarray b) k \<or> unat i \<le> k \<and> k < unat i + n)"
  using assms
proof (induction n i b rule: bfl_free_loop.induct)
  case (2 n i b)
  have len: "length (bitarray b) < 2 ^ 26" using "2.prems"(1) by (simp add: bfl_ok_def)
  have lt: "unat i < length (bitarray b) * 64" using "2.prems"(2) by simp
  obtain b1 where b1: "sys_bfl_free b i = Ret b1" "bfl_ok b1"
    "length (bitarray b1) = length (bitarray b)"
    "\<And>k. free_bit (bitarray b1) k \<longleftrightarrow> free_bit (bitarray b) k \<or> k = unat i"
    by (rule bfl_free_ok [OF "2.prems"(1) lt]) blast
  have u: "unat (i + 1) = Suc (unat i)"
    using lt len unat_add_no_wrap [of i 1] by simp
  have "\<exists>b'. bfl_free_loop n (i + 1) b1 = Ret b' \<and> bfl_ok b' \<and>
    (\<forall>k. free_bit (bitarray b') k \<longleftrightarrow>
       free_bit (bitarray b1) k \<or> unat (i + 1) \<le> k \<and> k < unat (i + 1) + n)"
    by (rule "2.IH" [OF b1(2)]) (use "2.prems"(2) b1(3) u in simp)
  then show ?case using b1(1,4) u by (auto simp: le_eq_less_or_eq)
qed auto

lemma bfl_new_ok:
  assumes "mem \<noteq> 0" "unat sz < 2 ^ 31"
  obtains b where "sys_bfl_new mem sz = Ret (Some b)" "bfl_ok b"
    "\<And>k. free_bit (bitarray b) k \<longleftrightarrow> k < unat sz"
proof -
  let ?n = "unat sz div 64 + 1"
  have d: "unat (sz div 64 + 1) = ?n"
    using assms(2) unat_add_no_wrap [of "sz div 64" 1] by (simp add: unat_div)
  let ?b = "\<lparr>curpos = 0, len = ucast (sz div 64 + 1), bitarray = replicate ?n (0 :: u64)\<rparr>"
  have ln: "?n < 2 ^ 26" using assms(2) by simp
  have "unat (ucast (sz div 64 + 1) :: u32) = ?n"
    using d ln by (simp add: unsigned_ucast_eq take_bit_nat_eq_self)
  then have ok: "bfl_ok ?b" using ln by (simp only: bfl_ok_def bfl.simps length_replicate)
  have nf: "\<not> free_bit (bitarray ?b) k" for k
    by (simp add: free_bit_def del: replicate_Suc)
  have "unat (0 :: u64) + unat sz \<le> length (bitarray ?b) * 64" by simp
  from bfl_free_loop_ok [OF ok this] nf obtain b' where
    "bfl_free_loop (unat sz) 0 ?b = Ret b'" "bfl_ok b'"
    "\<forall>k. free_bit (bitarray b') k \<longleftrightarrow> k < unat sz" by auto
  then show ?thesis using that [of b'] assms(1) d
    by (simp add: sys_bfl_new_def Let_def bindo_def)
qed

section \<open>The bit map as a pool of identifiers\<close>

lemma unat_inject_iff: "unat a = unat b \<longleftrightarrow> a = b" for a b :: u64
  by (simp add: word_unat_eq_iff)

definition bfl_give :: "u64 \<Rightarrow> bfl \<Rightarrow> bfl outcome" where
  "bfl_give i b = sys_bfl_free b i"

lemma in_bfl_avail: "i \<in> bfl_avail b \<longleftrightarrow> free_bit (bitarray b) (unat i)"
  by (simp add: bfl_avail_def)

lemma bfl_avail_bound:
  assumes "bfl_ok b" "free_bit (bitarray b) n"
  shows "n < 2 ^ 32"
  using free_bit_bound [OF assms(2)] assms(1) by (simp add: bfl_ok_def)

lemma bfl_avail_empty:
  assumes "bfl_ok b" "bfl_avail b = {}"
  shows "\<not> free_bit (bitarray b) n"
proof
  assume n: "free_bit (bitarray b) n"
  then have "unat (of_nat n :: u64) = n"
    using bfl_avail_bound [OF assms(1) n] by (simp add: unat_of_nat take_bit_nat_eq_self)
  with n have "of_nat n \<in> bfl_avail b" by (simp add: in_bfl_avail)
  with assms(2) show False by simp
qed

interpretation bfl: id_pool bfl_ok bfl_avail sys_bfl_alloc bfl_give
proof
  fix b assume "bfl_ok b" "bfl_avail b = {}"
  then show "\<exists>s'. sys_bfl_alloc b = Ret (no_id, s') \<and> bfl_ok s' \<and> bfl_avail s' = {}"
    using bfl_alloc_none bfl_avail_empty by (metis no_id_def)
next
  fix b i b' assume b: "bfl_ok b" "bfl_avail b \<noteq> {}" "sys_bfl_alloc b = Ret (i, b')"
  then obtain j :: u64 where "free_bit (bitarray b) (unat j)" by (auto simp: in_bfl_avail)
  from bfl_alloc_some [OF b(1) this] obtain n b2 where n: "sys_bfl_alloc b = Ret (n, b2)"
    "unat n = (LEAST n. free_bit (bitarray b) n)" "bfl_ok b2"
    "\<And>i. free_bit (bitarray b2) i \<longleftrightarrow> free_bit (bitarray b) i \<and> i \<noteq> unat n" by metis
  have "free_bit (bitarray b) (unat n)"
    using \<open>free_bit (bitarray b) (unat j)\<close> n(2) by (metis LeastI)
  moreover have "i = n" "b' = b2" using b(3) n(1) by simp_all
  ultimately show "i \<in> bfl_avail b \<and> bfl_avail b' = bfl_avail b - {i} \<and> bfl_ok b'"
    using n(3,4) unat_inject_iff [of _ n] unfolding bfl_avail_def by blast
next
  fix b i b' assume b: "bfl_ok b" "i \<notin> bfl_avail b" "bfl_give i b = Ret b'"
  then have "unat i div 64 < length (bitarray b)"
    by (auto simp: bfl_give_def bfl_free_spec split: if_splits)
  then have "unat i < length (bitarray b) * 64" by (simp add: div_less_iff_less_mult)
  from bfl_free_ok [OF b(1) this] b(3) have "bfl_ok b'"
    "\<And>k. free_bit (bitarray b') k \<longleftrightarrow> free_bit (bitarray b) k \<or> k = unat i"
    unfolding bfl_give_def by auto
  then show "bfl_ok b' \<and> (bfl_avail b' = bfl_avail b \<or> bfl_avail b' = insert i (bfl_avail b))"
    using unat_inject_iff [of _ i] unfolding bfl_avail_def by blast
next
  fix b :: bfl assume "bfl_ok b"
  then show "no_id \<notin> bfl_avail b"
    using bfl_avail_bound [of b "unat no_id"] by (auto simp: in_bfl_avail)
qed

section \<open>Properties\<close>

text \<open>\<open>sys$bfl_alloc\<close> on a well-formed list hands out the least free number, which is then no
  longer free while all other numbers keep their state; it returns -1 and changes nothing exactly
  when no number is free.\<close>

theorem bfl_alloc_least:
  assumes "bfl_ok b"
  shows "\<exists>n b'. sys_bfl_alloc b = Ret (n, b') \<and> bfl_ok b' \<and>
    (if bfl_avail b = {} then n = -1 \<and> b' = b
     else n \<in> bfl_avail b \<and> (\<forall>m \<in> bfl_avail b. n \<le> m) \<and> bfl_avail b' = bfl_avail b - {n})"
proof (cases "bfl_avail b = {}")
  case True
  then show ?thesis using bfl_alloc_none [OF assms] bfl_avail_empty [OF assms] assms by simp
next
  case False
  then obtain j :: u64 where j: "free_bit (bitarray b) (unat j)" by (auto simp: in_bfl_avail)
  from bfl_alloc_some [OF assms j] obtain n b2 where n: "sys_bfl_alloc b = Ret (n, b2)"
    "unat n = (LEAST n. free_bit (bitarray b) n)" by metis
  have "n \<le> m" if "m \<in> bfl_avail b" for m
    using that n(2) Least_le [of "free_bit (bitarray b)" "unat m"]
    by (simp add: word_le_nat_alt in_bfl_avail)
  with n(1) bfl.take_some [OF assms False n(1)] False show ?thesis by auto
qed

theorem bfl_alloc_least_witness:
  "\<exists>n b'. sys_bfl_alloc \<lparr>curpos = 0, len = 2, bitarray = [0, 6]\<rparr> = Ret (n, b') \<and> n = 65"
proof -
  have f: "bfl_ok \<lparr>curpos = 0, len = 2, bitarray = [0, 6]\<rparr>" by (simp add: bfl_ok_def)
  have "sys_bfl_alloc \<lparr>curpos = 0, len = 2, bitarray = [0, 6]\<rparr> =
      Ret (65, \<lparr>curpos = 0, len = 2, bitarray = [0, 4]\<rparr>)" by code_simp
  with bfl_alloc_least [OF f] show ?thesis by blast
qed

text \<open>\<open>sys$bfl_new\<close> of any size below \<open>2\<^sup>3\<^sup>1\<close> succeeds when its memory was allocated: the free
  numbers of the new list are exactly those below the size. Without memory it returns no list.\<close>

theorem bfl_new_free_set:
  assumes "unat sz < 2 ^ 31"
  shows "if mem = 0 then sys_bfl_new mem sz = Ret None
    else \<exists>b. sys_bfl_new mem sz = Ret (Some b) \<and> bfl_ok b \<and> bfl_avail b = {i. i < sz}"
proof (cases "mem = 0")
  case False
  from bfl_new_ok [OF False assms] obtain b where
    "sys_bfl_new mem sz = Ret (Some b)" "bfl_ok b" "\<And>k. free_bit (bitarray b) k \<longleftrightarrow> k < unat sz"
    by metis
  with False show ?thesis by (simp add: bfl_avail_def word_less_nat_alt)
qed (simp add: sys_bfl_new_def)

theorem bfl_new_free_set_witness:
  "\<exists>b. sys_bfl_new 0x1000 70 = Ret (Some b) \<and> bfl_ok b \<and> bfl_avail b = {i. i < 70}"
  using bfl_new_free_set [of 70 "0x1000"] by simp

text \<open>In any run of takes and frees in which a protection domain frees only the slots it holds,
  \<open>sys$bfl_alloc\<close> never hands out a slot that is held already.\<close>

theorem bfl_no_double_alloc:
  assumes "bfl_ok b\<^sub>0" "bfl.client b\<^sub>0 {} b H" "sys_bfl_alloc b = Ret (i, b')" "i \<noteq> no_id"
  shows "i \<notin> H"
  using bfl.taken_not_held [OF assms(2,1) _ _ assms(3,4)] by simp

theorem bfl_no_double_alloc_witness:
  "\<exists>b b'. bfl.client \<lparr>curpos = 0, len = 1, bitarray = [6]\<rparr> {} b {1} \<and>
     sys_bfl_alloc b = Ret (2, b') \<and> 2 \<notin> ({1} :: u64 set)"
proof -
  let ?b0 = "\<lparr>curpos = 0, len = 1, bitarray = [6]\<rparr>"
  let ?b1 = "\<lparr>curpos = 0, len = 1, bitarray = [4]\<rparr>"
  have ok: "bfl_ok ?b0" by (simp add: bfl_ok_def)
  have "sys_bfl_alloc ?b0 = Ret (1, ?b1)" by code_simp
  then have c: "bfl.client ?b0 {} ?b1 {1}"
    using bfl.client.take [OF bfl.client.start, of ?b0 1 ?b1 "{}"] by (simp add: no_id_def)
  have a: "sys_bfl_alloc ?b1 = Ret (2, \<lparr>curpos = 0, len = 1, bitarray = [0]\<rparr>)" by code_simp
  have "2 \<noteq> no_id" by (simp add: no_id_def)
  from c a bfl_no_double_alloc [OF ok c a this] show ?thesis by blast
qed

end
