(* ===== verification/Page_Math.thy ===== *)
theory Page_Math
  imports L4_Types
begin

unbundle bit_operations_syntax

text \<open>
  The address arithmetic of \<open>sys/sys_alloc.c\<close>: page size discovery (\<open>vms$min_pagebits\<close>,
  \<open>vms$min_pagesize\<close>), page rounding, the largest flexpage that fits a range
  (\<open>sys$biggest_fpage\<close>), orders and buddies. The number of page bits is computed once from the
  kernel interface page and cached in a static variable; the other definitions take it as the
  argument \<open>pb\<close>. A shift by 64 or more is undefined in C; in the model it yields 0, and the lemmas
  are stated where it does not happen.
\<close>

section \<open>Page size\<close>

text \<open>The loop of \<open>vms$min_pagebits\<close>: its guard \<open>bits < L4_SIZEOFWORD\<close> reads a variable that no
  statement changes, so it never ends the loop; \<open>None\<close> is the loop that does not end.\<close>

partial_function (option) min_pagebits_loop :: "u64 \<Rightarrow> nat \<Rightarrow> nat option" where
  "min_pagebits_loop x min_pagebits =
     (if x AND 1 \<noteq> 0 then Some min_pagebits
      else min_pagebits_loop (drop_bit 1 x) (min_pagebits + 1))"

text \<open>\<open>page_size_mask\<close> is \<open>L4_PageSizeMask(L4_GetKernelInterface())\<close> and \<open>cached\<close> the static
  variable \<open>min_pagebits\<close>, whose new value is also the result.\<close>

definition vms_min_pagebits :: "u64 \<Rightarrow> nat \<Rightarrow> nat option" where
  "vms_min_pagebits page_size_mask cached =
     (if cached = 0 then min_pagebits_loop page_size_mask 0 else Some cached)"

definition vms_min_pagesize :: "nat \<Rightarrow> u64" where
  "vms_min_pagesize pb = scast (push_bit pb (1 :: 32 word))"

definition sys_page_round_down :: "u64 \<Rightarrow> u64 \<Rightarrow> u64" where
  "sys_page_round_down address page_size = address AND NOT (page_size - 1)"

definition sys_page_round_up :: "u64 \<Rightarrow> u64 \<Rightarrow> u64" where
  "sys_page_round_up address page_size = (address + (page_size - 1)) AND NOT (page_size - 1)"

section \<open>Flexpages of a range\<close>

definition buddy :: "fpage \<Rightarrow> fpage" where
  "buddy f = L4_Fpage (L4_Address f XOR L4_Size f) (L4_Size f)"

definition sys_fp_order :: "nat \<Rightarrow> fpage \<Rightarrow> int" where
  "sys_fp_order pb f = int (L4_SizeLog2 f) - int pb"

definition sys_fp_end :: "fpage \<Rightarrow> u64" where
  "sys_fp_end f = L4_Address f + (L4_Size f - 1)"

function biggest_bits :: "nat \<Rightarrow> u64 \<Rightarrow> u64 \<Rightarrow> u64 \<Rightarrow> nat" where
  "biggest_bits bits addr base end =
     (if bits < 64
      then let next_addr = push_bit (bits + 1) (drop_bit (bits + 1) addr);
               next_size = push_bit (bits + 1) 1
           in if next_addr < base \<or> (next_addr + next_size) - 1 > end then bits
              else biggest_bits (bits + 1) addr base end
      else bits)"
  by pat_completeness auto
termination
  by (relation "measure (\<lambda>(bits, addr, base, end). 64 - bits)") auto

definition sys_biggest_fpage :: "nat \<Rightarrow> u64 \<Rightarrow> u64 \<Rightarrow> u64 \<Rightarrow> fpage" where
  "sys_biggest_fpage pb addr base end =
     (if end < base \<or> (end - base) + 1 < vms_min_pagesize pb then L4_Nilpage
      else let bits = biggest_bits pb addr base end
           in L4_FpageLog2 (push_bit bits (drop_bit bits addr)) bits)"

text \<open>\<open>sz_order\<close>; for a size above \<open>2^63\<close> no shifted 1 ever reaches it and the loop does not end.\<close>

partial_function (option) sz_order_loop :: "nat \<Rightarrow> u64 \<Rightarrow> nat \<Rightarrow> nat option" where
  "sz_order_loop pb sz order =
     (if push_bit (order + pb) 1 < sz then sz_order_loop pb sz (order + 1)
      else Some order)"

definition sz_order :: "nat \<Rightarrow> u64 \<Rightarrow> nat option" where
  "sz_order pb sz = sz_order_loop pb sz 0"

declare biggest_bits.simps [simp del]

section \<open>Page size lemmas\<close>

lemma min_pagesize_exp: "pb < 31 \<Longrightarrow> vms_min_pagesize pb = 2 ^ pb"
  unfolding vms_min_pagesize_def
  by (rule bit_word_eqI) (auto simp: bit_simps bit_signed_iff)

lemma unat_min_pagesize: "pb < 31 \<Longrightarrow> unat (vms_min_pagesize pb) = 2 ^ pb"
  by (simp add: min_pagesize_exp)

lemma and_1_eq_bit_0: "(x :: u64) AND 1 \<noteq> 0 \<longleftrightarrow> bit x 0"
  by (simp add: and_one_eq bit_0 mod_2_eq_odd)

lemma min_pagebits_loop_eq:
  assumes "bit x k" "\<And>i. i < k \<Longrightarrow> \<not> bit x i"
  shows "min_pagebits_loop x n = Some (n + k)"
  using assms
proof (induction k arbitrary: x n)
  case 0
  then show ?case by (subst min_pagebits_loop.simps) (simp add: and_1_eq_bit_0)
next
  case (Suc k)
  have "\<not> bit x 0" using Suc.prems(2) by blast
  moreover have "bit (drop_bit 1 x) k" and "\<And>i. i < k \<Longrightarrow> \<not> bit (drop_bit 1 x) i"
    using Suc.prems by (auto simp: bit_simps)
  ultimately show ?case
    using Suc.IH [of "drop_bit 1 x" "n + 1"]
    by (subst min_pagebits_loop.simps) (simp add: and_1_eq_bit_0)
qed

lemma min_pagebits_loop_nonzero:
  assumes ret: "min_pagebits_loop x n = Some r"
  shows "x \<noteq> 0"
  by (rule min_pagebits_loop.raw_induct [where P = "\<lambda>x n r. x \<noteq> 0", of "(x, n)", simplified, OF _ ret])
     (force split: if_splits)

lemma min_pagebits_loop_0: "min_pagebits_loop 0 n = None"
  using min_pagebits_loop_nonzero by fastforce

section \<open>Rounding\<close>

lemma round_down_exp:
  "k < 64 \<Longrightarrow> unat (sys_page_round_down a (2 ^ k)) = unat a - unat a mod 2 ^ k"
  by (simp add: sys_page_round_down_def pow_minus_1 unat_and_not_mask)

lemma unat_add_mask:
  assumes "k < 64" "unat (a :: u64) + 2 ^ k \<le> 2 ^ 64"
  shows "unat (a + mask k) = unat a + 2 ^ k - 1"
proof -
  have m: "unat (mask k :: u64) = 2 ^ k - 1" using assms(1) by (rule unat_mask64)
  have p: "0 < (2::nat) ^ k" by simp
  have "unat a + unat (mask k :: u64) < 2 ^ 64" using assms(2) p unfolding m by linarith
  from unat_add_no_wrap [OF this] p show ?thesis unfolding m by linarith
qed

lemma round_up_exp:
  assumes "k < 64" "unat a + 2 ^ k \<le> 2 ^ 64"
  shows "unat (sys_page_round_up a (2 ^ k)) = (unat a + 2 ^ k - 1) - (unat a + 2 ^ k - 1) mod 2 ^ k"
  unfolding sys_page_round_up_def pow_minus_1 unat_and_not_mask unat_add_mask [OF assms] ..

lemma round_down_aligned: "k < 64 \<Longrightarrow> 2 ^ k dvd unat (sys_page_round_down a (2 ^ k))"
  by (simp add: round_down_exp minus_mod_eq_mult_div)

lemma round_up_least:
  assumes "k < 64" "unat a + 2 ^ k \<le> 2 ^ 64"
  shows "2 ^ k dvd unat (sys_page_round_up a (2 ^ k))"
    and "unat a \<le> unat (sys_page_round_up a (2 ^ k))"
    and "unat (sys_page_round_up a (2 ^ k)) < unat a + 2 ^ k"
proof -
  let ?n = "unat a + 2 ^ k - 1" and ?r = "unat (sys_page_round_up a (2 ^ k))"
  have p: "0 < (2::nat) ^ k" by simp
  have eq: "?r = ?n - ?n mod 2 ^ k" by (rule round_up_exp [OF assms])
  have m: "?n mod 2 ^ k < 2 ^ k" using p by (rule mod_less_divisor)
  have le: "?n mod 2 ^ k \<le> ?n" by (rule mod_less_eq_dividend)
  show "2 ^ k dvd ?r" unfolding eq by (simp add: minus_mod_eq_mult_div)
  show "unat a \<le> ?r" "?r < unat a + 2 ^ k"
    using m le p unfolding eq by linarith+
qed

section \<open>The largest flexpage of a range\<close>

text \<open>\<open>fits n base end\<close>: the aligned flexpage of \<open>2^n\<close> bytes at \<open>base\<close> lies inside the range.\<close>

definition fits :: "nat \<Rightarrow> u64 \<Rightarrow> u64 \<Rightarrow> bool" where
  "fits n base end \<longleftrightarrow> 2 ^ n dvd unat base \<and> unat base + 2 ^ n \<le> unat end + 1"

lemma shift_down_up: "push_bit n (drop_bit n (a :: u64)) = a AND NOT (mask n)"
  by (rule bit_word_eqI) (auto simp: bit_simps)

lemma and_not_mask_less_iff: "(a :: u64) AND NOT (mask n) < a \<longleftrightarrow> \<not> 2 ^ n dvd unat a"
proof -
  have "unat a mod 2 ^ n \<le> unat a" by (rule mod_less_eq_dividend)
  then have "unat a - unat a mod 2 ^ n < unat a \<longleftrightarrow> unat a mod 2 ^ n \<noteq> 0"
    by linarith
  then show ?thesis
    by (simp only: word_less_nat_alt unat_and_not_mask dvd_eq_mod_eq_0)
qed

lemma aligned_add_le:
  assumes "(d::nat) dvd a" "d dvd m" "a < m"
  shows "a + d \<le> m"
proof -
  have "d dvd m - a" using assms by (simp add: dvd_diff_nat)
  then have "d \<le> m - a" using assms(3) by (intro dvd_imp_le) auto
  with assms(3) show ?thesis by linarith
qed

lemma aligned_add_le_64: "2 ^ n dvd unat (a :: u64) \<Longrightarrow> n \<le> 64 \<Longrightarrow> unat a + 2 ^ n \<le> 2 ^ 64"
  using aligned_add_le [of "2 ^ n" "unat a" "2 ^ 64"] le_imp_power_dvd [of n 64 "2::nat"]
    unat_lt64 [of a] by simp

lemma aligned_end:
  assumes "2 ^ n dvd unat (a :: u64)" "n < 64"
  shows "unat (a + 2 ^ n - 1) = unat a + 2 ^ n - 1"
proof -
  have "a + 2 ^ n - 1 = a + mask n" by (simp add: pow_minus_1 flip: add_diff_eq)
  then show ?thesis
    using assms by (simp only: unat_add_mask aligned_add_le_64 less_imp_le)
qed

lemma next_fits_iff:
  assumes n: "Suc n < 64"
  shows "push_bit (n + 1) (drop_bit (n + 1) base) < base \<or>
           (push_bit (n + 1) (drop_bit (n + 1) base) + push_bit (n + 1) 1) - 1 > end
         \<longleftrightarrow> \<not> fits (Suc n) base end"
proof (cases "2 ^ Suc n dvd unat base")
  case False
  then have "push_bit (n + 1) (drop_bit (n + 1) base) < base"
    by (simp only: shift_down_up and_not_mask_less_iff Suc_eq_plus1 not_False_eq_True)
  with False show ?thesis by (simp only: fits_def) simp
next
  case True
  then have na: "push_bit (n + 1) (drop_bit (n + 1) base) = base"
    by (simp only: shift_down_up Suc_eq_plus1 aligned_and_not_mask)
  have e: "unat (base + push_bit (n + 1) 1 - 1) = unat base + 2 ^ Suc n - 1"
    using aligned_end [OF True n] by simp
  have "0 < (2::nat) ^ Suc n" by simp
  then have "base + push_bit (n + 1) 1 - 1 > end \<longleftrightarrow> \<not> unat base + 2 ^ Suc n \<le> unat end + 1"
    unfolding word_less_nat_alt e by linarith
  with True show ?thesis unfolding na fits_def by blast
qed

lemma biggest_bits_spec:
  assumes "fits n base end" "unat end + 1 < 2 ^ 63"
  shows "n \<le> biggest_bits n base base end \<and> biggest_bits n base base end < 63
         \<and> fits (biggest_bits n base base end) base end
         \<and> \<not> fits (Suc (biggest_bits n base base end)) base end"
  using assms(1)
proof (induction "63 - n" arbitrary: n)
  case 0
  then have "(2::nat) ^ 63 \<le> 2 ^ n" by (intro power_increasing) auto
  with 0 assms(2) show ?case unfolding fits_def by linarith
next
  case (Suc d)
  then have n: "n < 63" "Suc n < 64" by auto
  have eq: "biggest_bits n base base end =
      (if \<not> fits (Suc n) base end then n else biggest_bits (Suc n) base base end)"
    using n next_fits_iff [OF n(2), of base "end"]
    by (subst biggest_bits.simps) (simp only: Let_def, simp)
  show ?case
  proof (cases "fits (Suc n) base end")
    case True
    moreover have "d = 63 - Suc n" using Suc.hyps(2) by simp
    ultimately show ?thesis using Suc.hyps(1) [of "Suc n"] by (auto simp: eq)
  next
    case False
    with n Suc.prems show ?thesis by (simp add: eq)
  qed
qed

text \<open>A page range \<open>[base, end]\<close> as the callers pass it: page aligned, not empty, below \<open>2^63\<close>.\<close>

definition page_range :: "nat \<Rightarrow> u64 \<Rightarrow> u64 \<Rightarrow> bool" where
  "page_range pb base end \<longleftrightarrow>
     2 ^ pb dvd unat base \<and> 2 ^ pb dvd unat end + 1 \<and> base \<le> end \<and> unat end + 1 < 2 ^ 63"

lemma page_range_fits: "page_range pb base end \<Longrightarrow> fits pb base end"
  unfolding page_range_def fits_def word_le_nat_alt
  by (auto intro: aligned_add_le)

lemma page_range_big_enough:
  assumes "page_range pb base end" "pb < 31"
  shows "\<not> (end < base \<or> (end - base) + 1 < vms_min_pagesize pb)"
proof -
  have f: "unat base + 2 ^ pb \<le> unat end + 1"
    using page_range_fits [OF assms(1)] by (simp add: fits_def)
  have le: "base \<le> end" and hi: "unat end + 1 < 2 ^ 63"
    using assms(1) by (auto simp: page_range_def)
  have s: "unat (end - base) = unat end - unat base" by (rule unat_diff_no_wrap [OF le])
  have "unat (end - base + 1) = unat end - unat base + 1"
    using s hi by (subst unat_Suc_no_wrap) auto
  with f have "2 ^ pb \<le> unat (end - base + 1)" by linarith
  then show ?thesis
    using le assms(2) by (simp add: word_less_nat_alt word_le_nat_alt min_pagesize_exp not_less)
qed

lemma biggest_fpage_eq:
  assumes "page_range pb base end" "pb < 31"
  obtains n where "sys_biggest_fpage pb base base end = L4_FpageLog2 base n"
    and "pb \<le> n" "n < 63" "fits n base end" "\<not> fits (Suc n) base end"
proof -
  let ?n = "biggest_bits pb base base end"
  have sp: "pb \<le> ?n" "?n < 63" "fits ?n base end" "\<not> fits (Suc ?n) base end"
    using biggest_bits_spec [OF page_range_fits [OF assms(1)]] assms(1)
    by (auto simp: page_range_def)
  moreover have "push_bit ?n (drop_bit ?n base) = base"
    using sp(3) by (simp add: shift_down_up aligned_and_not_mask fits_def)
  ultimately show ?thesis
    using that [of ?n] page_range_big_enough [OF assms]
    by (simp add: sys_biggest_fpage_def Let_def)
qed

lemma biggest_fpage_shape:
  assumes "page_range pb base end" "10 \<le> pb" "pb < 31"
  defines "f \<equiv> sys_biggest_fpage pb base base end"
  shows "L4_Address f = base" "pb \<le> L4_SizeLog2 f" "L4_SizeLog2 f < 63"
    "fits (L4_SizeLog2 f) base end" "\<not> fits (Suc (L4_SizeLog2 f)) base end"
    "unat (L4_Size f) = 2 ^ L4_SizeLog2 f" "\<not> L4_IsNilFpage f"
proof -
  obtain n where n: "f = L4_FpageLog2 base n" "pb \<le> n" "n < 63" "fits n base end"
      "\<not> fits (Suc n) base end"
    unfolding f_def by (rule biggest_fpage_eq [OF assms(1,3)])
  have s: "L4_SizeLog2 f = n" unfolding n(1) using n(3) by (simp add: fpage_simps)
  show "pb \<le> L4_SizeLog2 f" "L4_SizeLog2 f < 63" "fits (L4_SizeLog2 f) base end"
    "\<not> fits (Suc (L4_SizeLog2 f)) base end"
    unfolding s using n(2-5) by blast+
  show "L4_Address f = base"
    unfolding n(1) using n assms(2) by (intro Address_FpageLog2_aligned) (auto simp: fits_def)
  show "unat (L4_Size f) = 2 ^ L4_SizeLog2 f"
    unfolding s unfolding n(1) using n(2,3) assms(2) by (intro Size_FpageLog2) auto
  show "\<not> L4_IsNilFpage f"
    unfolding n(1) using n(2,3) assms(2) by (intro FpageLog2_not_nil) auto
qed

end
