(* ===== verification/Regions.thy ===== *)
theory Regions
  imports Page_Math
begin

unbundle bit_operations_syntax

text \<open>
  Memory regions at boot: the region tables of \<open>struct vms$meminfo\<close> (\<open>include/freevms/sys_mem.h\<close>),
  \<open>sys$remove_chunk\<close> and \<open>sys$remove_virtmem\<close> of \<open>sys/sys_alloc.c\<close>, and the scan of the kernel
  interface page's memory descriptors of \<open>sys/sys_ms_init.c\<close> (\<open>sys$find_memory_info\<close>,
  \<open>sys$find_memory_region\<close>).

  A C array of descriptors with the number of entries in use is the list of these entries; the
  capacity of the array stays an argument, because the code panics on it. Both bounds of a region
  are inclusive. The lemmas show that removing a chunk removes exactly its addresses when bounds
  are multiples of the 1024-byte granule in which L4 describes memory.
\<close>

section \<open>Region tables\<close>

record memdesc =
  md_base :: u64
  md_end :: u64

text \<open>A memory descriptor of the kernel interface page: the bit fields \<open>type\<close>, \<open>v\<close>, \<open>low\<close>, \<open>high\<close>.\<close>

record kip_memdesc =
  x_low :: u64
  x_high :: u64
  x_type :: u64
  x_v :: bool

definition L4_MemoryDescLow :: "kip_memdesc \<Rightarrow> u64" where
  "L4_MemoryDescLow m = push_bit 10 (x_low m)"

definition L4_MemoryDescHigh :: "kip_memdesc \<Rightarrow> u64" where
  "L4_MemoryDescHigh m = push_bit 10 (x_high m) + 0x3ff"

definition VMS_MEM_RAM :: u32 where "VMS_MEM_RAM = 1"
definition VMS_MEM_IO :: u32 where "VMS_MEM_IO = 2"
definition VMS_MEM_VM :: u32 where "VMS_MEM_VM = 4"
definition VMS_MEM_OTHER :: u32 where "VMS_MEM_OTHER = 8"

text \<open>\<open>sys$find_memory_info\<close> returns low, high and type through pointers, and whether the memory is
  physical.\<close>

definition sys_find_memory_info :: "kip_memdesc \<Rightarrow> (u64 \<times> u64 \<times> u64 \<times> bool) outcome" where
  "sys_find_memory_info m =
     (let low = L4_MemoryDescLow m; high = L4_MemoryDescHigh m
      in panic_if (high \<le> low) (Ret (low, high, x_type m, \<not> x_v m)))"

section \<open>Removing a chunk\<close>

definition chunk_whole :: "u64 \<Rightarrow> u64 \<Rightarrow> memdesc \<Rightarrow> bool" where
  "chunk_whole low high d \<longleftrightarrow> low \<le> md_base d \<and> high \<ge> md_end d"

definition chunk_top :: "u64 \<Rightarrow> u64 \<Rightarrow> memdesc \<Rightarrow> bool" where
  "chunk_top low high d \<longleftrightarrow> low \<ge> md_base d \<and> low < md_end d \<and> high \<ge> md_end d"

definition chunk_bottom :: "u64 \<Rightarrow> u64 \<Rightarrow> memdesc \<Rightarrow> bool" where
  "chunk_bottom low high d \<longleftrightarrow> low \<le> md_base d \<and> high \<le> md_end d \<and> high > md_base d"

definition chunk_splits :: "u64 \<Rightarrow> u64 \<Rightarrow> memdesc \<Rightarrow> bool" where
  "chunk_splits low high d \<longleftrightarrow>
     low > md_base d \<and> low < md_end d \<and> high < md_end d \<and> high > md_base d"

lemmas chunk_defs = chunk_whole_def chunk_top_def chunk_bottom_def chunk_splits_def

text \<open>The loop over \<open>j\<close>: \<open>front\<close> holds the entries before \<open>j\<close>, the last argument those from \<open>j\<close>
  on, and \<open>pos\<close> is their total number. Deleting entry \<open>j\<close> moves the rest down by one and stays at
  \<open>j\<close>; a split opens a slot after \<open>j\<close>, which the next round looks at.\<close>

function remove_chunk_loop ::
  "nat \<Rightarrow> u64 \<Rightarrow> u64 \<Rightarrow> memdesc list \<Rightarrow> memdesc list \<Rightarrow> memdesc list outcome" where
  "remove_chunk_loop mx low high front [] = Ret front"
| "remove_chunk_loop mx low high front (d # ds) =
     (if chunk_whole low high d
      then remove_chunk_loop mx low high front ds
      else if chunk_top low high d
      then remove_chunk_loop mx low high (front @ [d\<lparr>md_end := low - 1\<rparr>]) ds
      else if chunk_bottom low high d
      then remove_chunk_loop mx low high (front @ [d\<lparr>md_base := high + 1\<rparr>]) ds
      else if chunk_splits low high d
      then panic_if (length front + length (d # ds) \<ge> mx - 1)
             (remove_chunk_loop mx low high (front @ [d\<lparr>md_end := low - 1\<rparr>])
                (\<lparr>md_base = high + 1, md_end = md_end d\<rparr> # ds))
      else remove_chunk_loop mx low high (front @ [d]) ds)"
  by pat_completeness auto
termination
proof (relation "measure (\<lambda>(mx, low, high, front, ds).
    sum_list (map (\<lambda>d. if chunk_splits low high d then 2 else 1) ds))")
  fix mx low high front ds and d :: memdesc
  assume "chunk_splits low high d"
  moreover from this have "high < high + 1"
    using unat_plus_1_less [of high "md_end d"] by (simp add: chunk_splits_def word_less_nat_alt)
  then have "\<not> chunk_splits low high \<lparr>md_base = high + 1, md_end = md_end d\<rparr>"
    by (auto simp: chunk_splits_def)
  ultimately show "((mx, low, high, front @ [d\<lparr>md_end := low - 1\<rparr>],
        \<lparr>md_base = high + 1, md_end = md_end d\<rparr> # ds), mx, low, high, front, d # ds)
      \<in> measure (\<lambda>(mx, low, high, front, ds).
          sum_list (map (\<lambda>d. if chunk_splits low high d then 2 else 1) ds))"
    by simp
qed auto

definition sys_remove_chunk ::
  "memdesc list \<Rightarrow> nat \<Rightarrow> u64 \<Rightarrow> u64 \<Rightarrow> memdesc list outcome" where
  "sys_remove_chunk mem_desc mx low high = remove_chunk_loop mx low high [] mem_desc"

definition sys_remove_virtmem ::
  "memdesc list \<Rightarrow> nat \<Rightarrow> u64 \<Rightarrow> u64 \<Rightarrow> u64 \<Rightarrow> memdesc list outcome" where
  "sys_remove_virtmem vm_regions max_vm_regions base end page_size =
     sys_remove_chunk vm_regions max_vm_regions (sys_page_round_down base page_size)
       (sys_page_round_up end page_size - 1)"

section \<open>Collecting the regions of a type\<close>

definition mem_desc_type_of :: "bool \<Rightarrow> u64 \<Rightarrow> u32" where
  "mem_desc_type_of physical ty =
     (if physical
      then (if ty = 1 then VMS_MEM_RAM else if ty = 4 \<or> ty = 3 then VMS_MEM_IO else VMS_MEM_OTHER)
      else VMS_MEM_VM)"

text \<open>The inner loop over the entries found so far: the first entry that overlaps is changed and
  the loop is left with \<open>covered = 1\<close>.\<close>

fun merge_region :: "u64 \<Rightarrow> u64 \<Rightarrow> memdesc list \<Rightarrow> memdesc list \<times> bool" where
  "merge_region low high [] = ([], False)"
| "merge_region low high (d # ds) =
     (if low \<ge> md_base d \<and> low < md_end d \<and> high \<ge> md_end d
      then (d\<lparr>md_end := high\<rparr> # ds, True)
      else if low \<le> md_base d \<and> high \<le> md_end d \<and> high > md_base d
      then (d\<lparr>md_base := high + 1\<rparr> # ds, True)
      else if low > md_base d \<and> low < md_end d \<and> high < md_end d \<and> high > md_base d
      then (d # ds, True)
      else (case merge_region low high ds of (ds', covered) \<Rightarrow> (d # ds', covered)))"

fun find_memory_loop ::
  "nat \<Rightarrow> u32 \<Rightarrow> u32 \<Rightarrow> kip_memdesc list \<Rightarrow> memdesc list \<Rightarrow> memdesc list outcome" where
  "find_memory_loop mx memory_type except_type [] mem_desc = Ret mem_desc"
| "find_memory_loop mx memory_type except_type (m # ms) mem_desc =
     bindo (sys_find_memory_info m) (\<lambda>(low, high, ty, physical).
       let mem_desc_type = mem_desc_type_of physical ty
       in if mem_desc_type AND memory_type \<noteq> 0
          then panic_if (length mem_desc \<ge> mx - 1)
                 (case merge_region low high mem_desc of
                    (mem_desc', covered) \<Rightarrow>
                      find_memory_loop mx memory_type except_type ms
                        (if covered then mem_desc'
                         else mem_desc' @ [\<lparr>md_base = low, md_end = high\<rparr>]))
          else if mem_desc_type AND except_type \<noteq> 0
          then bindo (sys_remove_chunk mem_desc mx low high)
                 (find_memory_loop mx memory_type except_type ms)
          else find_memory_loop mx memory_type except_type ms mem_desc)"

definition sys_find_memory_region ::
  "kip_memdesc list \<Rightarrow> nat \<Rightarrow> u32 \<Rightarrow> u32 \<Rightarrow> memdesc list outcome" where
  "sys_find_memory_region kip mx memory_type except_type =
     find_memory_loop mx memory_type except_type kip []"

section \<open>Address sets\<close>

definition addrs :: "memdesc \<Rightarrow> u64 set" where
  "addrs d = {md_base d..md_end d}"

definition cover :: "memdesc list \<Rightarrow> u64 set" where
  "cover ds = (\<Union>d\<in>set ds. addrs d)"

lemma cover_simps [simp, region_simps]:
  "cover [] = {}" "cover (d # ds) = addrs d \<union> cover ds" "cover (ds @ es) = cover ds \<union> cover es"
  by (auto simp: cover_def)

text \<open>A region in whole granules: L4 describes memory in units of 1024 bytes.\<close>

definition granular :: "memdesc \<Rightarrow> bool" where
  "granular d \<longleftrightarrow> md_base d \<le> md_end d \<and> 1024 dvd unat (md_base d) \<and> 1024 dvd unat (md_end d) + 1"

abbreviation granular_chunk :: "u64 \<Rightarrow> u64 \<Rightarrow> bool" where
  "granular_chunk low high \<equiv> granular \<lparr>md_base = low, md_end = high\<rparr>"

text \<open>No two entries of a table share an address.\<close>

definition apart :: "memdesc list \<Rightarrow> bool" where
  "apart ds \<longleftrightarrow> sorted_wrt (\<lambda>d e. addrs d \<inter> addrs e = {}) ds"

lemma apart_simps [simp]:
  "apart []" "apart (d # ds) \<longleftrightarrow> addrs d \<inter> cover ds = {} \<and> apart ds"
  "apart (ds @ es) \<longleftrightarrow> apart ds \<and> apart es \<and> cover ds \<inter> cover es = {}"
  by (auto simp: apart_def cover_def sorted_wrt_append)

section \<open>Exactness of removal\<close>

lemma granular_not_touching:
  assumes "granular_chunk low high" "granular d"
  shows "low \<noteq> md_end d" "high \<noteq> md_base d"
proof -
  have *: "\<not> (1024 dvd n \<and> 1024 dvd n + 1)" for n :: nat
    using dvd_diff_nat [of 1024 "n + 1" n] by auto
  show "low \<noteq> md_end d" "high \<noteq> md_base d"
    using assms * [of "unat low"] * [of "unat high"] by (auto simp: granular_def)
qed

lemma addrs_top:
  assumes "granular_chunk low high" "granular d" "chunk_top low high d" "\<not> chunk_whole low high d"
  shows "addrs (d\<lparr>md_end := low - 1\<rparr>) = addrs d - {low..high}" "granular (d\<lparr>md_end := low - 1\<rparr>)"
proof -
  have lt: "md_base d < low" using assms(3,4) by (auto simp: chunk_defs)
  note u = unat_minus_1_less [OF lt]
  from assms lt u show "addrs (d\<lparr>md_end := low - 1\<rparr>) = addrs d - {low..high}"
    by (auto simp: addrs_def chunk_defs word_less_nat_alt word_le_nat_alt)
  from assms lt u show "granular (d\<lparr>md_end := low - 1\<rparr>)"
    by (auto simp: granular_def chunk_defs word_less_nat_alt word_le_nat_alt)
qed

lemma addrs_bottom:
  assumes "granular_chunk low high" "granular d" "chunk_bottom low high d" "\<not> chunk_whole low high d"
  shows "addrs (d\<lparr>md_base := high + 1\<rparr>) = addrs d - {low..high}" "granular (d\<lparr>md_base := high + 1\<rparr>)"
proof -
  have lt: "high < md_end d" using assms(3,4) by (auto simp: chunk_defs)
  note u = unat_plus_1_less [OF lt]
  from assms lt u show "addrs (d\<lparr>md_base := high + 1\<rparr>) = addrs d - {low..high}"
    by (auto simp: addrs_def chunk_defs word_less_nat_alt word_le_nat_alt)
  from assms lt u show "granular (d\<lparr>md_base := high + 1\<rparr>)"
    by (auto simp: granular_def chunk_defs word_less_nat_alt word_le_nat_alt)
qed

lemma addrs_split:
  assumes "granular_chunk low high" "granular d" "chunk_splits low high d"
  shows "addrs (d\<lparr>md_end := low - 1\<rparr>) \<union> addrs \<lparr>md_base = high + 1, md_end = md_end d\<rparr>
           = addrs d - {low..high}"
    "addrs (d\<lparr>md_end := low - 1\<rparr>) \<inter> addrs \<lparr>md_base = high + 1, md_end = md_end d\<rparr> = {}"
    "granular (d\<lparr>md_end := low - 1\<rparr>)" "granular \<lparr>md_base = high + 1, md_end = md_end d\<rparr>"
proof -
  have lt: "high < md_end d" "md_base d < low" using assms(3) by (auto simp: chunk_defs)
  have le: "low \<le> high" using assms(1) by (simp add: granular_def)
  note u = unat_plus_1_less [OF lt(1)] unat_minus_1_less [OF lt(2)]
  from lt le u show "addrs (d\<lparr>md_end := low - 1\<rparr>) \<union> addrs \<lparr>md_base = high + 1, md_end = md_end d\<rparr>
           = addrs d - {low..high}"
    by (auto simp: addrs_def word_less_nat_alt word_le_nat_alt)
  from lt le u show "addrs (d\<lparr>md_end := low - 1\<rparr>) \<inter> addrs \<lparr>md_base = high + 1, md_end = md_end d\<rparr> = {}"
    by (auto simp: addrs_def word_less_nat_alt word_le_nat_alt)
  from assms lt le u show "granular (d\<lparr>md_end := low - 1\<rparr>)"
     "granular \<lparr>md_base = high + 1, md_end = md_end d\<rparr>"
    by (auto simp: granular_def word_less_nat_alt word_le_nat_alt)
qed

lemma addrs_untouched:
  assumes "granular_chunk low high" "granular d" "\<not> chunk_whole low high d"
    "\<not> chunk_top low high d" "\<not> chunk_bottom low high d" "\<not> chunk_splits low high d"
  shows "addrs d \<inter> {low..high} = {}"
proof -
  have le: "low \<le> high" "md_base d \<le> md_end d" using assms(1,2) by (auto simp: granular_def)
  show ?thesis
    using assms(3-6) le granular_not_touching [OF assms(1,2)]
    by (auto simp: addrs_def chunk_defs)
qed

lemma remove_chunk_loop_exact:
  assumes "granular_chunk low high" "\<forall>d \<in> set ds. granular d"
    "remove_chunk_loop mx low high front ds = Ret r"
  shows "cover r = cover front \<union> (cover ds - {low..high})"
  using assms
proof (induction mx low high front ds rule: remove_chunk_loop.induct)
  case (2 mx low high front d ds)
  have d: "granular d" using "2.prems"(2) by simp
  consider (w) "chunk_whole low high d"
    | (t) "\<not> chunk_whole low high d" "chunk_top low high d"
    | (b) "\<not> chunk_whole low high d" "\<not> chunk_top low high d" "chunk_bottom low high d"
    | (s) "\<not> chunk_whole low high d" "\<not> chunk_top low high d" "\<not> chunk_bottom low high d"
        "chunk_splits low high d"
    | (u) "\<not> chunk_whole low high d" "\<not> chunk_top low high d" "\<not> chunk_bottom low high d"
        "\<not> chunk_splits low high d" by blast
  then show ?case
  proof cases
    case w
    then have "addrs d \<subseteq> {low..high}" by (auto simp: addrs_def chunk_defs)
    with w "2.prems" "2.IH"(1) show ?thesis by auto
  next
    case t
    with "2.prems" "2.IH"(2) addrs_top [OF "2.prems"(1) d t(2,1)] show ?thesis by auto
  next
    case b
    with "2.prems" "2.IH"(3) addrs_bottom [OF "2.prems"(1) d b(3,1)] show ?thesis by auto
  next
    case s
    with "2.prems" "2.IH"(4) addrs_split [OF "2.prems"(1) d s(4)] show ?thesis by auto
  next
    case u
    with "2.prems" "2.IH"(5) addrs_untouched [OF "2.prems"(1) d u] show ?thesis by auto
  qed
qed simp

lemma remove_chunk_loop_granular:
  assumes "granular_chunk low high" "\<forall>d \<in> set front. granular d" "\<forall>d \<in> set ds. granular d"
    "remove_chunk_loop mx low high front ds = Ret r"
  shows "\<forall>d \<in> set r. granular d"
  using assms
proof (induction mx low high front ds rule: remove_chunk_loop.induct)
  case (2 mx low high front d ds)
  then have d: "granular d" by simp
  note gc = "2.prems"(1)
  show ?case
  proof (cases "chunk_whole low high d")
    case True
    with "2.prems" show ?thesis by (intro "2.IH"(1)) simp_all
  next
    case w: False
    show ?thesis
    proof (cases "chunk_top low high d")
      case True
      with w "2.prems" addrs_top(2) [OF gc d True w] show ?thesis
        by (intro "2.IH"(2)) simp_all
    next
      case t: False
      show ?thesis
      proof (cases "chunk_bottom low high d")
        case True
        with w t "2.prems" addrs_bottom(2) [OF gc d True w] show ?thesis
          by (intro "2.IH"(3)) simp_all
      next
        case b: False
        show ?thesis
        proof (cases "chunk_splits low high d")
          case True
          with w t b "2.prems" addrs_split(3,4) [OF gc d True] show ?thesis
            by (intro "2.IH"(4)) simp_all
        next
          case False
          with w t b "2.prems" d show ?thesis by (intro "2.IH"(5)) simp_all
        qed
      qed
    qed
  qed
qed simp

lemma remove_chunk_loop_apart:
  assumes "granular_chunk low high" "\<forall>d \<in> set ds. granular d" "apart (front @ ds)"
    "remove_chunk_loop mx low high front ds = Ret r"
  shows "apart r"
  using assms
proof (induction mx low high front ds rule: remove_chunk_loop.induct)
  case (2 mx low high front d ds)
  then have d: "granular d" by simp
  note gc = "2.prems"(1)
  show ?case
  proof (cases "chunk_whole low high d")
    case True
    with "2.prems" show ?thesis by (intro "2.IH"(1)) auto
  next
    case w: False
    show ?thesis
    proof (cases "chunk_top low high d")
      case True
      from w True "2.prems" addrs_top(1) [OF gc d True w] show ?thesis
        by (intro "2.IH"(2)) auto
    next
      case t: False
      show ?thesis
      proof (cases "chunk_bottom low high d")
        case True
        with w t "2.prems" addrs_bottom(1) [OF gc d True w] show ?thesis
          by (intro "2.IH"(3)) auto
      next
        case b: False
        show ?thesis
        proof (cases "chunk_splits low high d")
          case True
          note sp = addrs_split [OF gc d True]
          from sp(1) have "addrs (d\<lparr>md_end := low - 1\<rparr>) \<subseteq> addrs d"
            "addrs \<lparr>md_base = high + 1, md_end = md_end d\<rparr> \<subseteq> addrs d" by auto
          with w t b True "2.prems" sp(2,4) show ?thesis
            by (intro "2.IH"(4)) auto
        next
          case False
          with w t b "2.prems" d show ?thesis by (intro "2.IH"(5)) auto
        qed
      qed
    qed
  qed
qed simp

lemma remove_chunk_loop_no_split:
  "\<forall>d \<in> set ds. \<not> chunk_splits low high d \<Longrightarrow> \<exists>r. remove_chunk_loop mx low high front ds = Ret r"
  by (induction ds arbitrary: front) simp_all

lemma splits_within: "chunk_splits low high d \<Longrightarrow> low \<in> addrs d \<and> high \<in> addrs d"
  by (auto simp: chunk_defs addrs_def)

lemma remove_chunk_loop_room:
  assumes "low \<le> high" "apart ds" "length front + length ds < mx - 1"
  shows "\<exists>r. remove_chunk_loop mx low high front ds = Ret r"
  using assms(2,3)
proof (induction ds arbitrary: front)
  case (Cons d ds)
  show ?case
  proof (cases "chunk_splits low high d")
    case True
    then have "high < high + 1"
      using unat_plus_1_less [of high "md_end d"] by (simp add: chunk_splits_def word_less_nat_alt)
    then have new: "\<not> chunk_splits low high \<lparr>md_base = high + 1, md_end = md_end d\<rparr>"
      by (auto simp: chunk_splits_def)
    have "\<forall>e \<in> set ds. \<not> chunk_splits low high e"
      using Cons.prems(1) splits_within [OF True] by (auto simp: cover_def dest!: splits_within)
    with new have "\<forall>e \<in> set (\<lparr>md_base = high + 1, md_end = md_end d\<rparr> # ds). \<not> chunk_splits low high e"
      by simp
    from remove_chunk_loop_no_split [OF this]
    obtain r where "remove_chunk_loop mx low high (front @ [d\<lparr>md_end := low - 1\<rparr>])
        (\<lparr>md_base = high + 1, md_end = md_end d\<rparr> # ds) = Ret r" by blast
    moreover have "\<not> chunk_whole low high d" "\<not> chunk_top low high d" "\<not> chunk_bottom low high d"
      using True by (auto simp: chunk_defs)
    ultimately show ?thesis
      using True Cons.prems(2) by simp
  next
    case False
    have IH: "\<And>e. \<exists>r. remove_chunk_loop mx low high (front @ [e]) ds = Ret r"
      "\<exists>r. remove_chunk_loop mx low high front ds = Ret r"
      using Cons.IH Cons.prems by simp_all
    from False IH show ?thesis by simp
  qed
qed simp

section \<open>Collecting regions refines set operations\<close>

definition kip_range :: "kip_memdesc \<Rightarrow> u64 set" where
  "kip_range m = {L4_MemoryDescLow m..L4_MemoryDescHigh m}"

definition kip_type :: "kip_memdesc \<Rightarrow> u32" where
  "kip_type m = mem_desc_type_of (\<not> x_v m) (x_type m)"

text \<open>What the scan of one descriptor means: later descriptors of the wanted type add their
  addresses, later ones of the excluded type take them away.\<close>

definition scan_step :: "u32 \<Rightarrow> u32 \<Rightarrow> kip_memdesc \<Rightarrow> u64 set \<Rightarrow> u64 set" where
  "scan_step memory_type except_type m S =
     (if kip_type m AND memory_type \<noteq> 0 then S \<union> kip_range m
      else if kip_type m AND except_type \<noteq> 0 then S - kip_range m else S)"

lemma push_bit_10_dvd: "1024 dvd unat (push_bit 10 (x :: u64))"
proof -
  have "take_bit 10 (push_bit 10 x) = 0" by (rule bit_word_eqI) (auto simp: bit_simps)
  then have "2 ^ 10 dvd unat (push_bit 10 x)" by (simp only: take_bit_eq_0_iff_dvd)
  then show ?thesis by simp
qed

lemma MemoryDesc_granular:
  assumes "L4_MemoryDescLow m < L4_MemoryDescHigh m"
  shows "granular_chunk (L4_MemoryDescLow m) (L4_MemoryDescHigh m)"
proof -
  let ?h = "push_bit 10 (x_high m)"
  have "2 ^ 10 dvd unat ?h" using push_bit_10_dvd [of "x_high m"] by simp
  from aligned_end [OF this] have "unat (?h + 2 ^ 10 - 1) = unat ?h + 2 ^ 10 - 1" by simp
  moreover have "?h + 2 ^ 10 - 1 = ?h + 0x3ff" by simp
  ultimately have "unat (?h + 0x3ff) + 1 = unat ?h + 1024" by (simp add: add.commute)
  moreover have "1024 dvd unat ?h + 1024" using push_bit_10_dvd [of "x_high m"] by simp
  ultimately have "1024 dvd unat (?h + 0x3ff) + 1" by metis
  with assms push_bit_10_dvd [of "x_low m"] show ?thesis
    by (simp add: granular_def L4_MemoryDescLow_def L4_MemoryDescHigh_def)
qed

lemma merge_region_disjoint:
  "low \<le> high \<Longrightarrow> {low..high} \<inter> cover ds = {} \<Longrightarrow> \<forall>d \<in> set ds. md_base d \<le> md_end d \<Longrightarrow>
    merge_region low high ds = (ds, False)"
proof (induction ds)
  case (Cons d ds)
  then have no: "low \<notin> addrs d" "high \<notin> addrs d" by auto
  have IH: "merge_region low high ds = (ds, False)"
    using Cons.IH Cons.prems by (simp add: Int_Un_distrib)
  from no(1) have "\<not> (low \<ge> md_base d \<and> low < md_end d \<and> high \<ge> md_end d)"
    by (auto simp: addrs_def)
  moreover from no(2) have "\<not> (low \<le> md_base d \<and> high \<le> md_end d \<and> high > md_base d)"
    "\<not> (low > md_base d \<and> low < md_end d \<and> high < md_end d \<and> high > md_base d)"
    by (auto simp: addrs_def)
  ultimately show ?case by (simp only: merge_region.simps IH if_False prod.case)
qed simp

lemma remove_chunk_loop_length:
  assumes "low \<le> high" "apart ds" "remove_chunk_loop mx low high front ds = Ret r"
  shows "length r \<le> length front + length ds +
      (if \<exists>d \<in> set ds. chunk_splits low high d then 1 else 0)"
  using assms
proof (induction mx low high front ds rule: remove_chunk_loop.induct)
  case (2 mx low high front d ds)
  show ?case
  proof (cases "chunk_splits low high d")
    case True
    then have no: "\<not> chunk_whole low high d" "\<not> chunk_top low high d" "\<not> chunk_bottom low high d"
      by (auto simp: chunk_defs)
    have "high < high + 1"
      using True unat_plus_1_less [of high "md_end d"]
      by (simp add: chunk_splits_def word_less_nat_alt)
    then have new: "\<not> chunk_splits low high \<lparr>md_base = high + 1, md_end = md_end d\<rparr>"
      by (auto simp: chunk_splits_def)
    have rest: "\<forall>e \<in> set ds. \<not> chunk_splits low high e"
      using "2.prems"(2) splits_within [OF True] by (auto simp: cover_def dest!: splits_within)
    have sub: "addrs \<lparr>md_base = high + 1, md_end = md_end d\<rparr> \<subseteq> addrs d"
      using True \<open>high < high + 1\<close> by (auto simp: addrs_def chunk_defs)
    have "length r \<le> length (front @ [d\<lparr>md_end := low - 1\<rparr>]) +
        length (\<lparr>md_base = high + 1, md_end = md_end d\<rparr> # ds) +
        (if \<exists>e \<in> set (\<lparr>md_base = high + 1, md_end = md_end d\<rparr> # ds). chunk_splits low high e
         then 1 else 0)"
      using no True "2.prems" sub by (intro "2.IH"(4)) auto
    with rest new True show ?thesis by auto
  next
    case False
    with "2.prems" "2.IH"(1,2,3,5) show ?thesis by (auto split: if_splits)
  qed
qed simp

lemma sys_remove_chunk_total:
  assumes "granular_chunk low high" "\<forall>d \<in> set ds. granular d" "apart ds" "length ds < mx - 1"
  obtains r where "sys_remove_chunk ds mx low high = Ret r" "cover r = cover ds - {low..high}"
    "\<forall>d \<in> set r. granular d" "apart r" "length r \<le> length ds + 1"
proof -
  have le: "low \<le> high" using assms(1) by (simp add: granular_def)
  then obtain r where r: "remove_chunk_loop mx low high [] ds = Ret r"
    using remove_chunk_loop_room [of low high ds "[]" mx] assms(3,4) by auto
  show ?thesis
  proof (rule that)
    show "sys_remove_chunk ds mx low high = Ret r" using r by (simp add: sys_remove_chunk_def)
    show "cover r = cover ds - {low..high}"
      using remove_chunk_loop_exact [OF assms(1,2) r] by simp
    show "\<forall>d \<in> set r. granular d"
      using remove_chunk_loop_granular [OF assms(1) _ assms(2) r] by simp
    show "apart r"
      using remove_chunk_loop_apart [OF assms(1,2) _ r] assms(3) by simp
    show "length r \<le> length ds + 1"
      using remove_chunk_loop_length [OF le assms(3) r] by (simp split: if_splits)
  qed
qed

lemma find_memory_loop_refines:
  assumes "\<forall>m \<in> set kip. L4_MemoryDescLow m < L4_MemoryDescHigh m"
    and "sorted_wrt (\<lambda>m n. kip_type m AND mt \<noteq> 0 \<longrightarrow> kip_type n AND mt \<noteq> 0 \<longrightarrow>
           kip_range m \<inter> kip_range n = {}) kip"
    and "\<forall>m \<in> set kip. kip_type m AND mt \<noteq> 0 \<longrightarrow> kip_range m \<inter> cover ds = {}"
    and "length ds + length kip < mx - 1"
    and "\<forall>d \<in> set ds. granular d" "apart ds"
  shows "\<exists>r. find_memory_loop mx mt et kip ds = Ret r \<and>
    cover r = fold (scan_step mt et) kip (cover ds) \<and> (\<forall>d \<in> set r. granular d) \<and> apart r"
  using assms
proof (induction kip arbitrary: ds)
  case (Cons m kip)
  let ?low = "L4_MemoryDescLow m" and ?high = "L4_MemoryDescHigh m"
  have lt: "?low < ?high" and gc: "granular_chunk ?low ?high"
    using Cons.prems(1) by (auto intro: MemoryDesc_granular)
  have info: "sys_find_memory_info m = Ret (?low, ?high, x_type m, \<not> x_v m)"
    using lt by (simp add: sys_find_memory_info_def Let_def not_le)
  have new: "addrs \<lparr>md_base = ?low, md_end = ?high\<rparr> = kip_range m"
    by (simp add: addrs_def kip_range_def)
  consider (keep) "kip_type m AND mt \<noteq> 0" | (cut) "kip_type m AND mt = 0" "kip_type m AND et \<noteq> 0"
    | (skip) "kip_type m AND mt = 0" "kip_type m AND et = 0" by blast
  then show ?case
  proof cases
    case keep
    have dj: "kip_range m \<inter> cover ds = {}" using keep Cons.prems(3) by simp
    have "merge_region ?low ?high ds = (ds, False)"
      using lt dj Cons.prems(5) by (intro merge_region_disjoint) (auto simp: kip_range_def granular_def)
    then have step: "find_memory_loop mx mt et (m # kip) ds =
        find_memory_loop mx mt et kip (ds @ [\<lparr>md_base = ?low, md_end = ?high\<rparr>])"
      using keep Cons.prems(4) by (simp add: info kip_type_def)
    have sc: "scan_step mt et m (cover ds) = cover ds \<union> kip_range m"
      using keep by (simp add: scan_step_def)
    show ?thesis
      unfolding step
      using Cons.IH [of "ds @ [\<lparr>md_base = ?low, md_end = ?high\<rparr>]"] Cons.prems keep gc dj
      by (simp add: sc new Int_Un_distrib Int_commute)
  next
    case cut
    obtain d' where d': "sys_remove_chunk ds mx ?low ?high = Ret d'"
      "cover d' = cover ds - {?low..?high}" "\<forall>d \<in> set d'. granular d" "apart d'"
      "length d' \<le> length ds + 1"
    proof (rule sys_remove_chunk_total [OF gc Cons.prems(5,6), of mx])
      show "length ds < mx - 1" using Cons.prems(4) by simp
    qed
    note d'(5)
    moreover have "cover d' \<subseteq> cover ds" using d'(2) by auto
    moreover have sc: "scan_step mt et m (cover ds) = cover d'"
      using cut d'(2) by (simp add: scan_step_def kip_range_def)
    moreover have step: "find_memory_loop mx mt et (m # kip) ds = find_memory_loop mx mt et kip d'"
      using cut d'(1) by (simp add: info kip_type_def)
    moreover have "\<exists>r. find_memory_loop mx mt et kip d' = Ret r \<and>
        cover r = fold (scan_step mt et) kip (cover d') \<and> (\<forall>d \<in> set r. granular d) \<and> apart r"
      using Cons.prems d'(3,4) calculation(1,2) by (intro Cons.IH) (simp_all, blast)
    ultimately show ?thesis unfolding step by simp
  next
    case skip
    then have "scan_step mt et m (cover ds) = cover ds" by (simp add: scan_step_def)
    moreover have step: "find_memory_loop mx mt et (m # kip) ds = find_memory_loop mx mt et kip ds"
      using skip by (simp add: info kip_type_def)
    ultimately show ?thesis unfolding step using Cons.IH [of ds] Cons.prems by simp
  qed
qed simp

section \<open>Properties\<close>

text \<open>C8: \<open>sys$remove_chunk\<close> on a table of disjoint regions in whole granules, with a free slot
  left for a split, always returns; the table then covers exactly the old addresses without the
  chunk, and is again a table of disjoint regions in whole granules.\<close>

theorem remove_chunk_correct:
  assumes "granular_chunk low high" "\<forall>d \<in> set mem_desc. granular d" "apart mem_desc"
    "length mem_desc < mx - 1"
  shows "\<exists>r. sys_remove_chunk mem_desc mx low high = Ret r \<and>
    cover r = cover mem_desc - {low..high} \<and> (\<forall>d \<in> set r. granular d) \<and> apart r"
  by (rule sys_remove_chunk_total [OF assms]) blast

theorem remove_chunk_correct_witness:
  "\<exists>r. sys_remove_chunk [\<lparr>md_base = 0, md_end = 0xffff\<rparr>] 1024 0x4000 0x7fff = Ret r \<and>
    cover r = cover [\<lparr>md_base = 0, md_end = 0xffff\<rparr>] - {0x4000..0x7fff} \<and>
    (\<forall>d \<in> set r. granular d) \<and> apart r"
  by (rule remove_chunk_correct) (simp_all add: granular_def)

text \<open>A region whose last byte is the chunk's first byte keeps that byte: the tests of
  \<open>sys$remove_chunk\<close> compare \<open>low < end\<close> although both bounds are inclusive.\<close>

theorem remove_chunk_keeps_touching_byte:
  assumes "md_base d < md_end d" "md_end d \<le> high"
  shows "sys_remove_chunk [d] mx (md_end d) high = Ret [d] \<and> md_end d \<in> cover [d] \<inter> {md_end d..high}"
  using assms by (auto simp: sys_remove_chunk_def chunk_defs addrs_def)

theorem remove_chunk_keeps_touching_byte_witness:
  "sys_remove_chunk [\<lparr>md_base = 0x1000, md_end = 0x2000\<rparr>] 1024 0x2000 0x2fff
     = Ret [\<lparr>md_base = 0x1000, md_end = 0x2000\<rparr>]"
  using remove_chunk_keeps_touching_byte [of "\<lparr>md_base = 0x1000, md_end = 0x2000\<rparr>" "0x2fff" 1024]
  by simp

text \<open>C9: On descriptors of which no two of the wanted type overlap, and few enough for the table,
  \<open>sys$find_memory_region\<close> returns a table of disjoint regions that covers exactly what the
  descriptors mean read in order: wanted ones add their addresses, excluded ones take them away.\<close>

theorem find_memory_region_refines:
  assumes "\<forall>m \<in> set kip. L4_MemoryDescLow m < L4_MemoryDescHigh m"
    and "sorted_wrt (\<lambda>m n. kip_type m AND memory_type \<noteq> 0 \<longrightarrow> kip_type n AND memory_type \<noteq> 0 \<longrightarrow>
           kip_range m \<inter> kip_range n = {}) kip"
    and "length kip < mx - 1"
  shows "\<exists>r. sys_find_memory_region kip mx memory_type except_type = Ret r \<and>
    cover r = fold (scan_step memory_type except_type) kip {} \<and>
    (\<forall>d \<in> set r. granular d) \<and> apart r"
  using find_memory_loop_refines [OF assms(1,2), of "[]" mx except_type] assms(3)
  by (simp add: sys_find_memory_region_def)

theorem find_memory_region_refines_witness:
  "\<exists>r. sys_find_memory_region
         [\<lparr>x_low = 0, x_high = 1023, x_type = 1, x_v = False\<rparr>,
          \<lparr>x_low = 640, x_high = 767, x_type = 4, x_v = False\<rparr>] 1024 VMS_MEM_RAM VMS_MEM_IO = Ret r
     \<and> cover r = fold (scan_step VMS_MEM_RAM VMS_MEM_IO)
         [\<lparr>x_low = 0, x_high = 1023, x_type = 1, x_v = False\<rparr>,
          \<lparr>x_low = 640, x_high = 767, x_type = 4, x_v = False\<rparr>] {}
     \<and> (\<forall>d \<in> set r. granular d) \<and> apart r"
  by (rule find_memory_region_refines)
     (simp_all add: L4_MemoryDescLow_def L4_MemoryDescHigh_def kip_type_def mem_desc_type_of_def
        VMS_MEM_RAM_def VMS_MEM_IO_def)

text \<open>When a conventional memory descriptor overlaps the bottom of a region already found,
  \<open>sys$find_memory_region\<close> moves the region's base above the descriptor instead of down to it: the
  common part and the new part are both lost from the table.\<close>

theorem find_memory_region_loses_overlap:
  "\<exists>r. sys_find_memory_region
         [\<lparr>x_low = 4, x_high = 11, x_type = 1, x_v = False\<rparr>,
          \<lparr>x_low = 0, x_high = 7, x_type = 1, x_v = False\<rparr>] 1024 VMS_MEM_RAM VMS_MEM_IO = Ret r
     \<and> cover r = {0x2000..0x2fff}"
  by (simp add: sys_find_memory_region_def sys_find_memory_info_def L4_MemoryDescLow_def
      L4_MemoryDescHigh_def mem_desc_type_of_def VMS_MEM_RAM_def VMS_MEM_IO_def addrs_def)

end
