(* ===== verification/Boot_Objects.thy ===== *)
theory Boot_Objects
  imports Regions
begin

unbundle bit_operations_syntax

text \<open>
  The table of initial objects of \<open>sys/sys_ms_init.c\<close>: the string routines, and the scan of the
  kernel interface page and of the boot information for reserved memory, modules and programs.

  A C string is the list of its bytes with the terminating 0; an array is a list of its full length;
  reading or writing past the end of a list is a fault. The object table is the list of the entries
  written so far, and \<open>cap\<close> is the number of entries of the array behind it. The boot information is
  the list of its records, in the order of their chain.
\<close>

section \<open>Strings\<close>

fun zero_fill :: "u8 list \<Rightarrow> nat \<Rightarrow> nat \<Rightarrow> u8 list outcome" where
  "zero_fill dest i 0 = Ret dest"
| "zero_fill dest i (Suc n) = (if i < length dest then zero_fill (dest[i := 0]) (i + 1) n else Fault)"

fun strncpy_loop :: "u8 list \<Rightarrow> nat \<Rightarrow> u8 list \<Rightarrow> nat \<Rightarrow> u8 list outcome" where
  "strncpy_loop dest i src 0 = Ret dest"
| "strncpy_loop dest i [] (Suc n) = Fault"
| "strncpy_loop dest i (c # src) (Suc n) =
     (if i < length dest then
        if c \<noteq> 0 then strncpy_loop (dest[i := c]) (i + 1) src n else zero_fill (dest[i := c]) (i + 1) n
      else Fault)"

definition sys_strncpy :: "u8 list \<Rightarrow> u8 list \<Rightarrow> nat \<Rightarrow> u8 list outcome" where
  "sys_strncpy dest src n = strncpy_loop dest 0 src n"

text \<open>The copying loop of \<open>sys$strncat\<close> from index \<open>i\<close>; the last test writes the terminator when the
  loop stopped at \<open>n = 0\<close>.\<close>

fun strncat_loop :: "u8 list \<Rightarrow> nat \<Rightarrow> u8 list \<Rightarrow> nat \<Rightarrow> u8 list outcome" where
  "strncat_loop s i s2 0 = (if i < length s then Ret (if s ! i \<noteq> 0 then s[i := 0] else s) else Fault)"
| "strncat_loop s i [] (Suc n) = Fault"
| "strncat_loop s i (c # s2) (Suc n) =
     (if i < length s then
        if c \<noteq> 0 then strncat_loop (s[i := c]) (i + 1) s2 n else Ret (s[i := c])
      else Fault)"

fun end_of :: "u8 list \<Rightarrow> nat \<Rightarrow> nat option" where
  "end_of [] i = None"
| "end_of (c # cs) i = (if c = 0 then Some i else end_of cs (i + 1))"

definition sys_strncat :: "u8 list \<Rightarrow> u8 list \<Rightarrow> nat \<Rightarrow> u8 list outcome" where
  "sys_strncat s1 s2 n = (case end_of s1 0 of None \<Rightarrow> Fault | Some i \<Rightarrow> strncat_loop s1 i s2 n)"

text \<open>A literal as the bytes of a C string.\<close>

definition cstr :: "string \<Rightarrow> u8 list" where
  "cstr s = map (\<lambda>c. of_nat (of_char c)) s @ [0]"

section \<open>Initial objects\<close>

definition INITIAL_NAME_MAX :: nat where "INITIAL_NAME_MAX = 80"

record initial_obj =
  io_name :: "u8 list"
  io_flags :: u8
  io_base :: u64
  io_end :: u64
  io_entry :: u64

definition IOF_RESERVED :: u8 where "IOF_RESERVED = 0x01"
definition IOF_APP :: u8 where "IOF_APP = 0x02"
definition IOF_ROOT :: u8 where "IOF_ROOT = 0x04"
definition IOF_BOOT :: u8 where "IOF_BOOT = 0x08"
definition IOF_VIRT :: u8 where "IOF_VIRT = 0x10"
definition IOF_PHYS :: u8 where "IOF_PHYS = 0x20"

lemmas iof_defs = IOF_RESERVED_def IOF_APP_def IOF_ROOT_def IOF_BOOT_def IOF_VIRT_def IOF_PHYS_def

text \<open>\<open>sys$add_initial_object\<close> on the next entry of the table, whose name was cleared at start-up;
  \<open>None\<close> is the null name.\<close>

definition sys_add_initial_object ::
  "nat \<Rightarrow> initial_obj list \<Rightarrow> u8 list option \<Rightarrow> u64 \<Rightarrow> u64 \<Rightarrow> u64 \<Rightarrow> u8 \<Rightarrow> initial_obj list outcome" where
  "sys_add_initial_object cap objs name lo hi entry flags =
     fault_if (length objs \<ge> cap)
       (bindo (sys_strncpy (replicate INITIAL_NAME_MAX 0) (case name of None \<Rightarrow> cstr '''' | Some nm \<Rightarrow> nm) INITIAL_NAME_MAX) (\<lambda>nm.
          Ret (objs @ [\<lparr>io_name = nm[INITIAL_NAME_MAX - 1 := 0], io_flags = flags, io_base = lo, io_end = hi, io_entry = entry\<rparr>])))"

text \<open>The records of the boot information, with the fields that the code reads.\<close>

datatype bootrec =
    Module (m_cmdline: "u8 list option") (m_start: u64) (m_size: u64)
  | SimpleExec (se_cmdline: "u8 list option") (se_flags: u64) (text_vstart: u64) (text_size: u64)
      (data_vstart: u64) (data_size: u64) (initial_ip: u64)
  | Multiboot (mbi_address: u64)
  | OtherRec u64

record bootinfo =
  bi_valid :: bool
  bi_addr :: u64
  bi_size :: u64
  bi_records :: "bootrec list"

definition DIT_INITIAL :: u64 where "DIT_INITIAL = 32"

text \<open>The name of the data object: \<open>junk\<close> is the uninitialised array \<open>data_name\<close>.\<close>

definition data_object_name :: "u8 list \<Rightarrow> u8 list option \<Rightarrow> u8 list outcome" where
  "data_object_name junk cmdline =
     (case cmdline of
        None \<Rightarrow> Fault
      | Some nm \<Rightarrow> bindo (sys_strncpy junk nm (INITIAL_NAME_MAX - 5)) (\<lambda>d. sys_strncat d (cstr ''.data'') INITIAL_NAME_MAX))"

definition text_covers_data :: "bootrec \<Rightarrow> bool" where
  "text_covers_data r \<longleftrightarrow>
     data_vstart r < text_vstart r + text_size r \<and> data_vstart r \<ge> text_vstart r"

text \<open>One record: the table after it and the number of objects it gave.\<close>

fun add_record :: "nat \<Rightarrow> u8 list \<Rightarrow> bootrec \<Rightarrow> initial_obj list \<Rightarrow> (initial_obj list \<times> nat) outcome" where
  "add_record cap junk (Module cmd st sz) objs =
     bindo (sys_add_initial_object cap objs cmd st ((st + sz) - 1) 0 (IOF_APP OR IOF_PHYS)) (\<lambda>objs. Ret (objs, 1))"
| "add_record cap junk (SimpleExec cmd fl ts tn ds dn ip) objs =
     (let flags = (if fl AND DIT_INITIAL \<noteq> 0 then IOF_ROOT OR IOF_VIRT else IOF_APP)
      in bindo (sys_add_initial_object cap objs cmd ts ((ts + tn) - 1) ip (flags OR IOF_PHYS)) (\<lambda>objs.
           if \<not> text_covers_data (SimpleExec cmd fl ts tn ds dn ip) \<and> dn \<noteq> 0 then
             bindo (data_object_name junk cmd) (\<lambda>nm.
             bindo (sys_add_initial_object cap objs (Some nm) ds (ds + dn - 1) 0 (IOF_ROOT OR IOF_VIRT OR IOF_PHYS)) (\<lambda>objs.
               Ret (objs, 2)))
           else Ret (objs, 1)))"
| "add_record cap junk (Multiboot a) objs =
     bindo (sys_add_initial_object cap objs (Some (cstr ''MultiBoot information'')) a (a + 0xFFF) 0
              (IOF_PHYS OR IOF_BOOT OR IOF_VIRT)) (\<lambda>objs. Ret (objs, 1))"
| "add_record cap junk (OtherRec t) objs = Panic"

text \<open>The loop over the records: the table, the count, and whether the \<open>goto overflow\<close> was taken.\<close>

fun add_records :: "nat \<Rightarrow> u8 list \<Rightarrow> nat \<Rightarrow> bootrec list \<Rightarrow> initial_obj list \<Rightarrow> nat \<Rightarrow>
    (initial_obj list \<times> nat \<times> bool) outcome" where
  "add_records cap junk mx [] objs count = Ret (objs, count, False)"
| "add_records cap junk mx (r # rs) objs count =
     bindo (add_record cap junk r objs) (\<lambda>(objs, objects).
       if objects > 0 \<and> count + objects = mx then Ret (objs, count + objects, True)
       else add_records cap junk mx rs objs (count + objects))"

definition sys_bootinfo_find_initial_objects ::
  "nat \<Rightarrow> u8 list \<Rightarrow> bootinfo \<Rightarrow> nat \<Rightarrow> initial_obj list \<Rightarrow> (initial_obj list \<times> nat) outcome" where
  "sys_bootinfo_find_initial_objects cap junk bi mx objs =
     (if \<not> bi_valid bi then Ret (objs, 0)
      else bindo (add_records cap junk mx (bi_records bi) objs 0) (\<lambda>(objs, count, full).
        if full then Ret (objs, count)
        else bindo (sys_add_initial_object cap objs (Some (cstr ''Boot'')) (bi_addr bi) (bi_addr bi + (bi_size bi - 1)) 0
                      (IOF_BOOT OR IOF_PHYS OR IOF_VIRT)) (\<lambda>objs. Ret (objs, count + 1))))"

text \<open>The kernel interface page: its memory descriptors, the memory of \<open>sigma0\<close> and the boot
  information.\<close>

record kip_page =
  kip_memory :: "kip_memdesc list"
  kip_sigma0_low :: u64
  kip_sigma0_high :: u64
  kip_bootinfo :: bootinfo

definition L4_ReservedMemoryType :: u64 where "L4_ReservedMemoryType = 2"

fun reserved_objects :: "nat \<Rightarrow> nat \<Rightarrow> kip_memdesc list \<Rightarrow> initial_obj list \<Rightarrow> nat \<Rightarrow>
    (initial_obj list \<times> nat \<times> bool) outcome" where
  "reserved_objects cap mx [] objs count = Ret (objs, count, False)"
| "reserved_objects cap mx (d # ds) objs count =
     bindo (sys_find_memory_info d) (\<lambda>(low, high, ty, physical).
       if physical \<and> ty = L4_ReservedMemoryType then
         bindo (sys_add_initial_object cap objs (Some (cstr ''L4 Object'')) low high 0 (IOF_RESERVED OR IOF_PHYS)) (\<lambda>objs.
           if count + 1 = mx then Ret (objs, count + 1, True)
           else reserved_objects cap mx ds objs (count + 1))
       else reserved_objects cap mx ds objs count)"

definition sys_find_initial_objects ::
  "nat \<Rightarrow> u8 list \<Rightarrow> kip_page \<Rightarrow> nat \<Rightarrow> (initial_obj list \<times> nat) outcome" where
  "sys_find_initial_objects cap junk kip mx =
     bindo (reserved_objects cap mx (kip_memory kip) [] 0) (\<lambda>(objs, count, full).
       if full then Ret (objs, count)
       else bindo (sys_add_initial_object cap objs (Some (cstr ''L4 Sigma0'')) (kip_sigma0_low kip) (kip_sigma0_high kip) 0
                     (IOF_RESERVED OR IOF_PHYS)) (\<lambda>objs.
         if count + 1 = mx then Ret (objs, count + 1)
         else bindo (sys_bootinfo_find_initial_objects cap junk (kip_bootinfo kip) (mx - (count + 1)) objs) (\<lambda>(objs, k).
           Ret (objs, count + 1 + k))))"

text \<open>\<open>sys$set_flags\<close>.\<close>

definition sys_set_flags :: "initial_obj list \<Rightarrow> u8 \<Rightarrow> u8 \<Rightarrow> initial_obj list" where
  "sys_set_flags objs mt st =
     map (\<lambda>obj. if io_flags obj AND mt \<noteq> 0 then obj\<lparr>io_flags := io_flags obj OR st\<rparr> else obj) objs"


section \<open>The string routines\<close>

lemma zero_fill_spec: "i + n \<le> length dest \<Longrightarrow> zero_fill dest i n = Ret (take i dest @ replicate n 0 @ drop (i + n) dest)"
proof (induction dest i n rule: zero_fill.induct)
  case (2 dest i n)
  then have "i < length dest" by simp
  moreover have "take (Suc i) (dest[i := 0]) = take i dest @ [0]" using \<open>i < length dest\<close> by (simp add: take_Suc_conv_app_nth)
  ultimately show ?case using 2 by simp
qed simp

lemma strncpy_short:
  "i + n \<le> length dest \<Longrightarrow> 0 \<notin> set cs \<Longrightarrow> length cs < n \<Longrightarrow>
    strncpy_loop dest i (cs @ 0 # rest) n = Ret (take i dest @ cs @ replicate (n - length cs) 0 @ drop (i + n) dest)"
proof (induction cs arbitrary: dest i n)
  case Nil
  then obtain k where n: "n = Suc k" by (cases n) auto
  have "take (Suc i) (dest[i := 0]) = take i dest @ [0]" using Nil n by (simp add: take_Suc_conv_app_nth)
  then show ?case using Nil n by (simp add: zero_fill_spec)
next
  case (Cons c cs)
  then obtain k where n: "n = Suc k" by (cases n) auto
  have "take (Suc i) (dest[i := c]) = take i dest @ [c]" using Cons.prems n by (simp add: take_Suc_conv_app_nth)
  then show ?case using Cons.IH [of "i + 1" k "dest[i := c]"] Cons.prems n by simp
qed

lemma strncpy_long:
  "i + n \<le> length dest \<Longrightarrow> 0 \<notin> set cs \<Longrightarrow> n \<le> length cs \<Longrightarrow>
    strncpy_loop dest i (cs @ rest) n = Ret (take i dest @ take n cs @ drop (i + n) dest)"
proof (induction cs arbitrary: dest i n)
  case (Cons c cs)
  show ?case
  proof (cases n)
    case (Suc k)
    have "take (Suc i) (dest[i := c]) = take i dest @ [c]" using Cons.prems Suc by (simp add: take_Suc_conv_app_nth)
    then show ?thesis using Cons.IH [of "i + 1" k "dest[i := c]"] Cons.prems Suc by simp
  qed simp
qed simp

lemma length_zero_fill: "zero_fill dest i n = Ret d \<Longrightarrow> length d = length dest"
  by (induction dest i n rule: zero_fill.induct) (auto split: if_splits)

lemma length_strncpy: "strncpy_loop dest i src n = Ret d \<Longrightarrow> length d = length dest"
  by (induction dest i src n rule: strncpy_loop.induct) (auto split: if_splits dest: length_zero_fill)

lemma end_of_none: "0 \<notin> set cs \<Longrightarrow> end_of cs i = None"
  by (induction cs arbitrary: i) auto

lemma end_of_some: "0 \<notin> set cs \<Longrightarrow> end_of (cs @ 0 # rest) i = Some (i + length cs)"
  by (induction cs arbitrary: i) auto

lemma strncat_spec:
  "0 \<notin> set cs \<Longrightarrow> length cs < n \<Longrightarrow> i + length cs < length s \<Longrightarrow>
    strncat_loop s i (cs @ 0 # rest) n = Ret (take i s @ cs @ 0 # drop (i + length cs + 1) s)"
proof (induction cs arbitrary: s i n)
  case Nil
  then obtain k where n: "n = Suc k" by (cases n) auto
  show ?case using Nil n by (simp add: upd_conv_take_nth_drop)
next
  case (Cons c cs)
  then obtain k where n: "n = Suc k" by (cases n) auto
  have "take (Suc i) (s[i := c]) = take i s @ [c]" using Cons.prems by (simp add: take_Suc_conv_app_nth)
  then show ?case using Cons.IH [of k "i + 1" "s[i := c]"] Cons.prems n by simp
qed

text \<open>The characters before the terminator, as the readers of a name see them.\<close>

definition c_text :: "u8 list \<Rightarrow> u8 list" where
  "c_text s = takeWhile (\<lambda>c. c \<noteq> 0) s"

lemma c_text_eq: "0 \<notin> set cs \<Longrightarrow> c_text (cs @ 0 # rest) = cs"
  unfolding c_text_def by (subst takeWhile_append2) auto

lemma add_object_named:
  assumes "0 \<notin> set cs" "length objs < cap"
  shows "\<exists>obj. sys_add_initial_object cap objs (Some (cs @ 0 # rest)) lo hi entry flags = Ret (objs @ [obj]) \<and>
    c_text (io_name obj) = take 79 cs \<and> length (io_name obj) = INITIAL_NAME_MAX \<and>
    io_base obj = lo \<and> io_end obj = hi \<and> io_flags obj = flags \<and> io_entry obj = entry"
proof -
  let ?z = "replicate INITIAL_NAME_MAX (0 :: u8)"
  have z: "INITIAL_NAME_MAX = 80" by (simp add: INITIAL_NAME_MAX_def)
  obtain d where d: "strncpy_loop ?z 0 (cs @ 0 # rest) 80 = Ret d" "c_text (d[79 := 0]) = take 79 cs" "length d = 80"
  proof (cases "length cs < 80")
    case True
    let ?d = "cs @ replicate (80 - length cs) 0"
    have s: "strncpy_loop ?z 0 (cs @ 0 # rest) 80 = Ret ?d"
      using strncpy_short [of 0 80 ?z cs rest] assms(1) True z by simp
    have "?d[79 := 0] = cs @ 0 # replicate (79 - length cs) 0"
      using True by (intro nth_equalityI) (auto simp: nth_append nth_list_update nth_Cons')
    then show ?thesis using that [OF s] c_text_eq [OF assms(1)] True by simp
  next
    case False
    let ?d = "take 80 cs"
    have s: "strncpy_loop ?z 0 (cs @ 0 # rest) 80 = Ret ?d"
      using strncpy_long [of 0 80 ?z cs "0 # rest"] assms(1) False z by simp
    have e: "?d[79 := 0] = take 79 cs @ 0 # []"
      using False by (intro nth_equalityI) (auto simp: nth_append nth_list_update)
    have "0 \<notin> set (take 79 cs)" using assms(1) by (auto dest: in_set_takeD)
    then have "c_text (?d[79 := 0]) = take 79 cs" unfolding e by (rule c_text_eq)
    then show ?thesis using that [OF s] False by simp
  qed
  show ?thesis
    using d assms(2) unfolding sys_add_initial_object_def sys_strncpy_def z
    by (intro exI [of _ "\<lparr>io_name = d[79 := 0], io_flags = flags, io_base = lo, io_end = hi, io_entry = entry\<rparr>"]) simp
qed

text \<open>C30: the name that \<open>sys$add_initial_object\<close> stores reads back as the first 79 characters of the
  name it was given, and the other fields as they were given.\<close>

theorem object_name_roundtrip:
  assumes "0 \<notin> set cs" "length objs < cap"
  shows "\<exists>obj. sys_add_initial_object cap objs (Some (cs @ 0 # rest)) lo hi entry flags = Ret (objs @ [obj]) \<and>
    c_text (io_name obj) = take 79 cs \<and> length (io_name obj) = INITIAL_NAME_MAX \<and>
    io_base obj = lo \<and> io_end obj = hi \<and> io_flags obj = flags \<and> io_entry obj = entry"
  by (rule add_object_named [OF assms])

theorem object_name_roundtrip_witness:
  "\<exists>obj. sys_add_initial_object 4 [] (Some ([65, 66] @ 0 # [])) 0x1000 0x1fff 0 IOF_BOOT = Ret ([] @ [obj]) \<and>
    c_text (io_name obj) = [65, 66]"
  using object_name_roundtrip [of "[65, 66]" "[]" 4 "[]" "0x1000" "0x1fff" 0 IOF_BOOT] by auto

section \<open>The table of objects\<close>

definition name_ok :: "initial_obj \<Rightarrow> bool" where
  "name_ok obj \<longleftrightarrow> length (io_name obj) = INITIAL_NAME_MAX \<and> io_name obj ! (INITIAL_NAME_MAX - 1) = 0"

text \<open>\<open>grown cap objs objs' k\<close>: the table \<open>objs'\<close> is \<open>objs\<close> with \<open>k\<close> well-named objects behind it, and
  fits the array.\<close>

definition grown :: "nat \<Rightarrow> initial_obj list \<Rightarrow> initial_obj list \<Rightarrow> nat \<Rightarrow> bool" where
  "grown cap objs objs' k \<longleftrightarrow> (\<exists>new. objs' = objs @ new \<and> length new = k \<and> (\<forall>obj \<in> set new. name_ok obj)) \<and>
     (0 < k \<longrightarrow> length objs' \<le> cap)"

lemma grown_0 [simp]: "grown cap objs objs 0"
  by (simp add: grown_def)

lemma grown_trans: "grown cap a b j \<Longrightarrow> grown cap b c k \<Longrightarrow> grown cap a c (j + k)"
  unfolding grown_def by (cases "k = 0") auto

lemma add_object_grown: "sys_add_initial_object cap objs nm lo hi en fl = Ret objs' \<Longrightarrow> grown cap objs objs' 1"
  by (auto simp: sys_add_initial_object_def sys_strncpy_def grown_def name_ok_def INITIAL_NAME_MAX_def not_le
      dest!: length_strncpy)

lemma add_record_grown: "add_record cap junk r objs = Ret (objs', k) \<Longrightarrow> grown cap objs objs' k"
proof (cases r)
  case (SimpleExec cmd fl ts tn ds dn ip)
  assume "add_record cap junk r objs = Ret (objs', k)"
  moreover have "grown cap objs objs' 2" if "grown cap objs x 1" "grown cap x objs' 1" for x
    using grown_trans [OF that] by (simp add: numeral_2_eq_2)
  ultimately show ?thesis using SimpleExec
    by (auto simp: Let_def split: if_splits dest!: add_object_grown)
qed (auto dest: add_object_grown)

lemma add_records_grown:
  "add_records cap junk mx rs objs count = Ret (objs', k, full) \<Longrightarrow> count \<le> k \<and> grown cap objs objs' (k - count)"
proof (induction cap junk mx rs objs count rule: add_records.induct)
  case (2 cap junk mx r rs objs count)
  obtain o1 j where a: "add_record cap junk r objs = Ret (o1, j)" using "2.prems" by auto
  note g = add_record_grown [OF a]
  show ?case
  proof (cases "j > 0 \<and> count + j = mx")
    case True
    then show ?thesis using "2.prems" a g by auto
  next
    case False
    then have "add_records cap junk mx rs o1 (count + j) = Ret (objs', k, full)"
      using "2.prems" a by (simp add: if_not_P del: de_Morgan_conj)
    from "2.IH" [OF False this] have h: "count + j \<le> k" "grown cap o1 objs' (k - (count + j))" by auto
    have "j + (k - (count + j)) = k - count" using h(1) by simp
    then show ?thesis using grown_trans [OF g h(2)] h(1) by simp
  qed
qed simp

lemma reserved_objects_grown:
  "reserved_objects cap mx ds objs count = Ret (objs', k, full) \<Longrightarrow> count \<le> k \<and> grown cap objs objs' (k - count)"
proof (induction cap mx ds objs count rule: reserved_objects.induct)
  case (2 cap mx d ds objs count)
  obtain low high ty ph where i: "sys_find_memory_info d = Ret (low, high, ty, ph)" using "2.prems" by auto
  show ?case
  proof (cases "ph \<and> ty = L4_ReservedMemoryType")
    case False
    then have "reserved_objects cap mx ds objs count = Ret (objs', k, full)" using "2.prems" i by auto
    then show ?thesis using "2.IH"(2) [OF False] by simp
  next
    case True
    then obtain o1 where o1: "sys_add_initial_object cap objs (Some (cstr ''L4 Object'')) low high 0 (IOF_RESERVED OR IOF_PHYS) = Ret o1"
      using "2.prems" i by auto
    note g = add_object_grown [OF o1]
    show ?thesis
    proof (cases "count + 1 = mx")
      case True
      then show ?thesis using "2.prems" i o1 g \<open>ph \<and> ty = L4_ReservedMemoryType\<close> by auto
    next
      case False
      then have "reserved_objects cap mx ds o1 (count + 1) = Ret (objs', k, full)" using "2.prems" i o1 True by auto
      from "2.IH"(1) [OF True False this] have h: "count + 1 \<le> k" "grown cap o1 objs' (k - (count + 1))"
        by auto
      have "1 + (k - (count + 1)) = k - count" using h(1) by simp
      then show ?thesis using grown_trans [OF g h(2)] h(1) by simp
    qed
  qed
qed simp

lemma bootinfo_grown:
  "sys_bootinfo_find_initial_objects cap junk bi mx objs = Ret (objs', k) \<Longrightarrow> grown cap objs objs' k"
  by (auto simp: sys_bootinfo_find_initial_objects_def split: if_splits dest!: add_records_grown add_object_grown
      intro: grown_trans [where k = 1, simplified])



text \<open>A kernel interface page with one reserved descriptor and a module.\<close>

definition sample_kip :: kip_page where
  "sample_kip = \<lparr>kip_memory = [\<lparr>x_low = 0, x_high = 3, x_type = 2, x_v = False\<rparr>], kip_sigma0_low = 0x20000,
     kip_sigma0_high = 0x2ffff, kip_bootinfo = \<lparr>bi_valid = True, bi_addr = 0x9000, bi_size = 0x100,
     bi_records = [Module (Some [109, 0]) 0x100000 0x1000]\<rparr>\<rparr>"

lemma sample_kip_scan: "\<exists>objs. sys_find_initial_objects 8 [] sample_kip 8 = Ret (objs, 4) \<and> length objs = 4"
proof -
  have a: "\<exists>obj. sys_add_initial_object 8 objs (Some (cs @ [0])) lo hi en fl = Ret (objs @ [obj])"
    if "0 \<notin> set cs" "length objs < 8" for objs cs lo hi en fl
    using add_object_named [OF that, where rest = "[]"] by blast
  have n: "\<exists>obj. sys_add_initial_object 8 objs (Some (cstr nm)) lo hi en fl = Ret (objs @ [obj])"
    if "length objs < 8" "nm \<in> {''L4 Object'', ''L4 Sigma0'', ''Boot''}" for objs nm lo hi en fl
    unfolding cstr_def by (rule a) (use that in auto)
  obtain o1 where o1: "sys_add_initial_object 8 [] (Some (cstr ''L4 Object'')) 0 0xfff 0 (IOF_RESERVED OR IOF_PHYS) = Ret ([] @ [o1])"
    using n [of "[]" "''L4 Object''" 0 "0xfff" 0 "IOF_RESERVED OR IOF_PHYS"] by auto
  obtain o2 where o2: "sys_add_initial_object 8 [o1] (Some (cstr ''L4 Sigma0'')) 0x20000 0x2ffff 0 (IOF_RESERVED OR IOF_PHYS) = Ret ([o1] @ [o2])"
    using n [of "[o1]" "''L4 Sigma0''" "0x20000" "0x2ffff" 0 "IOF_RESERVED OR IOF_PHYS"] by auto
  obtain o3 where o3: "sys_add_initial_object 8 [o1, o2] (Some [109, 0]) 0x100000 0x100fff 0 (IOF_APP OR IOF_PHYS) = Ret ([o1, o2] @ [o3])"
    using a [of "[109]" "[o1, o2]" "0x100000" "0x100fff" 0 "IOF_APP OR IOF_PHYS"] by auto
  obtain o4 where o4: "sys_add_initial_object 8 [o1, o2, o3] (Some (cstr ''Boot'')) 0x9000 0x90ff 0 (IOF_BOOT OR IOF_PHYS OR IOF_VIRT) = Ret ([o1, o2, o3] @ [o4])"
    using n [of "[o1, o2, o3]" "''Boot''" "0x9000" "0x90ff" 0 "IOF_BOOT OR IOF_PHYS OR IOF_VIRT"] by auto
  have "sys_find_initial_objects 8 [] sample_kip 8 = Ret ([o1, o2, o3, o4], 4)"
    using o1 o2 o3 o4
    by (simp add: sys_find_initial_objects_def sample_kip_def sys_find_memory_info_def L4_MemoryDescLow_def
        L4_MemoryDescHigh_def L4_ReservedMemoryType_def sys_bootinfo_find_initial_objects_def
        panic_if_def del: bindo_eq_Ret_iff)
  then show ?thesis by simp
qed


section \<open>Limits that are not kept\<close>

lemma data_name_short:
  assumes "0 \<notin> set cs" "length cs < 75" "length junk = 80"
  shows "\<exists>nm. data_object_name junk (Some (cs @ 0 # rest)) = Ret nm"
proof -
  let ?d = "cs @ replicate (75 - length cs) 0 @ drop 75 junk"
  have 1: "sys_strncpy junk (cs @ 0 # rest) 75 = Ret ?d"
    using strncpy_short [of 0 75 junk cs rest] assms by (simp add: sys_strncpy_def)
  have "?d = cs @ 0 # (replicate (74 - length cs) 0 @ drop 75 junk)" using assms(2)
    by (cases "75 - length cs") auto
  then have e: "end_of ?d 0 = Some (length cs)" using end_of_some [OF assms(1), of _ 0] by simp
  have c: "cstr ''.data'' = map (\<lambda>c. of_nat (of_char c)) ''.data'' @ 0 # []" by (simp add: cstr_def)
  have "0 \<notin> set (map (\<lambda>c. of_nat (of_char c)) ''.data'' :: u8 list)" by simp
  from strncat_spec [OF this, of 80 "length cs" ?d "[]"] e 1 assms
  have "\<exists>nm. sys_strncat ?d (cstr ''.data'') 80 = Ret nm" unfolding sys_strncat_def c e by simp
  then show ?thesis using 1 by (auto simp: data_object_name_def INITIAL_NAME_MAX_def)
qed

text \<open>With one entry of the table left, a program with a separate data segment makes the scan of
  the boot information write behind the array: the limit is compared with the count only after both
  objects of the record have been written.\<close>

theorem object_table_overrun:
  assumes "0 \<notin> set cs" "length cs < 75" "length junk = 80" "length objs + 1 = cap"
    and "r = SimpleExec (Some (cs @ 0 # rest)) fl ts tn ds dn ip" "\<not> text_covers_data r" "dn \<noteq> 0"
  shows "add_records cap junk (cap - length objs) (r # rs) objs 0 = Fault"
proof -
  have "length objs < cap" using assms(4) by simp
  from add_object_named [OF assms(1) this, of rest]
  have a: "\<exists>obj. sys_add_initial_object cap objs (Some (cs @ 0 # rest)) lo hi en f = Ret (objs @ [obj])" for lo hi en f
    by blast
  have b: "sys_add_initial_object cap (objs @ [obj]) nm lo hi en f = Fault" for obj nm lo hi en f
    using assms(4) by (simp add: sys_add_initial_object_def)
  obtain nm where nm: "data_object_name junk (Some (cs @ 0 # rest)) = Ret nm"
    using data_name_short [OF assms(1-3)] by blast
  show ?thesis
    using a [of ts "(ts + tn) - 1" ip "(if fl AND DIT_INITIAL \<noteq> 0 then IOF_ROOT OR IOF_VIRT else IOF_APP) OR IOF_PHYS"]
      b nm assms(5-7) by (auto simp: Let_def)
qed

theorem object_table_overrun_witness:
  "add_records 1 (replicate 80 1) 1 (SimpleExec (Some ([97] @ 0 # [])) 32 0x1000 0x1000 0x8000 0x1000 0x1000 # []) [] 0 = Fault"
  using object_table_overrun [of "[97]" "replicate 80 1" "[]" 1
      "SimpleExec (Some ([97] @ 0 # [])) 32 0x1000 0x1000 0x8000 0x1000 0x1000" "[]" 32 "0x1000" "0x1000" "0x8000" "0x1000" "0x1000" "[]"]
  by (simp add: text_covers_data_def)

text \<open>For a command line of 75 characters or more the name of the data object is built on an
  array without a terminator: when the uninitialised rest of the array has no zero byte, the search
  for the end runs out of it.\<close>

theorem data_name_unterminated:
  assumes "0 \<notin> set cs" "75 \<le> length cs" "length junk = 80" "0 \<notin> set (drop 75 junk)"
  shows "data_object_name junk (Some (cs @ 0 # rest)) = Fault"
proof -
  have 1: "sys_strncpy junk (cs @ 0 # rest) 75 = Ret (take 75 cs @ drop 75 junk)"
    using strncpy_long [of 0 75 junk cs "0 # rest"] assms by (simp add: sys_strncpy_def)
  have "0 \<notin> set (take 75 cs @ drop 75 junk)" using assms(1,4) by (auto dest: in_set_takeD)
  then have "sys_strncat (take 75 cs @ drop 75 junk) (cstr ''.data'') 80 = Fault"
    by (simp add: sys_strncat_def end_of_none)
  then show ?thesis using 1 by (simp add: data_object_name_def INITIAL_NAME_MAX_def)
qed

theorem data_name_unterminated_witness:
  "data_object_name (replicate 80 1) (Some (replicate 75 97 @ 0 # [])) = Fault"
  by (rule data_name_unterminated) simp_all

end
