(* ===== verification/Btree.thy ===== *)
theory Btree
  imports Interfaces
begin

text \<open>
  The B+ tree of \<open>sys/sys_btree.c\<close> that the object table keeps its memory sections in. Pages are
  owned by their parent only, so a tree is a value of the datatype \<open>bpage\<close> and a page that the code
  changes in place is returned changed. The arrays of a page have their full length; \<open>count\<close> says how
  much of them is used. An entry of \<open>child\<close> is \<open>NULL\<close>, an object (in a leaf) or a page: reading one as
  the other is a fault. \<open>ap\<close> is \<open>ObjAllocPage\<close> on the state \<open>'s\<close> of the memory manager; it returns 0
  when there is no memory.
\<close>

section \<open>The model\<close>

text \<open>The fields of a memory section that the tree reads, and its address.\<close>

record btobj =
  ob_ptr :: ptr
  ob_base :: u64
  ob_end :: u64

datatype bpage = Page (pg_count: nat) (pg_leaf: bool) (pg_key: "u64 list") (pg_child: "bchild list")
  and bchild = Null | Obj btobj | Sub bpage

definition BT_ORDER :: nat where "BT_ORDER = 255"
definition BT_MAXKEY :: nat where "BT_MAXKEY = BT_ORDER - 1"
definition BT_MINKEY :: nat where "BT_MINKEY = BT_MAXKEY div 2"

definition BT_OK :: int where "BT_OK = 0"
definition BT_INVALID :: int where "BT_INVALID = 1"
definition BT_NOT_FOUND :: int where "BT_NOT_FOUND = 2"
definition BT_DUPLICATE :: int where "BT_DUPLICATE = 3"
definition BT_OVERLAP :: int where "BT_OVERLAP = 4"
definition BT_ALLOC_fail :: int where "BT_ALLOC_fail = 5"
definition BT_PROMOTION :: int where "BT_PROMOTION = 6"

lemmas bt_codes = BT_OK_def BT_INVALID_def BT_NOT_FOUND_def BT_DUPLICATE_def BT_OVERLAP_def
  BT_ALLOC_fail_def BT_PROMOTION_def

definition BTGetObjKey :: "btobj \<Rightarrow> u64" where
  "BTGetObjKey obj = ob_base obj"

definition BTObjMatch :: "btobj \<Rightarrow> u64 \<Rightarrow> bool" where
  "BTObjMatch obj ky \<longleftrightarrow> ky \<ge> ob_base obj \<and> ky \<le> ob_end obj"

definition BTOverlaps :: "btobj \<Rightarrow> btobj \<Rightarrow> bool" where
  "BTOverlaps o1 o2 \<longleftrightarrow>
     ob_end o1 \<ge> ob_base o2 \<and> ob_end o1 \<le> ob_end o2 \<or> ob_base o1 \<ge> ob_base o2 \<and> ob_base o1 \<le> ob_end o2"

text \<open>The binary search of both operations: the index, and whether the key was met.\<close>

function bt_find :: "u64 list \<Rightarrow> u64 \<Rightarrow> nat \<Rightarrow> nat \<Rightarrow> nat \<times> bool" where
  "bt_find ks key lo hi =
     (if lo < hi then
        let mid = (lo + hi) div 2
        in if ks ! mid = key then (mid + 1, True)
           else if ks ! mid > key then bt_find ks key lo mid
           else bt_find ks key (mid + 1) hi
      else (hi, False))"
  by pat_completeness auto
termination by (relation "measure (\<lambda>(_, _, lo, hi). hi - lo)") auto

declare bt_find.simps [simp del]

lemma child_smaller: "i < length cs \<Longrightarrow> cs ! i = Sub p \<Longrightarrow> size p < size (Page n leaf ks cs)"
  using size_list_estimation' [of "cs ! i" cs "size (Sub p)" size] nth_mem [of i cs] by fastforce

function search_page :: "bpage \<Rightarrow> u64 \<Rightarrow> btobj outcome" where
  "search_page (Page n leaf ks cs) key =
     (let hi = fst (bt_find ks key 0 n)
      in if hi < length cs then
           (if leaf then (case cs ! hi of Obj obj \<Rightarrow> Ret obj | _ \<Rightarrow> Fault)
            else (case cs ! hi of Sub p \<Rightarrow> search_page p key | _ \<Rightarrow> Fault))
         else Fault)"
  by pat_completeness auto
termination
  by (relation "measure (\<lambda>(p, _). size p)") (auto simp del: bpage.size bchild.size intro: child_smaller [simplified])

record btree =
  bt_depth :: int
  bt_root :: "bpage option"

text \<open>\<open>ObjBTSearch\<close>: \<open>None\<close> is a null tree. The object is stored through the pointer also when the
  key is not found in it.\<close>

definition BTSearch :: "btree option \<Rightarrow> u64 \<Rightarrow> (int \<times> btobj option) outcome" where
  "BTSearch bt key =
     (case bt of
        None \<Rightarrow> Ret (BT_INVALID, None)
      | Some t \<Rightarrow>
          (case bt_root t of
             None \<Rightarrow> Ret (BT_NOT_FOUND, None)
           | Some p \<Rightarrow> bindo (search_page p key) (\<lambda>obj.
               Ret (if BTObjMatch obj key then BT_OK else BT_NOT_FOUND, Some obj))))"

text \<open>The loop of \<open>BTInsertPage\<close> that moves the entries up, from index \<open>i - 1\<close> down to \<open>lo\<close>.\<close>

fun shift_up :: "nat \<Rightarrow> nat \<Rightarrow> u64 list \<Rightarrow> bchild list \<Rightarrow> u64 list \<times> bchild list" where
  "shift_up lo 0 ks cs = (ks, cs)"
| "shift_up lo (Suc i) ks cs =
     (if i \<ge> lo then shift_up lo i (ks[i + 1 := ks ! i]) (cs[i + 2 := cs ! (i + 1)]) else (ks, cs))"

definition BTInsertPage :: "bpage \<Rightarrow> int \<Rightarrow> u64 \<Rightarrow> bchild \<Rightarrow> bpage outcome" where
  "BTInsertPage current hi kpromoted ppromoted =
     (case current of Page n leaf ks0 cs0 \<Rightarrow>
        if n \<ge> BT_MAXKEY then Fault
        else case shift_up (nat (max hi 0)) n ks0 cs0 of (ks, cs) \<Rightarrow>
          if hi < 0 then
            (case cs ! 0 of
               Obj obj \<Rightarrow> Ret (Page (n + 1) leaf (ks[0 := BTGetObjKey obj])
                 ((cs[1 := cs ! 0])[0 := ppromoted]))
             | _ \<Rightarrow> Fault)
          else Ret (Page (n + 1) leaf (ks[nat hi := kpromoted]) (cs[nat hi + 1 := ppromoted])))"

text \<open>The copying loop of the split: \<open>n\<close> entries from index \<open>j\<close> of the old page to index \<open>i\<close> of the
  new one, cleared behind it.\<close>

fun split_copy :: "nat \<Rightarrow> nat \<Rightarrow> nat \<Rightarrow> u64 list \<Rightarrow> bchild list \<Rightarrow> u64 list \<Rightarrow> bchild list \<Rightarrow>
    u64 list \<times> bchild list \<times> u64 list \<times> bchild list" where
  "split_copy 0 j i ks cs nks ncs = (ks, cs, nks, ncs)"
| "split_copy (Suc n) j i ks cs nks ncs =
     split_copy n (j + 1) (i + 1) (ks[j := 0]) (cs[j + 1 := Null])
       (nks[i := ks ! j]) (ncs[i + 1 := cs ! (j + 1)])"

text \<open>The split of a full page: the old page with \<open>cnt\<close> keys left, the new page, and the key between
  them. The unused part of the new page is cleared.\<close>

definition split_page :: "bool \<Rightarrow> u64 list \<Rightarrow> bchild list \<Rightarrow> int \<Rightarrow> u64 \<Rightarrow> bpage \<times> bpage \<times> u64 \<times> bool" where
  "split_page leaf ks cs hi kpromoted =
     (let in_old = (hi < int BT_MINKEY);
          ccount = (if in_old then BT_MINKEY - 1 else BT_MINKEY);
          ncount = (if in_old then BT_MAXKEY - BT_MINKEY else BT_MAXKEY - BT_MINKEY - 1);
          kmed = (if \<not> in_old \<and> hi = int BT_MINKEY then kpromoted else ks ! ccount);
          ks1 = (if \<not> in_old \<and> hi = int BT_MINKEY then ks else ks[ccount := 0]);
          ncs0 = (replicate BT_ORDER Null)[0 := cs ! (ccount + 1)];
          cs1 = cs[ccount + 1 := Null];
          (ks2, cs2, nks, ncs) = split_copy ncount (ccount + 1) 0 ks1 cs1 (replicate BT_MAXKEY 0) ncs0
      in (Page ccount leaf ks2 cs2, Page ncount leaf nks ncs, kmed, in_old))"

text \<open>What follows the return of the recursive call, or the leaf case, with \<open>BT_PROMOTION\<close>.\<close>

definition promote :: "('s \<Rightarrow> (ptr \<times> 's) outcome) \<Rightarrow> bpage \<Rightarrow> int \<Rightarrow> u64 \<Rightarrow> bchild \<Rightarrow> 's \<Rightarrow>
    (int \<times> bpage \<times> u64 \<times> bchild \<times> 's) outcome" where
  "promote ap current hi kpromoted ppromoted s =
     (case current of Page n leaf ks cs \<Rightarrow>
        if n < BT_MAXKEY then
          bindo (BTInsertPage current hi kpromoted ppromoted) (\<lambda>p. Ret (BT_OK, p, kpromoted, ppromoted, s))
        else bindo (ap s) (\<lambda>(newp, s).
          if newp = 0 then Ret (BT_ALLOC_fail, current, kpromoted, ppromoted, s)
          else case split_page leaf ks cs hi kpromoted of (old, new, kmed, in_old) \<Rightarrow>
            if in_old then
              bindo (BTInsertPage old hi kpromoted ppromoted) (\<lambda>old'.
                Ret (BT_PROMOTION, old', kmed, Sub new, s))
            else
              bindo (BTInsertPage new (hi - (int (pg_count old) + 1)) kpromoted ppromoted) (\<lambda>new'.
                Ret (BT_PROMOTION, old, kmed, Sub new', s))))"

text \<open>The leaf case: the overlap tests, the neighbour, and the index -1 for a key below the first
  object.\<close>

definition leaf_case :: "bchild list \<Rightarrow> nat \<Rightarrow> btobj \<Rightarrow> (int + (int \<times> btobj)) outcome" where
  "leaf_case cs hi obj =
     (case cs ! hi of
        Obj o1 \<Rightarrow>
          if BTObjMatch o1 (BTGetObjKey obj) \<or> hi = 0 \<and> BTOverlaps obj o1 then Ret (Inl BT_OVERLAP)
          else Ret (Inr (if hi = 0 \<and> BTGetObjKey obj < BTGetObjKey o1 then -1 else int hi, o1))
      | _ \<Rightarrow> Fault)"

text \<open>\<open>BTInsert\<close>: the code, the page changed in place, the promoted key and child, the neighbour if it
  was set, and the state.\<close>

function BTInsert :: "('s \<Rightarrow> (ptr \<times> 's) outcome) \<Rightarrow> bchild \<Rightarrow> btobj \<Rightarrow> 's \<Rightarrow>
    (int \<times> bchild \<times> u64 \<times> bchild \<times> btobj option \<times> 's) outcome" where
  "BTInsert ap Null obj s = Ret (BT_PROMOTION, Null, BTGetObjKey obj, Null, None, s)"
| "BTInsert ap (Obj o1) obj s = Fault"
| "BTInsert ap (Sub (Page n leaf ks cs)) obj s =
     (let key = BTGetObjKey obj; (hi, dup) = bt_find ks key 0 n
      in if dup then Ret (BT_DUPLICATE, Sub (Page n leaf ks cs), key, Null, None, s)
         else if hi < n \<and> BTObjMatch obj (ks ! hi)
         then Ret (BT_OVERLAP, Sub (Page n leaf ks cs), key, Null, None, s)
         else if hi \<ge> length cs then Fault
         else if leaf then
           bindo (leaf_case cs hi obj) (\<lambda>r. case r of
             Inl e \<Rightarrow> Ret (e, Sub (Page n leaf ks cs), key, Null, None, s)
           | Inr (hi', ngb) \<Rightarrow>
               bindo (promote ap (Page n leaf ks cs) hi' key (Obj obj) s) (\<lambda>(r, p, kp, pp, s).
                 Ret (r, Sub p, kp, pp, Some ngb, s)))
         else
           bindo (BTInsert ap (cs ! hi) obj s) (\<lambda>(r, c, kp, pp, ngb, s).
             let cur = Page n leaf ks (cs[hi := c])
             in if r = BT_PROMOTION then
                  bindo (promote ap cur (int hi) kp pp s) (\<lambda>(r, p, kp, pp, s).
                    Ret (r, Sub p, kp, pp, ngb, s))
                else Ret (r, Sub cur, kp, pp, ngb, s)))"
  by pat_completeness auto
termination
proof (relation "measure (\<lambda>(_, c, _, _). size c)", goal_cases)
  case (2 ap n leaf ks cs obj s key x hi dup)
  then have "hi < length cs" by simp
  then have "size (cs ! hi) \<le> size_list size cs" using size_list_estimation' [of "cs ! hi" cs _ size] by simp
  then show ?case by simp
qed simp

text \<open>The tree code, the tree and the state after \<open>ObjBTIns\<close>. The result of \<open>BTInsert\<close> is dropped: the
  last statement returns 0.\<close>

definition new_root :: "nat \<Rightarrow> bool \<Rightarrow> u64 list \<Rightarrow> bchild list \<Rightarrow> bpage" where
  "new_root n leaf ks cs =
     Page n leaf (ks @ replicate (BT_MAXKEY - length ks) 0) (cs @ replicate (BT_ORDER - length cs) Null)"

definition BTIns :: "('s \<Rightarrow> (ptr \<times> 's) outcome) \<Rightarrow> btree option \<Rightarrow> btobj \<Rightarrow> 's \<Rightarrow>
    (int \<times> btree option \<times> 's) outcome" where
  "BTIns ap bt obj s =
     (case bt of
        None \<Rightarrow> Ret (BT_INVALID, None, s)
      | Some t \<Rightarrow>
          (case bt_root t of
             None \<Rightarrow>
               bindo (ap s) (\<lambda>(newroot, s).
                 if newroot = 0 then Ret (BT_ALLOC_fail, bt, s)
                 else Ret (BT_OK, Some (t\<lparr>bt_root := Some (new_root 0 True [] [Obj obj]), bt_depth := 1\<rparr>), s))
           | Some root \<Rightarrow>
               bindo (BTInsert ap (Sub root) obj s) (\<lambda>(retval, c, kpromoted, ppromoted, ngb, s).
                 let t1 = (case c of Sub p \<Rightarrow> t\<lparr>bt_root := Some p\<rparr> | _ \<Rightarrow> t)
                 in if retval = BT_PROMOTION then
                      bindo (ap s) (\<lambda>(newroot, s).
                        if newroot = 0 then Ret (BT_ALLOC_fail, Some t1, s)
                        else Ret (0, Some (t1\<lparr>bt_root := Some (new_root 1 False [kpromoted] [c, ppromoted]),
                                             bt_depth := bt_depth t1 + 1\<rparr>), s))
                    else Ret (0, Some t1, s))))"

section \<open>Contents of a page\<close>

abbreviation keys_of :: "bpage \<Rightarrow> u64 list" where "keys_of p \<equiv> take (pg_count p) (pg_key p)"
abbreviation kids_of :: "bpage \<Rightarrow> bchild list" where "kids_of p \<equiv> take (Suc (pg_count p)) (pg_child p)"

definition arrays_ok :: "bpage \<Rightarrow> bool" where
  "arrays_ok p \<longleftrightarrow> length (pg_key p) = BT_MAXKEY \<and> length (pg_child p) = BT_ORDER \<and> pg_count p \<le> BT_MAXKEY"

lemma bt_sizes [simp]: "BT_MAXKEY = 254" "BT_ORDER = 255" "BT_MINKEY = 127"
  by (simp_all add: BT_MAXKEY_def BT_ORDER_def BT_MINKEY_def)

lemma shift_up_spec:
  assumes "shift_up lo n ks cs = (ks', cs')" "n < length ks" "n + 1 < length cs"
  shows "length ks' = length ks \<and> length cs' = length cs \<and>
    (\<forall>i < length ks. ks' ! i = (if lo < i \<and> i \<le> n then ks ! (i - 1) else ks ! i)) \<and>
    (\<forall>i < length cs. cs' ! i = (if lo + 1 < i \<and> i \<le> n + 1 then cs ! (i - 1) else cs ! i))"
  using assms
proof (induction lo n ks cs rule: shift_up.induct)
  case (2 lo i ks cs)
  show ?case
  proof (cases "i \<ge> lo")
    case True
    let ?ks = "ks[i + 1 := ks ! i]"
    let ?cs = "cs[i + 2 := cs ! (i + 1)]"
    have IH: "length ks' = length ?ks \<and> length cs' = length ?cs \<and>
      (\<forall>k < length ?ks. ks' ! k = (if lo < k \<and> k \<le> i then ?ks ! (k - 1) else ?ks ! k)) \<and>
      (\<forall>k < length ?cs. cs' ! k = (if lo + 1 < k \<and> k \<le> i + 1 then ?cs ! (k - 1) else ?cs ! k))"
      by (rule "2.IH" [OF True]) (use 2 True in auto)
    have "ks' ! k = (if lo < k \<and> k \<le> Suc i then ks ! (k - 1) else ks ! k)" if "k < length ks" for k
      using IH that True by (cases "k = Suc i") (auto simp: nth_list_update)
    moreover have "cs' ! k = (if lo + 1 < k \<and> k \<le> Suc i + 1 then cs ! (k - 1) else cs ! k)"
      if "k < length cs" for k
      using IH that True by (cases "k = i + 2") (auto simp: nth_list_update)
    ultimately show ?thesis using IH by simp
  next
    case False
    then show ?thesis using 2 by auto
  qed
qed auto

lemma insert_page_at:
  assumes "arrays_ok p" "pg_count p < BT_MAXKEY" "hi \<le> pg_count p"
  obtains p' where "BTInsertPage p (int hi) k c = Ret p'" "arrays_ok p'" "pg_leaf p' = pg_leaf p"
    "pg_count p' = pg_count p + 1"
    "keys_of p' = take hi (keys_of p) @ k # drop hi (keys_of p)"
    "kids_of p' = take (Suc hi) (kids_of p) @ c # drop (Suc hi) (kids_of p)"
proof -
  obtain n leaf ks cs where p: "p = Page n leaf ks cs" by (cases p)
  obtain ks' cs' where s: "shift_up hi n ks cs = (ks', cs')" by force
  have len: "length ks = 254" "length cs = 255" "n < 254" "hi \<le> n" using assms p by (auto simp: arrays_ok_def)
  note sp = shift_up_spec [OF s]
  have sp': "length ks' = 254" "length cs' = 255"
    "\<And>i. i < 254 \<Longrightarrow> ks' ! i = (if hi < i \<and> i \<le> n then ks ! (i - 1) else ks ! i)"
    "\<And>i. i < 255 \<Longrightarrow> cs' ! i = (if hi + 1 < i \<and> i \<le> n + 1 then cs ! (i - 1) else cs ! i)"
    using sp len by auto
  let ?p = "Page (n + 1) leaf (ks'[hi := k]) (cs'[hi + 1 := c])"
  have 1: "BTInsertPage p (int hi) k c = Ret ?p"
    using p s len by (simp add: BTInsertPage_def)
  have 2: "arrays_ok ?p" using sp'(1,2) len by (simp add: arrays_ok_def)
  have 3: "keys_of ?p = take hi (keys_of p) @ k # drop hi (keys_of p)"
  proof (rule nth_equalityI)
    show "length (keys_of ?p) = length (take hi (keys_of p) @ k # drop hi (keys_of p))"
      using p len sp'(1) by simp
    fix i assume "i < length (keys_of ?p)"
    then have "i \<le> n" using sp'(1) len by simp
    then show "keys_of ?p ! i = (take hi (keys_of p) @ k # drop hi (keys_of p)) ! i"
      using p len sp'(1,3) by (cases "i < hi"; cases "i = hi") (auto simp: nth_append nth_Cons' min_def)
  qed
  have 4: "kids_of ?p = take (Suc hi) (kids_of p) @ c # drop (Suc hi) (kids_of p)"
  proof (rule nth_equalityI)
    show "length (kids_of ?p) = length (take (Suc hi) (kids_of p) @ c # drop (Suc hi) (kids_of p))"
      using p len sp'(2) by simp
    fix i assume "i < length (kids_of ?p)"
    then have "i \<le> n + 1" using sp'(2) len by simp
    moreover have "Suc (i - 2) = i - Suc 0" if "\<not> i < Suc hi" "i \<noteq> Suc hi" using that by simp
    ultimately show "kids_of ?p ! i = (take (Suc hi) (kids_of p) @ c # drop (Suc hi) (kids_of p)) ! i"
      using p len sp'(2,4) by (cases "i < hi + 1"; cases "i = hi + 1") (auto simp: nth_append nth_Cons' min_def)
  qed
  show thesis by (rule that [OF 1 2 _ _ 3 4]) (simp_all add: p)
qed

lemma insert_page_front:
  assumes "arrays_ok p" "pg_count p < BT_MAXKEY" "kids_of p = Obj o0 # rest"
  obtains p' where "BTInsertPage p (-1) k c = Ret p'" "arrays_ok p'" "pg_leaf p' = pg_leaf p"
    "pg_count p' = pg_count p + 1"
    "keys_of p' = BTGetObjKey o0 # keys_of p" "kids_of p' = c # kids_of p"
proof -
  obtain n leaf ks cs where p: "p = Page n leaf ks cs" by (cases p)
  obtain ks' cs' where s: "shift_up 0 n ks cs = (ks', cs')" by force
  have len: "length ks = 254" "length cs = 255" "n < 254" using assms p by (auto simp: arrays_ok_def)
  note sp = shift_up_spec [OF s]
  have sp': "length ks' = 254" "length cs' = 255"
    "\<And>i. i < 254 \<Longrightarrow> ks' ! i = (if 0 < i \<and> i \<le> n then ks ! (i - 1) else ks ! i)"
    "\<And>i. i < 255 \<Longrightarrow> cs' ! i = (if 1 < i \<and> i \<le> n + 1 then cs ! (i - 1) else cs ! i)"
    using sp len by auto
  have "cs ! 0 = Obj o0" using assms(3) p len by (cases cs) auto
  then have c0: "cs' ! 0 = Obj o0" using sp'(4) [of 0] by simp
  let ?p = "Page (n + 1) leaf (ks'[0 := BTGetObjKey o0]) ((cs'[1 := cs' ! 0])[0 := c])"
  have 1: "BTInsertPage p (-1) k c = Ret ?p"
    using p s len c0 by (simp add: BTInsertPage_def)
  have 2: "arrays_ok ?p" using sp'(1,2) len by (simp add: arrays_ok_def)
  have 3: "keys_of ?p = BTGetObjKey o0 # keys_of p"
  proof (rule nth_equalityI)
    fix i assume "i < length (keys_of ?p)"
    then have "i \<le> n" using sp'(1) len by simp
    then show "keys_of ?p ! i = (BTGetObjKey o0 # keys_of p) ! i"
      using p len sp'(1,3) by (cases i) auto
  qed (use p len sp' in simp)
  have 4: "kids_of ?p = c # kids_of p"
  proof (rule nth_equalityI)
    fix i assume "i < length (kids_of ?p)"
    then have i: "i \<le> n + 1" using sp'(2) len by simp
    show "kids_of ?p ! i = (c # kids_of p) ! i"
    proof (cases i)
      case (Suc j)
      then show ?thesis using p len sp'(2,4) c0 i \<open>cs ! 0 = Obj o0\<close>
        by (cases j) (auto simp: nth_list_update)
    qed (use sp'(2) in simp)
  qed (use p len sp' in simp)
  show thesis by (rule that [OF 1 2 _ _ 3 4]) (simp_all add: p)
qed

lemma split_copy_spec:
  assumes "split_copy n j i ks cs nks ncs = (ks', cs', nks', ncs')"
    and "j + n \<le> length ks" "j + n < length cs" "i + n \<le> length nks" "i + n < length ncs"
  shows "length ks' = length ks \<and> length cs' = length cs \<and> length nks' = length nks \<and> length ncs' = length ncs \<and>
    (\<forall>x < j. ks' ! x = ks ! x) \<and> (\<forall>x \<le> j. cs' ! x = cs ! x) \<and>
    (\<forall>x < n. nks' ! (i + x) = ks ! (j + x)) \<and> (\<forall>x < n. ncs' ! (i + 1 + x) = cs ! (j + 1 + x)) \<and>
    (\<forall>x < i. nks' ! x = nks ! x) \<and> (\<forall>x \<le> i. ncs' ! x = ncs ! x)"
  using assms
proof (induction n j i ks cs nks ncs rule: split_copy.induct)
  case (2 n j i ks cs nks ncs)
  let ?ks = "ks[j := 0]" and ?cs = "cs[j + 1 := Null]"
  let ?nks = "nks[i := ks ! j]" and ?ncs = "ncs[i + 1 := cs ! (j + 1)]"
  have IH: "length ks' = length ?ks \<and> length cs' = length ?cs \<and> length nks' = length ?nks \<and> length ncs' = length ?ncs \<and>
    (\<forall>x < j + 1. ks' ! x = ?ks ! x) \<and> (\<forall>x \<le> j + 1. cs' ! x = ?cs ! x) \<and>
    (\<forall>x < n. nks' ! (i + 1 + x) = ?ks ! (j + 1 + x)) \<and> (\<forall>x < n. ncs' ! (i + 1 + 1 + x) = ?cs ! (j + 1 + 1 + x)) \<and>
    (\<forall>x < i + 1. nks' ! x = ?nks ! x) \<and> (\<forall>x \<le> i + 1. ncs' ! x = ?ncs ! x)"
    by (rule "2.IH") (use "2.prems" in auto)
  have "nks' ! (i + x) = ks ! (j + x)" if "x < Suc n" for x
    using IH "2.prems" that by (cases x) auto
  moreover have "ncs' ! (i + 1 + x) = cs ! (j + 1 + x)" if "x < Suc n" for x
    using IH "2.prems" that by (cases x) auto
  ultimately show ?case using IH "2.prems" by auto
qed auto

text \<open>The split of a full page, in terms of its keys and children.\<close>

lemma take_nth_eqI: "length xs = n \<Longrightarrow> n \<le> length ys \<Longrightarrow> (\<And>i. i < n \<Longrightarrow> xs ! i = ys ! i) \<Longrightarrow> xs = take n ys"
  by (rule nth_equalityI) auto

lemma split_page_spec:
  assumes "length ks = BT_MAXKEY" "length cs = BT_ORDER"
    and "split_page leaf ks cs hi kp = (old, new, kmed, in_old)"
    and c: "c = (if hi < int BT_MINKEY then BT_MINKEY - 1 else BT_MINKEY)"
  shows "in_old = (hi < int BT_MINKEY)" "arrays_ok old" "arrays_ok new"
    "pg_leaf old = leaf" "pg_leaf new = leaf" "pg_count old = c" "pg_count new = BT_MAXKEY - 1 - c"
    "keys_of old = take c ks" "kids_of old = take (Suc c) cs"
    "keys_of new = drop (Suc c) ks" "kids_of new = drop (Suc c) cs"
    "kmed = (if hi = int BT_MINKEY then kp else ks ! c)"
proof -
  let ?n = "if hi < int BT_MINKEY then BT_MAXKEY - BT_MINKEY else BT_MAXKEY - BT_MINKEY - 1"
  let ?ks1 = "if hi \<ge> int BT_MINKEY \<and> hi = int BT_MINKEY then ks else ks[c := 0]"
  let ?ncs0 = "(replicate BT_ORDER Null)[0 := cs ! (c + 1)]"
  obtain ks2 cs2 nks ncs where sc: "split_copy ?n (c + 1) 0 ?ks1 (cs[c + 1 := Null]) (replicate BT_MAXKEY 0) ?ncs0 =
    (ks2, cs2, nks, ncs)" by (metis prod_cases4)
  have cn: "c + 1 + ?n = 254" "?n = 253 - c" "c \<le> 127" using c by auto
  have r: "old = Page c leaf ks2 cs2" "new = Page ?n leaf nks ncs"
    "kmed = (if hi = int BT_MINKEY then kp else ks ! c)" "in_old = (hi < int BT_MINKEY)"
    using assms(3) sc unfolding split_page_def c
    by (auto simp: Let_def not_less split: prod.splits if_splits)
  have l1: "length ?ks1 = 254" using assms(1) by simp
  note sp = split_copy_spec [OF sc]
  have S: "length ks2 = 254" "length cs2 = 255" "length nks = 254" "length ncs = 255"
    "\<And>x. x < c + 1 \<Longrightarrow> ks2 ! x = ?ks1 ! x" "\<And>x. x \<le> c + 1 \<Longrightarrow> cs2 ! x = (cs[c + 1 := Null]) ! x"
    "\<And>x. x < ?n \<Longrightarrow> nks ! x = ?ks1 ! (c + 1 + x)"
    "\<And>x. x < ?n \<Longrightarrow> ncs ! (1 + x) = (cs[c + 1 := Null]) ! (c + 1 + 1 + x)" "ncs ! 0 = cs ! (c + 1)"
    using sp cn l1 assms(2) by auto
  show "in_old = (hi < int BT_MINKEY)" "kmed = (if hi = int BT_MINKEY then kp else ks ! c)" using r by auto
  show "arrays_ok old" "arrays_ok new" using r(1,2) S(1-4) cn by (auto simp: arrays_ok_def)
  show "pg_leaf old = leaf" "pg_leaf new = leaf" "pg_count old = c" "pg_count new = BT_MAXKEY - 1 - c"
    using r(1,2) cn by auto
  show "keys_of old = take c ks"
    by (rule take_nth_eqI) (use r(1) S(1,5) cn assms(1) in auto)
  show "kids_of old = take (Suc c) cs"
    by (rule take_nth_eqI) (use r(1) S(2,6) cn assms(2) in auto)
  show "keys_of new = drop (Suc c) ks"
  proof (rule nth_equalityI)
    show "length (keys_of new) = length (drop (Suc c) ks)" using r(2) S(3) cn assms(1) by simp
    fix x assume "x < length (keys_of new)"
    then have x: "x < ?n" using r(2) S(3) cn by simp
    have "keys_of new ! x = nks ! x" using r(2) x by simp
    also have "\<dots> = ?ks1 ! (c + 1 + x)" by (rule S(7) [OF x])
    also have "\<dots> = ks ! (c + 1 + x)" by simp
    finally show "keys_of new ! x = drop (Suc c) ks ! x" using cn assms(1) by simp
  qed
  show "kids_of new = drop (Suc c) cs"
  proof (rule nth_equalityI)
    show "length (kids_of new) = length (drop (Suc c) cs)" using r(2) S(4) cn assms(2) by simp
    fix x assume "x < length (kids_of new)"
    then have x: "x < Suc ?n" using r(2) S(4) cn by simp
    have "kids_of new ! x = ncs ! x" using r(2) x by simp
    also have "\<dots> = cs ! (Suc c + x)" using S(8) [of "x - 1"] S(9) x by (cases x) auto
    finally show "kids_of new ! x = drop (Suc c) cs ! x" using cn assms(2) by simp
  qed
qed

section \<open>Well-formed trees\<close>

primrec objs_page :: "bpage \<Rightarrow> btobj set" and objs_child :: "bchild \<Rightarrow> btobj set" where
  "objs_page (Page n leaf ks cs) = \<Union> (set (take (Suc n) (map objs_child cs)))"
| "objs_child Null = {}"
| "objs_child (Obj obj) = {obj}"
| "objs_child (Sub p) = objs_page p"

definition has_base :: "u64 \<Rightarrow> btobj set \<Rightarrow> bool" where
  "has_base k obs \<longleftrightarrow> (\<exists>obj \<in> obs. ob_base obj = k)"

text \<open>Keys and children alternate: the objects below a child lie between the keys beside it, and the
  child right of a key holds the object with that key. A child is given by its well-formedness
  between two bounds and its objects.\<close>

fun seq_ok :: "nat \<Rightarrow> u64 list \<Rightarrow> ((nat \<Rightarrow> nat \<Rightarrow> bool) \<times> btobj set) list \<Rightarrow> nat \<Rightarrow> bool" where
  "seq_ok lo [] [(w, _)] hi \<longleftrightarrow> w lo hi \<and> lo < hi"
| "seq_ok lo (k # K) ((w, _) # (w2, O2) # C) hi \<longleftrightarrow>
     w lo (unat k) \<and> lo < unat k \<and> has_base k O2 \<and> seq_ok (unat k) K ((w2, O2) # C) hi"
| "seq_ok lo _ _ hi \<longleftrightarrow> False"

primrec wf_page :: "bpage \<Rightarrow> nat \<Rightarrow> nat \<Rightarrow> bool" and wf_child :: "bchild \<Rightarrow> nat \<Rightarrow> nat \<Rightarrow> bool" where
  "wf_page (Page n leaf ks cs) = (\<lambda>lo hi. arrays_ok (Page n leaf ks cs) \<and>
     (\<forall>c \<in> set (take (Suc n) cs). if leaf then \<exists>obj. c = Obj obj else \<exists>p. c = Sub p) \<and>
     seq_ok lo (take n ks) (take (Suc n) (map (\<lambda>c. (wf_child c, objs_child c)) cs)) hi)"
| "wf_child Null = (\<lambda>lo hi. False)"
| "wf_child (Obj obj) = (\<lambda>lo hi. lo \<le> unat (ob_base obj) \<and> ob_base obj \<le> ob_end obj \<and> unat (ob_end obj) < hi)"
| "wf_child (Sub p) = wf_page p"

text \<open>The sequence of keys and children, over the children themselves.\<close>

fun wfs :: "nat \<Rightarrow> u64 list \<Rightarrow> bchild list \<Rightarrow> nat \<Rightarrow> bool" where
  "wfs lo [] C hi \<longleftrightarrow> (\<exists>c. C = [c] \<and> wf_child c lo hi \<and> lo < hi)"
| "wfs lo (k # K) C hi \<longleftrightarrow> (\<exists>c d D. C = c # d # D \<and> wf_child c lo (unat k) \<and> lo < unat k \<and>
     has_base k (objs_child d) \<and> wfs (unat k) K (d # D) hi)"

lemma seq_ok_wfs: "seq_ok lo K (map (\<lambda>c. (wf_child c, objs_child c)) C) hi = wfs lo K C hi"
proof (induction K arbitrary: lo C)
  case Nil
  show ?case by (cases C rule: remdups_adj.cases) auto
next
  case (Cons k K)
  show ?case
  proof (cases C rule: remdups_adj.cases)
    case (3 c d D)
    then show ?thesis using Cons [of "unat k" "d # D"] by simp
  qed auto
qed

lemma wf_page_iff:
  "wf_page p lo hi \<longleftrightarrow> arrays_ok p \<and>
     (\<forall>c \<in> set (kids_of p). if pg_leaf p then \<exists>obj. c = Obj obj else \<exists>q. c = Sub q) \<and>
     wfs lo (keys_of p) (kids_of p) hi"
  by (cases p) (simp add: take_map seq_ok_wfs)

lemma objs_page_kids: "objs_page p = \<Union> (objs_child ` set (kids_of p))"
  by (cases p) (simp add: take_map)

lemma wfs_length: "wfs lo K C hi \<Longrightarrow> length C = Suc (length K)"
  by (induction K arbitrary: lo C) fastforce+

lemma wfs_less: "wfs lo K C hi \<Longrightarrow> lo < hi"
  by (induction K arbitrary: lo C) fastforce+

lemma wfs_append:
  "length C1 = Suc (length K1) \<Longrightarrow> C2 \<noteq> [] \<Longrightarrow>
    wfs lo (K1 @ k # K2) (C1 @ C2) hi \<longleftrightarrow>
      wfs lo K1 C1 (unat k) \<and> has_base k (objs_child (hd C2)) \<and> wfs (unat k) K2 C2 hi"
proof (induction K1 arbitrary: lo C1)
  case Nil
  then obtain c where "C1 = [c]" by (cases C1) auto
  with Nil show ?case by (cases C2) auto
next
  case (Cons x K1)
  then obtain c d D where C1: "C1 = c # d # D" by (cases C1 rule: remdups_adj.cases) auto
  with Cons.IH [of "d # D" "unat x"] Cons.prems show ?case by simp
qed

lemma wfs_keys: "wfs lo K C hi \<Longrightarrow> sorted_wrt (<) K \<and> (\<forall>k \<in> set K. lo < unat k \<and> unat k < hi)"
proof (induction K arbitrary: lo C)
  case (Cons k K)
  then obtain D where D: "wfs (unat k) K D hi" "lo < unat k" by auto
  from Cons.IH [OF D(1)] D wfs_less [OF D(1)] show ?case by (auto simp: word_less_nat_alt)
qed simp

text \<open>The child at an index, with its bounds.\<close>

abbreviation lower :: "nat \<Rightarrow> u64 list \<Rightarrow> nat" where "lower lo K1 \<equiv> last (lo # map unat K1)"
abbreviation upper :: "nat \<Rightarrow> u64 list \<Rightarrow> nat" where "upper hi K2 \<equiv> hd (map unat K2 @ [hi])"

lemma wfs_focus:
  "length C1 = length K1 \<Longrightarrow> length C2 = length K2 \<Longrightarrow> wfs lo (K1 @ K2) (C1 @ c # C2) hi \<Longrightarrow>
    wf_child c (lower lo K1) (upper hi K2) \<and> lower lo K1 < upper hi K2 \<and>
    (K1 \<noteq> [] \<longrightarrow> has_base (last K1) (objs_child c))"
proof (induction K1 arbitrary: lo C1)
  case Nil
  then show ?case by (cases K2; cases C2) auto
next
  case (Cons k K1)
  then obtain x X where C1: "C1 = x # X" "length X = length K1" by (cases C1) auto
  have w: "wfs (unat k) (K1 @ K2) (X @ c # C2) hi" and hb: "has_base k (objs_child (hd (X @ [c])))"
    using Cons.prems(3) C1 by (cases X; auto)+
  from Cons.IH [OF C1(2) Cons.prems(2) w] hb C1(2) show ?case by (cases K1) auto
qed

lemma wfs_replace:
  assumes "length C1 = length K1" "length C2 = length K2" "wfs lo (K1 @ K2) (C1 @ c # C2) hi"
    and "length C' = Suc (length K')" "wfs (lower lo K1) K' C' (upper hi K2)"
    and "K1 \<noteq> [] \<longrightarrow> has_base (last K1) (objs_child (hd C'))"
  shows "wfs lo (K1 @ K' @ K2) (C1 @ C' @ C2) hi"
  using assms
proof (induction K1 arbitrary: lo C1)
  case Nil
  show ?case
  proof (cases K2)
    case Nil
    then show ?thesis using Nil.prems by simp
  next
    case (Cons k K)
    then obtain d D where C2: "C2 = d # D" using Nil.prems(2) by (cases C2) auto
    have "wfs lo K' C' (unat k)" using Nil.prems(5) Cons by simp
    moreover have "has_base k (objs_child d)" "wfs (unat k) K (d # D) hi" using Nil.prems(1,3) Cons C2 by auto
    ultimately show ?thesis
      using wfs_append [of C' K' "d # D" lo k K hi] Nil.prems(1,4) Cons C2 by simp
  qed
next
  case (Cons k K1)
  then obtain x X where C1: "C1 = x # X" "length X = length K1" by (cases C1) auto
  have w: "wfs (unat k) (K1 @ K2) (X @ c # C2) hi" "wf_child x lo (unat k)" "lo < unat k"
    and hb: "has_base k (objs_child (hd (X @ [c])))"
    using Cons.prems(3) C1 by (cases X; auto)+
  have "wfs (unat k) (K1 @ K' @ K2) (X @ C' @ C2) hi"
    by (rule Cons.IH [OF C1(2) Cons.prems(2) w(1) Cons.prems(4)]) (use Cons.prems in \<open>auto split: if_splits\<close>)
  moreover obtain d D where dD: "X @ C' @ C2 = d # D"
    using Cons.prems(4) by (cases X; cases C') auto
  moreover have "has_base k (objs_child d)"
  proof (cases K1)
    case Nil
    then have "X = []" using C1 by simp
    then show ?thesis using dD Nil Cons.prems(4,6) by (cases C') auto
  next
    case Cons
    then obtain y Y where "X = y # Y" using C1 by (cases X) auto
    then show ?thesis using dD hb by auto
  qed
  ultimately show ?case using C1 w(2,3) by simp
qed

lemma wfs_mem: "wfs lo K C hi \<Longrightarrow> c \<in> set C \<Longrightarrow> \<exists>a b. lo \<le> a \<and> b \<le> hi \<and> wf_child c a b"
proof (induction K arbitrary: lo C)
  case (Cons k K)
  then obtain x d D where D: "C = x # d # D" "wf_child x lo (unat k)" "lo < unat k" "wfs (unat k) K (d # D) hi"
    by auto
  show ?case
  proof (cases "c = x")
    case True
    then show ?thesis using D wfs_less [OF D(4)] by (intro exI [of _ lo] exI [of _ "unat k"]) simp
  next
    case False
    then have "c \<in> set (d # D)" using Cons.prems(2) D(1) by simp
    from Cons.IH [OF D(4) this] D(3) show ?thesis by (meson less_imp_le order_trans)
  qed
next
  case Nil
  then show ?case by (intro exI [of _ lo] exI [of _ hi]) auto
qed

lemma wf_objs_bounds:
  "wf_page p lo hi \<Longrightarrow> obj \<in> objs_page p \<Longrightarrow>
     lo \<le> unat (ob_base obj) \<and> ob_base obj \<le> ob_end obj \<and> unat (ob_end obj) < hi"
  "wf_child c lo hi \<Longrightarrow> obj \<in> objs_child c \<Longrightarrow>
     lo \<le> unat (ob_base obj) \<and> ob_base obj \<le> ob_end obj \<and> unat (ob_end obj) < hi"
proof (induction p and c arbitrary: lo hi and lo hi)
  case (Page n leaf ks cs)
  obtain c where c: "c \<in> set (take (Suc n) cs)" "obj \<in> objs_child c"
    using Page.prems(2) by (auto simp: objs_page_kids simp del: objs_page.simps)
  obtain a b where ab: "lo \<le> a" "b \<le> hi" "wf_child c a b"
    using wfs_mem [of lo "take n ks" "take (Suc n) cs" hi c] Page.prems(1) c(1)
    by (auto simp: wf_page_iff simp del: wf_page.simps)
  have "c \<in> set cs" using c(1) by (rule in_set_takeD)
  from Page.IH [OF this ab(3) c(2)] ab show ?case by auto
qed auto

text \<open>The binary search on the used keys.\<close>

lemma bt_find_spec:
  assumes "bt_find ks key lo hi = (r, dup)" "lo \<le> hi" "hi \<le> n" "sorted_wrt (<) (take n ks)" "n \<le> length ks"
    and "\<forall>i < lo. ks ! i < key" "\<forall>i. hi \<le> i \<and> i < n \<longrightarrow> key < ks ! i"
  shows "lo \<le> r \<and> r \<le> n \<and> (\<forall>i < r. ks ! i \<le> key) \<and> (\<forall>i. r \<le> i \<and> i < n \<longrightarrow> key < ks ! i) \<and>
    dup = (\<exists>i < n. ks ! i = key) \<and> (\<not> dup \<longrightarrow> (\<forall>i < r. ks ! i < key))"
  using assms
proof (induction ks key lo hi arbitrary: r dup rule: bt_find.induct)
  case (1 ks key lo hi)
  have srt: "ks ! i < ks ! j" if "i < j" "j < n" for i j
    using sorted_wrt_nth_less [OF "1.prems"(4) that(1)] that "1.prems"(5) by simp
  show ?case
  proof (cases "lo < hi")
    case True
    let ?mid = "(lo + hi) div 2"
    have mid: "lo \<le> ?mid" "?mid < hi" using True by auto
    consider "ks ! ?mid = key" | "ks ! ?mid > key" | "ks ! ?mid < key" by (meson linorder_cases)
    then show ?thesis
    proof cases
      case 1
      then have r: "r = ?mid + 1" "dup" using "1.prems"(1) True bt_find.simps [of ks key lo hi]
        by (simp_all add: Let_def)
      have "ks ! i \<le> key" if "i < r" for i
        using srt [of i ?mid] that r 1 mid "1.prems"(3) by (cases "i = ?mid") auto
      moreover have "key < ks ! i" if "r \<le> i" "i < n" for i using srt [of ?mid i] that r 1 by auto
      moreover have "\<exists>i < n. ks ! i = key" using 1 mid(2) "1.prems"(3) by (intro exI [of _ ?mid]) simp
      ultimately show ?thesis using r mid "1.prems"(3) by simp
    next
      case 2
      then have "ks ! ?mid \<noteq> key" by simp
      then have e: "bt_find ks key lo ?mid = (r, dup)"
        using "1.prems"(1) True 2 bt_find.simps [of ks key lo hi] by (simp add: Let_def)
      have up: "\<forall>i. ?mid \<le> i \<and> i < n \<longrightarrow> key < ks ! i"
      proof (intro allI impI)
        fix i assume "?mid \<le> i \<and> i < n"
        then show "key < ks ! i" using srt [of ?mid i] 2 by (cases "i = ?mid") auto
      qed
      have ne: "ks ! ?mid \<noteq> key" and mn: "?mid \<le> n" using 2 mid(2) "1.prems"(3) by auto
      show ?thesis by (rule "1.IH"(1) [OF True refl ne 2 e mid(1) mn "1.prems"(4-6) up])
    next
      case 3
      then have "ks ! ?mid \<noteq> key" "\<not> ks ! ?mid > key" by simp_all
      then have e: "bt_find ks key (?mid + 1) hi = (r, dup)"
        using "1.prems"(1) True bt_find.simps [of ks key lo hi] by (simp add: Let_def)
      have dn: "\<forall>i < ?mid + 1. ks ! i < key"
      proof (intro allI impI)
        fix i assume "i < ?mid + 1"
        then show "ks ! i < key" using srt [of i ?mid] 3 mid "1.prems"(3) by (cases "i = ?mid") auto
      qed
      have ne: "ks ! ?mid \<noteq> key" "\<not> ks ! ?mid > key" using 3 by auto
      have mn: "?mid + 1 \<le> hi" using mid(2) by simp
      have "?mid + 1 \<le> r \<and> r \<le> n \<and> (\<forall>i < r. ks ! i \<le> key) \<and> (\<forall>i. r \<le> i \<and> i < n \<longrightarrow> key < ks ! i) \<and>
          dup = (\<exists>i < n. ks ! i = key) \<and> (\<not> dup \<longrightarrow> (\<forall>i < r. ks ! i < key))"
        by (rule "1.IH"(2) [OF True refl ne e mn "1.prems"(3-5) dn "1.prems"(7)])
      then show ?thesis using mid(1) add_leD1 [of ?mid 1 r] order_trans [of lo ?mid r] by blast
    qed
  next
    case False
    then have r: "r = hi" "\<not> dup" "lo = hi" using "1.prems"(1,2) bt_find.simps [of ks key lo hi] by simp_all
    have "ks ! i \<noteq> key" if "i < n" for i
      using "1.prems"(6) [rule_format, of i] "1.prems"(7) [rule_format, of i] that r(3) by (cases "i < lo") auto
    then show ?thesis using "1.prems"(3,6,7) r by (simp add: less_imp_le)
  qed
qed

lemma find_in_page:
  assumes "wf_page p lo hi" "bt_find (pg_key p) key 0 (pg_count p) = (r, dup)"
  shows "r \<le> pg_count p" "r < length (pg_child p)"
    "\<forall>k \<in> set (take r (keys_of p)). k \<le> key" "\<forall>k \<in> set (drop r (keys_of p)). key < k"
    "dup = (key \<in> set (keys_of p))" "\<not> dup \<Longrightarrow> \<forall>k \<in> set (take r (keys_of p)). k < key"
    "pg_child p ! r \<in> set (kids_of p)" "length (keys_of p) = pg_count p" "length (kids_of p) = Suc (pg_count p)"
proof -
  have a: "arrays_ok p" and w: "wfs lo (keys_of p) (kids_of p) hi" using assms(1) by (auto simp: wf_page_iff)
  have n: "pg_count p \<le> length (pg_key p)" "Suc (pg_count p) \<le> length (pg_child p)"
    using a by (auto simp: arrays_ok_def)
  have nk: "\<forall>i. pg_count p \<le> i \<and> i < pg_count p \<longrightarrow> key < pg_key p ! i" by auto
  note f = bt_find_spec [OF assms(2) _ order_refl _ n(1) _ nk]
  have s: "r \<le> pg_count p" "\<forall>i < r. pg_key p ! i \<le> key" "\<forall>i. r \<le> i \<and> i < pg_count p \<longrightarrow> key < pg_key p ! i"
    "dup = (\<exists>i < pg_count p. pg_key p ! i = key)" "\<not> dup \<longrightarrow> (\<forall>i < r. pg_key p ! i < key)"
    using f wfs_keys [OF w] by auto
  then show "r \<le> pg_count p" "r < length (pg_child p)" using n by auto
  show "length (keys_of p) = pg_count p" "length (kids_of p) = Suc (pg_count p)" using n by auto
  show "\<forall>k \<in> set (take r (keys_of p)). k \<le> key" "\<not> dup \<Longrightarrow> \<forall>k \<in> set (take r (keys_of p)). k < key"
    using s n by (auto simp: in_set_conv_nth)
  show "\<forall>k \<in> set (drop r (keys_of p)). key < k" using s n by (auto simp: in_set_conv_nth)
  show "dup = (key \<in> set (keys_of p))" using s(4) n by (auto simp: in_set_conv_nth)
  show "pg_child p ! r \<in> set (kids_of p)" using s(1) n by (auto simp: in_set_conv_nth intro!: exI [of _ r])
qed

text \<open>The page split at the index that the search found.\<close>

lemma page_focus:
  assumes "wf_page p lo hi" "r \<le> pg_count p"
  shows "kids_of p = take r (kids_of p) @ pg_child p ! r # drop (Suc r) (kids_of p)"
    "keys_of p = take r (keys_of p) @ drop r (keys_of p)"
    "length (take r (kids_of p)) = length (take r (keys_of p))"
    "length (drop (Suc r) (kids_of p)) = length (drop r (keys_of p))"
proof -
  have n: "pg_count p \<le> length (pg_key p)" "Suc (pg_count p) \<le> length (pg_child p)"
    using assms(1) by (auto simp: arrays_ok_def wf_page_iff)
  have "r < length (kids_of p)" using assms(2) n by simp
  from id_take_nth_drop [OF this] show "kids_of p = take r (kids_of p) @ pg_child p ! r # drop (Suc r) (kids_of p)"
    using assms(2) by simp
  show "keys_of p = take r (keys_of p) @ drop r (keys_of p)" by (rule append_take_drop_id [symmetric])
  show "length (take r (kids_of p)) = length (take r (keys_of p))"
    "length (drop (Suc r) (kids_of p)) = length (drop r (keys_of p))" using assms(2) n by auto
qed


section \<open>Look-up\<close>

lemma wfs_objs:
  assumes "wfs lo K C hi" "c \<in> set C" "obj \<in> objs_child c"
  shows "lo \<le> unat (ob_base obj)" "ob_base obj \<le> ob_end obj" "unat (ob_end obj) < hi"
proof -
  obtain a b where ab: "lo \<le> a" "b \<le> hi" "wf_child c a b" using wfs_mem [OF assms(1,2)] by blast
  from wf_objs_bounds(2) [OF ab(3) assms(3)] ab(1,2)
  show "lo \<le> unat (ob_base obj)" "ob_base obj \<le> ob_end obj" "unat (ob_end obj) < hi" by auto
qed

text \<open>Only the child between the keys can hold an object that contains the key.\<close>

lemma wfs_match_left:
  assumes "wfs lo (K1 @ K2) (C1 @ c # C2) hi" "length C1 = length K1" "\<forall>k \<in> set K1. k \<le> key"
    and "d \<in> set C1" "obj \<in> objs_child d"
  shows "ob_end obj < key"
proof -
  obtain K k where K: "K1 = K @ [k]" using assms(2,4) by (cases K1 rule: rev_exhaust) auto
  have "wfs lo K C1 (unat k)" using wfs_append [of C1 K "c # C2" lo k K2 hi] assms(1,2) K by simp
  from wfs_objs(3) [OF this assms(4,5)] assms(3) K show ?thesis by (auto simp: word_less_nat_alt word_le_nat_alt)
qed

lemma wfs_match_right:
  assumes "wfs lo (K1 @ K2) (C1 @ c # C2) hi" "length C1 = length K1" "length C2 = length K2" "\<forall>k \<in> set K2. key < k"
    and "d \<in> set C2" "obj \<in> objs_child d"
  shows "key < ob_base obj"
proof -
  obtain k K where K: "K2 = k # K" using assms(3,5) by (cases K2) auto
  have "wfs (unat k) K C2 hi" using wfs_append [of "C1 @ [c]" K1 C2 lo k K hi] assms(1,2,5) K by force
  from wfs_objs(1) [OF this assms(5,6)] assms(4) K show ?thesis by (auto simp: word_less_nat_alt word_le_nat_alt)
qed

lemma page_match:
  assumes w: "wf_page p lo hi" and f: "bt_find (pg_key p) key 0 (pg_count p) = (r, dup)"
    and o: "obj \<in> objs_page p" "BTObjMatch obj key"
  shows "obj \<in> objs_child (pg_child p ! r)"
proof -
  note F = find_in_page [OF w f]
  note P = page_focus [OF w F(1)]
  have ws: "wfs lo (take r (keys_of p) @ drop r (keys_of p))
      (take r (kids_of p) @ pg_child p ! r # drop (Suc r) (kids_of p)) hi"
    using w P(1,2) unfolding wf_page_iff by simp
  obtain d where d: "d \<in> set (kids_of p)" "obj \<in> objs_child d" using o(1) by (auto simp: objs_page_kids)
  have "d \<notin> set (take r (kids_of p))"
    using wfs_match_left [OF ws P(3) F(3) _ d(2)] o(2) by (auto simp: BTObjMatch_def)
  moreover have "d \<notin> set (drop (Suc r) (kids_of p))"
    using wfs_match_right [OF ws P(3,4) F(4) _ d(2)] o(2) by (auto simp: BTObjMatch_def)
  moreover have "set (kids_of p) = set (take r (kids_of p)) \<union> {pg_child p ! r} \<union> set (drop (Suc r) (kids_of p))"
    by (subst P(1)) auto
  ultimately show ?thesis using d by auto
qed

lemma search_page_spec:
  "wf_page p lo hi \<Longrightarrow> \<exists>obj \<in> objs_page p. search_page p key = Ret obj \<and>
     (\<forall>o2 \<in> objs_page p. BTObjMatch o2 key \<longrightarrow> o2 = obj)"
proof (induction p key arbitrary: lo hi rule: search_page.induct)
  case (1 n leaf ks cs key)
  let ?p = "Page n leaf ks cs"
  obtain r dup where f: "bt_find ks key 0 n = (r, dup)" by force
  have f': "bt_find (pg_key ?p) key 0 (pg_count ?p) = (r, dup)" using f by simp
  note F = find_in_page [OF "1.prems" f']
  note P = page_focus [OF "1.prems" F(1)]
  have r: "r < length cs" "cs ! r \<in> set (kids_of ?p)" using F(2,7) by simp_all
  have sub: "objs_child (cs ! r) \<subseteq> objs_page ?p" using r(2) unfolding objs_page_kids by blast
  have only: "o2 \<in> objs_child (cs ! r)" if "o2 \<in> objs_page ?p" "BTObjMatch o2 key" for o2
    using page_match [OF "1.prems" f' that] by simp
  show ?case
  proof (cases leaf)
    case True
    then obtain obj where c: "cs ! r = Obj obj" using r(2) "1.prems" unfolding wf_page_iff by force
    then have e: "search_page ?p key = Ret obj" using r True f by simp
    have "obj \<in> objs_page ?p" using sub c by simp
    moreover have "o2 = obj" if "o2 \<in> objs_page ?p" "BTObjMatch o2 key" for o2 using only [OF that] c by simp
    ultimately show ?thesis using e by (intro bexI [of _ obj]) simp_all
  next
    case False
    then obtain q where c: "cs ! r = Sub q" using r(2) "1.prems" unfolding wf_page_iff by force
    then have e: "search_page ?p key = search_page q key" using r False f by simp
    have ws: "wfs lo (keys_of ?p) (kids_of ?p) hi" using "1.prems" unfolding wf_page_iff by simp
    obtain a b where w: "wf_page q a b" using wfs_mem [OF ws r(2)] c by auto
    have fr: "fst (bt_find ks key 0 n) < length cs" "cs ! fst (bt_find ks key 0 n) = Sub q"
      using f r c by simp_all
    obtain obj where obj: "obj \<in> objs_page q" "search_page q key = Ret obj"
      "\<forall>o2 \<in> objs_page q. BTObjMatch o2 key \<longrightarrow> o2 = obj"
      using "1.IH" [OF refl fr(1) False fr(2) w] by blast
    have "o2 = obj" if "o2 \<in> objs_page ?p" "BTObjMatch o2 key" for o2
      using only [OF that] obj(3) c that(2) by simp
    moreover have "obj \<in> objs_page ?p" using sub c obj(1) by auto
    ultimately show ?thesis using e obj(2) by (intro bexI [of _ obj]) simp_all
  qed
qed

definition wf_tree :: "btree \<Rightarrow> bool" where
  "wf_tree t \<longleftrightarrow> (case bt_root t of None \<Rightarrow> True | Some p \<Rightarrow> wf_page p 0 (2 ^ 64))"

definition objs_tree :: "btree \<Rightarrow> btobj set" where
  "objs_tree t = (case bt_root t of None \<Rightarrow> {} | Some p \<Rightarrow> objs_page p)"

text \<open>C6: on a well-formed tree \<open>ObjBTSearch\<close> returns, with \<open>BT_OK\<close> and the object that contains the
  address when the tree has such an object, and with \<open>BT_NOT_FOUND\<close> when it has none.\<close>

theorem BTSearch_correct:
  assumes "wf_tree t"
  shows "\<exists>code found. BTSearch (Some t) key = Ret (code, found) \<and>
    (if \<exists>obj \<in> objs_tree t. BTObjMatch obj key
     then code = BT_OK \<and> (\<exists>obj \<in> objs_tree t. found = Some obj \<and> BTObjMatch obj key \<and>
            (\<forall>o2 \<in> objs_tree t. BTObjMatch o2 key \<longrightarrow> o2 = obj))
     else code = BT_NOT_FOUND)"
proof (cases "bt_root t")
  case None
  then show ?thesis by (simp add: BTSearch_def objs_tree_def)
next
  case (Some p)
  then have "wf_page p 0 (2 ^ 64)" and ot: "objs_tree t = objs_page p"
    using assms by (simp_all add: wf_tree_def objs_tree_def)
  from search_page_spec [OF this(1), of key] obtain obj where
    obj: "obj \<in> objs_page p" "search_page p key = Ret obj" "\<forall>o2 \<in> objs_page p. BTObjMatch o2 key \<longrightarrow> o2 = obj"
    by blast
  have e: "BTSearch (Some t) key = Ret (if BTObjMatch obj key then BT_OK else BT_NOT_FOUND, Some obj)"
    using Some obj(2) by (simp add: BTSearch_def)
  show ?thesis
  proof (cases "BTObjMatch obj key")
    case True
    then have ex: "\<exists>obj \<in> objs_page p. BTObjMatch obj key" and e': "BTSearch (Some t) key = Ret (BT_OK, Some obj)"
      using e obj(1) by (blast, simp)
    show ?thesis unfolding ot if_P [OF ex]
      by (rule exI [of _ BT_OK], rule exI [of _ "Some obj"], intro conjI bexI [of _ obj])
        (rule e' refl True obj)+
  next
    case False
    then have "\<not> (\<exists>obj \<in> objs_page p. BTObjMatch obj key)" using obj(3) by blast
    then show ?thesis unfolding ot using e False by simp
  qed
qed

text \<open>A tree of one leaf with the objects \<open>[0x1000, 0x1fff]\<close> and \<open>[0x4000, 0x5fff]\<close>.\<close>

definition low_obj :: btobj where "low_obj = \<lparr>ob_ptr = 16, ob_base = 0x1000, ob_end = 0x1fff\<rparr>"
definition high_obj :: btobj where "high_obj = \<lparr>ob_ptr = 32, ob_base = 0x4000, ob_end = 0x5fff\<rparr>"
definition sample_tree :: btree where
  "sample_tree = \<lparr>bt_depth = 1, bt_root = Some (new_root 1 True [0x4000] [Obj low_obj, Obj high_obj])\<rparr>"

lemma sample_tree_wf: "wf_tree sample_tree"
  by (simp add: wf_tree_def sample_tree_def wf_page_iff new_root_def arrays_ok_def low_obj_def high_obj_def
      has_base_def del: wf_page.simps)

lemma sample_tree_objs: "objs_tree sample_tree = {low_obj, high_obj}"
  by (auto simp: objs_tree_def sample_tree_def new_root_def)

theorem BTSearch_correct_witness:
  "\<exists>code found. BTSearch (Some sample_tree) 0x4800 = Ret (code, found) \<and> code = BT_OK \<and> found = Some high_obj"
proof -
  have m: "BTObjMatch high_obj 0x4800" "\<not> BTObjMatch low_obj 0x4800"
    by (simp_all add: BTObjMatch_def low_obj_def high_obj_def)
  then have "\<exists>obj \<in> objs_tree sample_tree. BTObjMatch obj 0x4800" by (simp add: sample_tree_objs)
  then show ?thesis using BTSearch_correct [OF sample_tree_wf, of "0x4800"] m by (auto simp: sample_tree_objs)
qed


section \<open>What the result of an insertion hides\<close>

text \<open>\<open>ObjBTIns\<close> of an object whose key is already a key of the root page returns 0, the value of
  \<open>BT_OK\<close>, and leaves the tree as it was.\<close>

theorem BTIns_duplicate_reports_ok:
  assumes "wf_tree t" "bt_root t = Some p" "ob_base obj \<in> set (keys_of p)"
  shows "BTIns ap (Some t) obj s = Ret (BT_OK, Some t, s)"
proof -
  obtain n leaf ks cs where p: "p = Page n leaf ks cs" by (cases p)
  obtain r dup where f: "bt_find ks (ob_base obj) 0 n = (r, dup)" by force
  have w: "wf_page p 0 (2 ^ 64)" using assms(1,2) by (simp add: wf_tree_def)
  have "dup" using find_in_page(5) [OF w, of "ob_base obj" r dup] f assms(3) p by simp
  then have "BTInsert ap (Sub p) obj s = Ret (BT_DUPLICATE, Sub p, ob_base obj, Null, None, s)"
    using f p by (simp add: BTGetObjKey_def)
  moreover have "t\<lparr>bt_root := Some p\<rparr> = t" using assms(2) by (cases t) simp
  ultimately show ?thesis using assms(2) by (simp add: BTIns_def bt_codes)
qed

theorem BTIns_duplicate_reports_ok_witness:
  "BTIns (\<lambda>s. Ret (0, s)) (Some sample_tree) (high_obj\<lparr>ob_ptr := 48\<rparr>) () = Ret (BT_OK, Some sample_tree, ())"
  by (rule BTIns_duplicate_reports_ok [OF sample_tree_wf, where p = "new_root 1 True [0x4000] [Obj low_obj, Obj high_obj]"])
    (simp_all add: sample_tree_def new_root_def high_obj_def)

text \<open>An object that strictly contains the only object of a tree is inserted although the two
  overlap: the test at the first slot asks only whether an end of the new object lies in the old one.
  The tree is not well-formed afterwards.\<close>

theorem BTIns_accepts_enclosing:
  assumes "bt_root t = Some (new_root 0 True [] [Obj o1])"
    and "ob_base obj < ob_base o1" "ob_base o1 \<le> ob_end o1" "ob_end o1 < ob_end obj"
  shows "\<exists>t'. BTIns ap (Some t) obj s = Ret (BT_OK, Some t', s) \<and> objs_tree t' = {o1, obj} \<and> \<not> wf_tree t'"
proof -
  let ?p = "new_root 0 True [] [Obj o1]"
  have a: "arrays_ok ?p" "pg_count ?p < BT_MAXKEY" "kids_of ?p = Obj o1 # []"
    by (simp_all add: arrays_ok_def new_root_def)
  obtain p' where p': "BTInsertPage ?p (-1) (ob_base obj) (Obj obj) = Ret p'"
    "keys_of p' = [ob_base o1]" "kids_of p' = [Obj obj, Obj o1]"
    by (rule insert_page_front [OF a, of "ob_base obj" "Obj obj"]) (simp add: a(3) new_root_def BTGetObjKey_def)
  have f: "bt_find ks k 0 0 = (0, False)" for ks k by (subst bt_find.simps) simp
  have no: "\<not> BTObjMatch o1 (ob_base obj)" "\<not> BTOverlaps obj o1"
    using assms(2-4) by (auto simp: BTObjMatch_def BTOverlaps_def)
  have "BTInsert ap (Sub ?p) obj s = Ret (BT_OK, Sub p', ob_base obj, Obj obj, Some o1, s)"
    using p'(1) no assms(2) f by (simp add: new_root_def leaf_case_def BTGetObjKey_def promote_def)
  then have "BTIns ap (Some t) obj s = Ret (BT_OK, Some (t\<lparr>bt_root := Some p'\<rparr>), s)"
    using assms(1) by (simp add: BTIns_def bt_codes)
  moreover have "objs_tree (t\<lparr>bt_root := Some p'\<rparr>) = {o1, obj}"
    using p'(3) by (auto simp: objs_tree_def objs_page_kids)
  moreover have "\<not> wf_tree (t\<lparr>bt_root := Some p'\<rparr>)"
    using p'(2,3) assms(3,4) by (auto simp: wf_tree_def wf_page_iff word_less_nat_alt word_le_nat_alt)
  ultimately show ?thesis by blast
qed

theorem BTIns_accepts_enclosing_witness:
  "\<exists>t'. BTIns (\<lambda>s. Ret (0, s)) (Some \<lparr>bt_depth = 1, bt_root = Some (new_root 0 True [] [Obj low_obj])\<rparr>)
     (low_obj\<lparr>ob_base := 0x800, ob_end := 0x2fff\<rparr>) () = Ret (BT_OK, Some t', ()) \<and>
     objs_tree t' = {low_obj, low_obj\<lparr>ob_base := 0x800, ob_end := 0x2fff\<rparr>} \<and> \<not> wf_tree t'"
  by (rule BTIns_accepts_enclosing) (simp_all add: low_obj_def)

end
