(* ===== verification/Slab.thy ===== *)
theory Slab
  imports Page_Math Btree "HOL-Library.Multiset"
begin

unbundle bit_operations_syntax

text \<open>
  The page allocators and the slab caches, which allocate from each other: \<open>sys/sys_slab.c\<close>, the
  internal region of \<open>sys/sys_alloc.c\<close> (\<open>sys$fpage_clear_internal\<close>, \<open>sys$fpage_free_internal\<close>,
  \<open>sys$fpage_alloc_internal\<close>, \<open>sys$fpage_free_chunk\<close>) and \<open>sys$objtable_lookup\<close> of
  \<open>sys/sys_objtables.c\<close>.

  The state \<open>mm\<close> holds what these files keep in static variables. Memory sections are found by their
  address; a queue of memory sections is the list of their addresses and a queue of flexpage nodes
  is the list of the nodes with their addresses, first element first. A slab is its address. Calls
  that leave the program (\<open>sys$sigma0_map\<close>, \<open>L4_Flush\<close>) and the clearing of memory are recorded in
  \<open>effects\<close>, newest first. A null pointer is 0. The mutual recursion of the allocators is cut by
  fuel; running out of it is \<open>Timeout\<close>, a different outcome from all that the code can do.
\<close>

section \<open>Data\<close>

type_synonym addr = u64

record fnode =
  fn_addr :: addr
  fn_fpage :: fpage

text \<open>The union \<open>phys\<close> of a memory section: reading one member where the other was written is a
  fault of the model. A section cleared to zero has the empty list.\<close>

datatype phys = PhysBase u64 | PhysList "fnode list"

datatype cache_id = MS_cache | FP_cache | BT_cache

record memsection =
  ms_base :: u64
  ms_end :: u64
  ms_flags :: u64
  ms_phys :: phys
  ms_slab_cache :: "cache_id option"
  ms_slabs :: "addr list"

definition zero_memsection :: memsection where
  "zero_memsection = \<lparr>ms_base = 0, ms_end = 0, ms_flags = 0, ms_phys = PhysList [], ms_slab_cache = None, ms_slabs = []\<rparr>"

definition MAX_FPAGE_ORDER :: nat where "MAX_FPAGE_ORDER = 64"
definition INVALID_ADDR :: u64 where "INVALID_ADDR = NOT 0"

definition VMS_MEM_NORMAL :: u64 where "VMS_MEM_NORMAL = 0x1"
definition VMS_MEM_FIXED :: u64 where "VMS_MEM_FIXED = 0x2"
definition VMS_MEM_UTCB :: u64 where "VMS_MEM_UTCB = 0x4"
definition VMS_MEM_USER :: u64 where "VMS_MEM_USER = 0x8"
definition VMS_MEM_INTERNAL :: u64 where "VMS_MEM_INTERNAL = 0x10"

lemmas mem_flag_defs = VMS_MEM_NORMAL_def VMS_MEM_FIXED_def VMS_MEM_UTCB_def VMS_MEM_USER_def VMS_MEM_INTERNAL_def

text \<open>A page allocator: \<open>flist\<close> has the indices 0 to \<open>MAX_FPAGE_ORDER\<close>.\<close>

record fpage_alloc =
  flist :: "nat \<Rightarrow> fnode list"
  int_base :: u64
  int_end :: u64
  int_active :: bool

datatype alloc_id = VM | PM

datatype effect =
    Sigma0_map u64 u64 u64 u64
  | Sigma0_map_fpage fpage fpage u64
  | Initmem u64 u64
  | Flush fpage

record mm =
  min_bits :: nat
  vm_alloc :: fpage_alloc
  pm_alloc :: fpage_alloc
  sections :: "addr \<rightharpoonup> memsection"
  pools :: "cache_id \<Rightarrow> addr list"
  internal_memsections :: "addr list"
  pd_memsections :: "addr \<Rightarrow> addr list"
  objtable :: "btree option"
  vms_pd_initialized :: bool
  effects :: "effect list"

text \<open>\<open>sizeof\<close> of \<open>struct memsection_node\<close>, \<open>struct fpage_list\<close> and \<open>struct sBTPage\<close>, and the offset of
  \<open>data\<close> in a \<open>struct memsection_node\<close>.\<close>

primrec slab_size :: "cache_id \<Rightarrow> u64" where
  "slab_size MS_cache = 96"
| "slab_size FP_cache = 24"
| "slab_size BT_cache = 4080"

definition data_offset :: u64 where "data_offset = 16"

primrec allocator :: "alloc_id \<Rightarrow> mm \<Rightarrow> fpage_alloc" where
  "allocator VM s = vm_alloc s"
| "allocator PM s = pm_alloc s"

primrec set_allocator :: "alloc_id \<Rightarrow> fpage_alloc \<Rightarrow> mm \<Rightarrow> mm" where
  "set_allocator VM a s = s\<lparr>vm_alloc := a\<rparr>"
| "set_allocator PM a s = s\<lparr>pm_alloc := a\<rparr>"

definition min_pagesize :: "mm \<Rightarrow> u64" where
  "min_pagesize s = vms_min_pagesize (min_bits s)"

definition emit :: "effect \<Rightarrow> mm \<Rightarrow> mm" where
  "emit e s = s\<lparr>effects := e # effects s\<rparr>"

definition get_ms :: "addr \<Rightarrow> mm \<Rightarrow> memsection outcome" where
  "get_ms p s = (case sections s p of None \<Rightarrow> Fault | Some m \<Rightarrow> Ret m)"

definition put_ms :: "addr \<Rightarrow> memsection \<Rightarrow> mm \<Rightarrow> mm" where
  "put_ms p m s = s\<lparr>sections := (sections s)(p \<mapsto> m)\<rparr>"

section \<open>Memory contents\<close>

text \<open>\<open>sys$initmem\<close> and \<open>sys$memcopy\<close> on a memory of bytes. Their effect on the structures above is
  that cleared sections are \<open>zero_memsection\<close>; the clearing of other pages is an effect.\<close>

fun initmem :: "u64 \<Rightarrow> nat \<Rightarrow> (u64 \<Rightarrow> u8) \<Rightarrow> (u64 \<Rightarrow> u8)" where
  "initmem p 0 m = m"
| "initmem p (Suc len) m = initmem (p + 1) len (m(p := 0))"

definition sys_initmem :: "u64 \<Rightarrow> u64 \<Rightarrow> (u64 \<Rightarrow> u8) \<Rightarrow> (u64 \<Rightarrow> u8)" where
  "sys_initmem zone len m = initmem zone (unat len) m"

fun memcopy :: "u64 \<Rightarrow> u64 \<Rightarrow> nat \<Rightarrow> (u64 \<Rightarrow> u8) \<Rightarrow> (u64 \<Rightarrow> u8)" where
  "memcopy ptr2 ptr1 0 m = m"
| "memcopy ptr2 ptr1 (Suc n) m = memcopy (ptr2 + 1) (ptr1 + 1) n (m(ptr2 := m ptr1))"

definition sys_memcopy :: "u64 \<Rightarrow> u64 \<Rightarrow> u64 \<Rightarrow> (u64 \<Rightarrow> u8) \<Rightarrow> (u64 \<Rightarrow> u8)" where
  "sys_memcopy dest src sz m = memcopy dest src (unat sz) m"

section \<open>Looking a section up\<close>

text \<open>The walk round the ring of internal sections visits each element once and stops at the head.\<close>

fun lookup_internal :: "(addr \<rightharpoonup> memsection) \<Rightarrow> addr list \<Rightarrow> u64 \<Rightarrow> addr outcome" where
  "lookup_internal sec [] a = Ret 0"
| "lookup_internal sec (p # ps) a =
     (case sec p of
        None \<Rightarrow> Fault
      | Some m \<Rightarrow> if a \<ge> ms_base m \<and> a \<le> ms_end m then Ret p else lookup_internal sec ps a)"

definition sys_objtable_lookup :: "u64 \<Rightarrow> mm \<Rightarrow> addr outcome" where
  "sys_objtable_lookup a s =
     bindo (BTSearch (objtable s) a) (\<lambda>(r, found).
       if r = BT_NOT_FOUND \<or> r = BT_INVALID then lookup_internal (sections s) (internal_memsections s) a
       else case found of Some obj \<Rightarrow> Ret (of_nat (ob_ptr obj)) | None \<Rightarrow> Fault)"

section \<open>Slabs and the internal region\<close>

text \<open>\<open>sys$slab_cache_free\<close>: the section that holds the slab is looked up; its queue of slabs must
  have been initialised.\<close>

definition sys_slab_cache_free :: "addr \<Rightarrow> mm \<Rightarrow> mm outcome" where
  "sys_slab_cache_free slab s =
     bindo (sys_objtable_lookup slab s) (\<lambda>pool.
     bindo (get_ms pool s) (\<lambda>m.
       if ms_slab_cache m = None then Fault
       else Ret (put_ms pool (m\<lparr>ms_slabs := ms_slabs m @ [slab]\<rparr>) s)))"

text \<open>The first index from \<open>i\<close> on, below \<open>i + n\<close>, whose queue is not empty; \<open>i + n\<close> when there is
  none.\<close>

fun first_order :: "(nat \<Rightarrow> fnode list) \<Rightarrow> nat \<Rightarrow> nat \<Rightarrow> nat" where
  "first_order fl i 0 = i"
| "first_order fl i (Suc n) = (if fl i = [] then first_order fl (i + 1) n else i)"

definition refill_internal :: "alloc_id \<Rightarrow> mm \<Rightarrow> mm outcome" where
  "refill_internal w s =
     (let a = allocator w s; i = first_order (flist a) 0 MAX_FPAGE_ORDER
      in panic_if (i = MAX_FPAGE_ORDER)
           (case flist a i of
              [] \<Rightarrow> Fault
            | node # rest \<Rightarrow>
                sys_slab_cache_free (fn_addr node)
                  (set_allocator w (a\<lparr>int_base := L4_Address (fn_fpage node), int_end := sys_fp_end (fn_fpage node),
                     int_active := True, flist := (flist a)(i := rest)\<rparr>) s)))"

definition sys_fpage_alloc_internal :: "alloc_id \<Rightarrow> u64 \<Rightarrow> mm \<Rightarrow> (u64 \<times> mm) outcome" where
  "sys_fpage_alloc_internal w sz s =
     bindo (if int_active (allocator w s) then Ret s else refill_internal w s) (\<lambda>s.
       let a = allocator w s
       in if (int_end a - int_base a) + 1 < sz then Ret (INVALID_ADDR, s)
          else let b = int_base a + sz
               in Ret (int_base a, set_allocator w (a\<lparr>int_base := b,
                    int_active := (if b \<ge> int_end a then False else int_active a)\<rparr>) s))"

text \<open>The first pool with a slab left, and taking its first slab.\<close>

fun first_pool :: "(addr \<rightharpoonup> memsection) \<Rightarrow> addr list \<Rightarrow> addr outcome" where
  "first_pool sec [] = Ret 0"
| "first_pool sec (p # ps) =
     (case sec p of None \<Rightarrow> Fault | Some m \<Rightarrow> if ms_slabs m \<noteq> [] then Ret p else first_pool sec ps)"

definition take_slab :: "addr \<Rightarrow> mm \<Rightarrow> (addr \<times> mm) outcome" where
  "take_slab pool s =
     bindo (get_ms pool s) (\<lambda>m. case ms_slabs m of
        [] \<Rightarrow> Fault
      | slab # rest \<Rightarrow> Ret (slab, put_ms pool (m\<lparr>ms_slabs := rest\<rparr>) s))"

text \<open>The slabs of a new pool, from \<open>virt\<close> up to the end of the page.\<close>

fun slab_addrs :: "nat \<Rightarrow> u64 \<Rightarrow> u64 \<Rightarrow> u64 \<Rightarrow> addr list outcome" where
  "slab_addrs 0 virt sz e = Timeout"
| "slab_addrs (Suc n) virt sz e =
     (if virt + (sz - 1) \<le> e then bindo (slab_addrs n (virt + sz) sz e) (\<lambda>xs. Ret (virt # xs)) else Ret [])"

text \<open>The rest of \<open>sys$memsection_create_cache\<close> from the section's address \<open>ms\<close>: its fields, the two
  queues it joins, and its slabs, the first at \<open>virt\<close>.\<close>

definition init_pool :: "cache_id \<Rightarrow> addr \<Rightarrow> u64 \<Rightarrow> u64 \<Rightarrow> u64 \<Rightarrow> mm \<Rightarrow> (addr \<times> mm) outcome" where
  "init_pool sc ms base phys virt s =
     (let e = base + (min_pagesize s - 1)
      in bindo (slab_addrs (Suc (unat (min_pagesize s))) virt (slab_size sc) e) (\<lambda>slabs.
           let m = \<lparr>ms_base = base, ms_end = e, ms_flags = 0, ms_phys = PhysBase phys, ms_slab_cache = Some sc, ms_slabs = slabs\<rparr>;
               s1 = put_ms ms m s
           in Ret (ms, s1\<lparr>internal_memsections := internal_memsections s @ [ms],
                         pools := (pools s)(sc := pools s sc @ [ms])\<rparr>)))"

text \<open>\<open>sys$fpage_free_internal\<close> and \<open>sys$fpage_free_chunk\<close>, over the function that clears the
  internal region.\<close>

definition sys_fpage_free_internal :: "(alloc_id \<Rightarrow> mm \<Rightarrow> mm outcome) \<Rightarrow> alloc_id \<Rightarrow> u64 \<Rightarrow> u64 \<Rightarrow> mm \<Rightarrow> mm outcome" where
  "sys_fpage_free_internal clear w base end s =
     bindo (if int_active (allocator w s) then clear w s else Ret s) (\<lambda>s.
       Ret (set_allocator w ((allocator w s)\<lparr>int_base := base, int_end := end, int_active := True\<rparr>) s))"

definition free_chunk :: "(alloc_id \<Rightarrow> mm \<Rightarrow> mm outcome) \<Rightarrow> alloc_id \<Rightarrow> u64 \<Rightarrow> u64 \<Rightarrow> mm \<Rightarrow> mm outcome" where
  "free_chunk clear w base end s =
     bindo (if int_active (allocator w s) then clear w s else Ret s) (\<lambda>s.
     bindo (sys_fpage_free_internal clear w base end s) (\<lambda>s. clear w s))"

text \<open>A node for the page at the start of the internal region, queued by its order; a negative order
  is outside the array.\<close>

definition queue_biggest :: "alloc_id \<Rightarrow> addr \<Rightarrow> mm \<Rightarrow> mm outcome" where
  "queue_biggest w node s =
     (let a = allocator w s;
          fp = sys_biggest_fpage (min_bits s) (int_base a) (int_base a) (int_end a);
          k = sys_fp_order (min_bits s) fp
      in if k < 0 \<or> k > int MAX_FPAGE_ORDER then Fault
         else Ret (set_allocator w (a\<lparr>flist := (flist a)(nat k := flist a (nat k) @ [\<lparr>fn_addr = node, fn_fpage = fp\<rparr>]),
                int_base := int_base a + L4_Size fp\<rparr>) s))"

text \<open>The mutual recursion. \<open>clear_loop\<close> is the loop of \<open>sys$fpage_clear_internal\<close>, which reads the
  region again after each slab it allocates.\<close>

fun sys_slab_cache_alloc :: "nat \<Rightarrow> cache_id \<Rightarrow> mm \<Rightarrow> (addr \<times> mm) outcome"
  and sys_memsection_create_cache :: "nat \<Rightarrow> cache_id \<Rightarrow> mm \<Rightarrow> (addr \<times> mm) outcome"
  and clear_loop :: "nat \<Rightarrow> alloc_id \<Rightarrow> mm \<Rightarrow> mm outcome"
  and sys_fpage_clear_internal :: "nat \<Rightarrow> alloc_id \<Rightarrow> mm \<Rightarrow> mm outcome" where
  "sys_slab_cache_alloc 0 sc s = Timeout"
| "sys_slab_cache_alloc (Suc n) sc s =
     bindo (first_pool (sections s) (pools s sc)) (\<lambda>pool.
     bindo (if pool = 0 then sys_memsection_create_cache n sc s else Ret (pool, s)) (\<lambda>(pool, s).
       if pool = 0 then Ret (0, s) else take_slab pool s))"
| "sys_memsection_create_cache 0 sc s = Timeout"
| "sys_memsection_create_cache (Suc n) sc s =
     (let page_size = min_pagesize s
      in bindo (sys_fpage_alloc_internal VM page_size s) (\<lambda>(virt, s).
         if virt = INVALID_ADDR then Ret (0, s)
         else panic_if (virt mod page_size \<noteq> 0)
         (bindo (sys_fpage_alloc_internal PM page_size s) (\<lambda>(phys, s).
            if phys = INVALID_ADDR then
              bindo (sys_fpage_free_internal (sys_fpage_clear_internal n) VM virt (virt + (page_size - 1)) s)
                (\<lambda>s. Ret (0, s))
            else panic_if (phys mod page_size \<noteq> 0)
              (let s = emit (Initmem virt page_size) (emit (Sigma0_map virt phys page_size L4_FullyAccessible) s)
               in if sc = MS_cache then init_pool sc (virt + data_offset) virt phys (virt + slab_size MS_cache) s
                  else bindo (sys_slab_cache_alloc n MS_cache s) (\<lambda>(node, s).
                    if node = 0 then
                      bindo (free_chunk (sys_fpage_clear_internal n) VM virt (virt + (page_size - 1))
                               (emit (Flush (L4_Fpage virt page_size)) s)) (\<lambda>s.
                      bindo (free_chunk (sys_fpage_clear_internal n) PM phys (phys + (page_size - 1)) s) (\<lambda>s.
                        Ret (0, s)))
                    else init_pool sc (node + data_offset) virt phys virt s))))))"
| "clear_loop 0 w s = Timeout"
| "clear_loop (Suc n) w s =
     (if int_base (allocator w s) < int_end (allocator w s) then
        bindo (sys_slab_cache_alloc n FP_cache s) (\<lambda>(node, s).
          if node = 0 then Ret s
          else bindo (queue_biggest w node s) (\<lambda>s. clear_loop n w s))
      else Ret (set_allocator w ((allocator w s)\<lparr>int_active := False\<rparr>) s))"
| "sys_fpage_clear_internal 0 w s = Timeout"
| "sys_fpage_clear_internal (Suc n) w s = (if int_active (allocator w s) then clear_loop n w s else Ret s)"

definition sys_fpage_free_chunk :: "nat \<Rightarrow> alloc_id \<Rightarrow> u64 \<Rightarrow> u64 \<Rightarrow> mm \<Rightarrow> mm outcome" where
  "sys_fpage_free_chunk n = free_chunk (sys_fpage_clear_internal n)"


section \<open>Slabs left\<close>

definition pool_slabs :: "mm \<Rightarrow> addr \<Rightarrow> addr list" where
  "pool_slabs s p = (case sections s p of None \<Rightarrow> [] | Some m \<Rightarrow> ms_slabs m)"

definition avail :: "cache_id \<Rightarrow> mm \<Rightarrow> addr list" where
  "avail sc s = concat (map (pool_slabs s) (pools s sc))"

text \<open>Pools are sections with a queue of slabs, each in one cache, and no slab is null.\<close>

definition pools_ok :: "mm \<Rightarrow> bool" where
  "pools_ok s \<longleftrightarrow>
     (\<forall>sc. distinct (pools s sc) \<and> 0 \<notin> set (avail sc s) \<and>
        (\<forall>p \<in> set (pools s sc). p \<noteq> 0 \<and> (\<exists>m. sections s p = Some m \<and> ms_slab_cache m \<noteq> None))) \<and>
     (\<forall>sc sc'. sc \<noteq> sc' \<longrightarrow> set (pools s sc) \<inter> set (pools s sc') = {})"

text \<open>Two states that differ at most in the allocators, the effects and the slabs of the sections.\<close>

definition strip_slabs :: "memsection \<Rightarrow> memsection" where
  "strip_slabs m = m\<lparr>ms_slabs := []\<rparr>"

definition same_shape :: "mm \<Rightarrow> mm \<Rightarrow> bool" where
  "same_shape s s' \<longleftrightarrow> min_bits s' = min_bits s \<and> pools s' = pools s \<and> objtable s' = objtable s \<and>
     internal_memsections s' = internal_memsections s \<and> pd_memsections s' = pd_memsections s \<and>
     vms_pd_initialized s' = vms_pd_initialized s \<and>
     (\<forall>p. map_option strip_slabs (sections s' p) = map_option strip_slabs (sections s p))"

lemma same_shape_refl [simp]: "same_shape s s"
  by (simp add: same_shape_def)

lemma same_shape_trans [trans]: "same_shape s s' \<Longrightarrow> same_shape s' s'' \<Longrightarrow> same_shape s s''"
  by (simp add: same_shape_def)

lemma same_shape_set_allocator [simp]: "same_shape s (set_allocator w a s)"
  by (cases w) (simp_all add: same_shape_def)

lemma same_shape_put_slabs:
  "sections s p = Some m \<Longrightarrow> same_shape s (put_ms p (m\<lparr>ms_slabs := xs\<rparr>) s)"
  by (simp add: same_shape_def put_ms_def strip_slabs_def)

lemma lookup_internal_shape:
  assumes "\<And>p. map_option strip_slabs (sec' p) = map_option strip_slabs (sec p)"
  shows "lookup_internal sec' ps a = lookup_internal sec ps a"
proof (induction ps)
  case (Cons p ps)
  have b: "ms_base m' = ms_base m \<and> ms_end m' = ms_end m" if "strip_slabs m' = strip_slabs m" for m m'
    using that by (cases m; cases m') (simp add: strip_slabs_def)
  show ?case
  proof (cases "sec p")
    case None
    then have "sec' p = None" using assms [of p] by simp
    then show ?thesis using None by simp
  next
    case (Some m)
    then obtain m' where m': "sec' p = Some m'" "strip_slabs m' = strip_slabs m"
      using assms [of p] by (cases "sec' p") simp_all
    show ?thesis using b [OF m'(2)] m'(1) Some Cons.IH by simp
  qed
qed simp

lemma lookup_shape: "same_shape s s' \<Longrightarrow> sys_objtable_lookup a s' = sys_objtable_lookup a s"
proof -
  assume "same_shape s s'"
  then have e: "objtable s' = objtable s" "internal_memsections s' = internal_memsections s"
    and sec: "\<And>p. map_option strip_slabs (sections s' p) = map_option strip_slabs (sections s p)"
    by (simp_all add: same_shape_def)
  show ?thesis unfolding sys_objtable_lookup_def e lookup_internal_shape [OF sec] ..
qed

lemma allocator_put_ms [simp]: "allocator w (put_ms p m s) = allocator w s"
  by (cases w) (simp_all add: put_ms_def)

lemma sections_put_ms [simp]: "sections (put_ms p m s) = (sections s)(p \<mapsto> m)"
  by (simp add: put_ms_def)

lemma effects_put_ms [simp]: "effects (put_ms p m s) = effects s"
  by (simp add: put_ms_def)

lemma pools_put_ms [simp]: "pools (put_ms p m s) = pools s"
  by (simp add: put_ms_def)

lemma allocator_set [simp]: "allocator w (set_allocator w a s) = a"
  by (cases w) simp_all

lemma allocator_set_other: "v \<noteq> w \<Longrightarrow> allocator v (set_allocator w a s) = allocator v s"
  by (cases v; cases w) simp_all

lemma set_allocator_fields [simp]:
  "sections (set_allocator w a s) = sections s" "pools (set_allocator w a s) = pools s"
  "min_bits (set_allocator w a s) = min_bits s" "effects (set_allocator w a s) = effects s"
  by (cases w; simp)+

lemma avail_set_allocator [simp]: "avail sc (set_allocator w a s) = avail sc s"
  by (simp add: avail_def pool_slabs_def [abs_def])

lemma pools_ok_set_allocator [simp]: "pools_ok (set_allocator w a s) = pools_ok s"
  by (simp add: pools_ok_def)

lemma first_pool_spec:
  "\<forall>p \<in> set ps. p \<noteq> 0 \<and> (\<exists>m. sections s p = Some m) \<Longrightarrow>
     concat (map (pool_slabs s) ps) = x # xs \<Longrightarrow>
     \<exists>qs p rs m ys. ps = qs @ p # rs \<and> concat (map (pool_slabs s) qs) = [] \<and> first_pool (sections s) ps = Ret p \<and>
       sections s p = Some m \<and> ms_slabs m = x # ys \<and> xs = ys @ concat (map (pool_slabs s) rs)"
proof (induction ps)
  case (Cons p ps)
  then obtain m where m: "sections s p = Some m" by auto
  show ?case
  proof (cases "ms_slabs m")
    case Nil
    then have "pool_slabs s p = []" using m by (simp add: pool_slabs_def)
    then have "concat (map (pool_slabs s) ps) = x # xs" using Cons.prems(2) by simp
    then obtain qs p' rs m' ys where
      q: "ps = qs @ p' # rs" "concat (map (pool_slabs s) qs) = []" "first_pool (sections s) ps = Ret p'"
        "sections s p' = Some m'" "ms_slabs m' = x # ys" "xs = ys @ concat (map (pool_slabs s) rs)"
      using Cons.IH Cons.prems(1) by auto
    show ?thesis
      by (rule exI [of _ "p # qs"], rule exI [of _ p'], rule exI [of _ rs], rule exI [of _ m'], rule exI [of _ ys])
        (use q m Nil \<open>pool_slabs s p = []\<close> in simp)
  next
    case (Cons y ys)
    then have "pool_slabs s p = y # ys" using m by (simp add: pool_slabs_def)
    then show ?thesis
      using Cons.prems m Cons
      by (intro exI [of _ "[]"] exI [of _ p] exI [of _ ps] exI [of _ m] exI [of _ ys]) simp
  qed
qed simp

text \<open>Replacing the slabs of one pool.\<close>

lemma avail_put:
  assumes "pools_ok s" "p \<in> set (pools s sc)" "sections s p = Some m" "pools s sc = qs @ p # rs"
  shows "avail sc (put_ms p (m\<lparr>ms_slabs := ys\<rparr>) s) =
      concat (map (pool_slabs s) qs) @ ys @ concat (map (pool_slabs s) rs)"
    and "sc' \<noteq> sc \<Longrightarrow> avail sc' (put_ms p (m\<lparr>ms_slabs := ys\<rparr>) s) = avail sc' s"
proof -
  let ?s = "put_ms p (m\<lparr>ms_slabs := ys\<rparr>) s"
  have e: "pool_slabs ?s q = (if q = p then ys else pool_slabs s q)" for q by (simp add: pool_slabs_def)
  have "distinct (qs @ p # rs)" using assms(1,4) by (metis pools_ok_def)
  then have f: "map (pool_slabs ?s) qs = map (pool_slabs s) qs" "map (pool_slabs ?s) rs = map (pool_slabs s) rs"
    by (auto simp: e)
  have "avail sc ?s = concat (map (pool_slabs ?s) qs) @ pool_slabs ?s p @ concat (map (pool_slabs ?s) rs)"
    using assms(4) by (simp add: avail_def)
  then show "avail sc ?s = concat (map (pool_slabs s) qs) @ ys @ concat (map (pool_slabs s) rs)"
    by (simp only: f e) simp
  assume "sc' \<noteq> sc"
  then have "p \<notin> set (pools s sc')" using assms(1,2) unfolding pools_ok_def by blast
  then have "map (pool_slabs ?s) (pools s sc') = map (pool_slabs s) (pools s sc')" by (auto simp: e)
  then show "avail sc' ?s = avail sc' s" by (simp only: avail_def pools_put_ms)
qed

lemma pools_ok_put:
  assumes "pools_ok s" "p \<in> set (pools s sc)" "sections s p = Some m"
    and "0 \<notin> set (avail sc (put_ms p (m\<lparr>ms_slabs := ys\<rparr>) s))"
  shows "pools_ok (put_ms p (m\<lparr>ms_slabs := ys\<rparr>) s)"
proof -
  obtain qs rs where q: "pools s sc = qs @ p # rs" using assms(2) by (meson split_list)
  have "0 \<notin> set (avail sc' (put_ms p (m\<lparr>ms_slabs := ys\<rparr>) s))" for sc'
    using assms(4) avail_put(2) [OF assms(1-3) q, of sc'] assms(1) by (cases "sc' = sc") (auto simp: pools_ok_def)
  moreover have "ms_slab_cache m \<noteq> None" using assms(1-3) unfolding pools_ok_def by force
  ultimately show ?thesis using assms(1) unfolding pools_ok_def by (auto split: if_splits)
qed

text \<open>An allocation from a cache that has slabs left takes the first one and nothing else.\<close>

lemma slab_alloc_avail:
  assumes ok: "pools_ok s" and av: "avail sc s = x # xs"
  obtains s' where "sys_slab_cache_alloc (Suc n) sc s = Ret (x, s')" "x \<noteq> 0" "avail sc s' = xs"
    "\<And>sc'. sc' \<noteq> sc \<Longrightarrow> avail sc' s' = avail sc' s" "pools_ok s'" "same_shape s s'"
    "\<And>w. allocator w s' = allocator w s" "effects s' = effects s"
proof -
  have P: "\<forall>p \<in> set (pools s sc). p \<noteq> 0 \<and> (\<exists>m. sections s p = Some m)"
    using ok unfolding pools_ok_def by blast
  obtain qs p rs m ys where q: "pools s sc = qs @ p # rs" "concat (map (pool_slabs s) qs) = []"
      "first_pool (sections s) (pools s sc) = Ret p" "sections s p = Some m" "ms_slabs m = x # ys"
      "xs = ys @ concat (map (pool_slabs s) rs)"
    using first_pool_spec [OF P av [unfolded avail_def]] by blast
  have pin: "p \<in> set (pools s sc)" "p \<noteq> 0" using q(1) P by auto
  let ?s = "put_ms p (m\<lparr>ms_slabs := ys\<rparr>) s"
  have a: "avail sc ?s = xs" using avail_put(1) [OF ok pin(1) q(4,1), of ys] q(2,6) by simp
  have "0 \<notin> set (avail sc s)" using ok unfolding pools_ok_def by blast
  then have x0: "x \<noteq> 0" and xs0: "0 \<notin> set xs" using av by auto
  have 1: "sys_slab_cache_alloc (Suc n) sc s = Ret (x, ?s)"
    using q(3,4,5) pin(2) by (simp add: take_slab_def get_ms_def)
  have 2: "pools_ok ?s" by (rule pools_ok_put [OF ok pin(1) q(4)]) (simp add: a xs0)
  show thesis
    by (rule that [OF 1 x0 a avail_put(2) [OF ok pin(1) q(4,1)] 2 same_shape_put_slabs [OF q(4)]])
      simp_all
qed

text \<open>Giving back a slab that lies in a pool of the cache.\<close>

lemma slab_free_avail:
  assumes ok: "pools_ok s" and lk: "sys_objtable_lookup x s = Ret p" and p: "p \<in> set (pools s sc)" and x: "x \<noteq> 0"
  obtains s' where "sys_slab_cache_free x s = Ret s'" "mset (avail sc s') = add_mset x (mset (avail sc s))"
    "\<And>sc'. sc' \<noteq> sc \<Longrightarrow> avail sc' s' = avail sc' s" "pools_ok s'" "same_shape s s'"
    "\<And>w. allocator w s' = allocator w s" "effects s' = effects s"
proof -
  obtain m where m: "sections s p = Some m" "ms_slab_cache m \<noteq> None" using ok p unfolding pools_ok_def by blast
  obtain qs rs where q: "pools s sc = qs @ p # rs" using p by (meson split_list)
  let ?s = "put_ms p (m\<lparr>ms_slabs := ms_slabs m @ [x]\<rparr>) s"
  have 1: "sys_slab_cache_free x s = Ret ?s" using lk m by (simp add: sys_slab_cache_free_def get_ms_def)
  have a: "avail sc ?s = concat (map (pool_slabs s) qs) @ (ms_slabs m @ [x]) @ concat (map (pool_slabs s) rs)"
    by (rule avail_put(1) [OF ok p m(1) q])
  have b: "avail sc s = concat (map (pool_slabs s) qs) @ ms_slabs m @ concat (map (pool_slabs s) rs)"
    using q m(1) by (simp add: avail_def pool_slabs_def)
  have "0 \<notin> set (avail sc s)" using ok unfolding pools_ok_def by blast
  then have "pools_ok ?s" by (intro pools_ok_put [OF ok p m(1)]) (use a b x in auto)
  moreover have "mset (avail sc ?s) = add_mset x (mset (avail sc s))" by (simp add: a b)
  ultimately show thesis
    by (intro that [OF 1 _ avail_put(2) [OF ok p m(1) q] _ same_shape_put_slabs [OF m(1)]])
      simp_all
qed

end
