(* ===== verification/Fpage_Alloc.thy ===== *)
theory Fpage_Alloc
  imports Slab
begin

unbundle bit_operations_syntax

text \<open>
  The buddy allocator of \<open>sys/sys_alloc.c\<close> (\<open>sys$fpage_alloc\<close>, \<open>sys$fpage_alloc_chunk\<close>,
  \<open>sys$fpage_alloc_list\<close> and the functions that take a range out or put a list back), the object
  table of \<open>sys/sys_objtables.c\<close>, and the memory sections of \<open>sys/sys_slab.c\<close> on top of them
  (\<open>sys$pd_create_memsection\<close>, \<open>sys$memsection_back\<close>, \<open>sys$memsection_page_map\<close>) with
  \<open>sys$back_mem\<close>. \<open>n\<close> is the fuel of the mutual recursion and of the loops whose ends depend on the
  state of the allocators.
\<close>

section \<open>Flexpages\<close>

text \<open>The two searches of \<open>sys$fpage_alloc\<close>: upwards from the order of the request, then downwards;
  -1 when every queue is empty.\<close>

fun order_down :: "(nat \<Rightarrow> fnode list) \<Rightarrow> nat \<Rightarrow> int" where
  "order_down fl 0 = (if fl 0 = [] then -1 else 0)"
| "order_down fl (Suc i) = (if fl (Suc i) = [] then order_down fl i else int (Suc i))"

definition find_order :: "(nat \<Rightarrow> fnode list) \<Rightarrow> nat \<Rightarrow> int" where
  "find_order fl order = order_down fl (first_order fl order (MAX_FPAGE_ORDER - order))"

text \<open>The loop that splits a page until it has the order asked for, queueing the upper halves.\<close>

fun split_loop :: "nat \<Rightarrow> nat \<Rightarrow> alloc_id \<Rightarrow> int \<Rightarrow> fpage \<Rightarrow> mm \<Rightarrow> (fpage \<times> mm) outcome" where
  "split_loop n 0 w order fp s = Timeout"
| "split_loop n (Suc k) w order fp s =
     (if sys_fp_order (min_bits s) fp > order then
        bindo (sys_slab_cache_alloc n FP_cache s) (\<lambda>(node, s).
          if node = 0 then Ret (L4_FpageLog2 (L4_Address fp) (L4_SizeLog2 fp + 1), s)
          else let fp' = L4_FpageLog2 (L4_Address fp) (L4_SizeLog2 fp - 1);
                   i = sys_fp_order (min_bits s) fp'; a = allocator w s
               in if i < 0 \<or> i > int MAX_FPAGE_ORDER then Fault
                  else split_loop n k w order fp'
                    (set_allocator w (a\<lparr>flist := (flist a)(nat i := flist a (nat i) @ [\<lparr>fn_addr = node, fn_fpage = buddy fp'\<rparr>])\<rparr>) s))
      else Ret (fp, s))"

definition sys_fpage_alloc :: "nat \<Rightarrow> alloc_id \<Rightarrow> u64 \<Rightarrow> mm \<Rightarrow> (fpage \<times> mm) outcome" where
  "sys_fpage_alloc n w sz s =
     (case sz_order (min_bits s) sz of
        None \<Rightarrow> Timeout
      | Some order \<Rightarrow>
          let a = allocator w s; i = find_order (flist a) order
          in if i < 0 then Ret (L4_Nilpage, s)
             else case flist a (nat i) of
               [] \<Rightarrow> Fault
             | node # rest \<Rightarrow>
                 bindo (sys_slab_cache_free (fn_addr node)
                          (set_allocator w (a\<lparr>flist := (flist a)(nat i := rest)\<rparr>) s)) (\<lambda>s.
                   split_loop n (Suc MAX_FPAGE_ORDER) w (int order) (fn_fpage node) s))"

definition sys_fpage_alloc_chunk :: "nat \<Rightarrow> alloc_id \<Rightarrow> u64 \<Rightarrow> mm \<Rightarrow> (u64 \<times> mm) outcome" where
  "sys_fpage_alloc_chunk n w sz s =
     bindo (sys_fpage_alloc n w sz s) (\<lambda>(fp, s).
       if L4_IsNilFpage fp then Ret (INVALID_ADDR, s)
       else if L4_Size fp < sz then
         bindo (sys_fpage_free_chunk n w (L4_Address fp) (sys_fp_end fp) s) (\<lambda>s. Ret (INVALID_ADDR, s))
       else
         bindo (if L4_Size fp > sz then sys_fpage_free_chunk n w (L4_Address fp + sz) (sys_fp_end fp) s
                else Ret s) (\<lambda>s. Ret (L4_Address fp, s)))"

definition sys_fpage_free_extra :: "nat \<Rightarrow> alloc_id \<Rightarrow> fpage \<Rightarrow> u64 \<Rightarrow> u64 \<Rightarrow> mm \<Rightarrow> mm outcome" where
  "sys_fpage_free_extra n w fp base end s =
     bindo (if L4_Address fp < base then sys_fpage_free_chunk n w (L4_Address fp) (base - 1) s else Ret s) (\<lambda>s.
       if L4_Address fp + (L4_Size fp - 1) > end then sys_fpage_free_chunk n w (end + 1) (sys_fp_end fp) s
       else Ret s)"

text \<open>The walk over one queue. \<open>node\<close> is the address of the current node, 0 at the end. The next
  node is read before the current one is taken out; following a node that has left the queue in the
  meantime is a fault.\<close>

fun remove_node :: "addr \<Rightarrow> fnode list \<Rightarrow> (fnode \<times> addr \<times> fnode list) option" where
  "remove_node p [] = None"
| "remove_node p (x # xs) =
     (if fn_addr x = p then Some (x, (case xs of [] \<Rightarrow> 0 | y # _ \<Rightarrow> fn_addr y), xs)
      else map_option (\<lambda>(y, nx, ys). (y, nx, x # ys)) (remove_node p xs))"

fun remove_walk :: "nat \<Rightarrow> nat \<Rightarrow> alloc_id \<Rightarrow> u64 \<Rightarrow> u64 \<Rightarrow> nat \<Rightarrow> addr \<Rightarrow> mm \<Rightarrow> mm outcome" where
  "remove_walk n 0 w base end i node s = Timeout"
| "remove_walk n (Suc k) w base end i node s =
     (if node = 0 then Ret s
      else let a = allocator w s
           in case remove_node node (flist a i) of
                None \<Rightarrow> Fault
              | Some (x, tmp, rest) \<Rightarrow>
                  let fbase = L4_Address (fn_fpage x); fend = fbase + (L4_Size (fn_fpage x) - 1)
                  in if max base fbase < min end fend then
                       bindo (sys_slab_cache_free node (set_allocator w (a\<lparr>flist := (flist a)(i := rest)\<rparr>) s)) (\<lambda>s.
                       bindo (sys_fpage_free_extra n w (fn_fpage x) base end s) (\<lambda>s.
                         remove_walk n k w base end i tmp s))
                     else remove_walk n k w base end i tmp s)"

fun remove_orders :: "nat \<Rightarrow> alloc_id \<Rightarrow> u64 \<Rightarrow> u64 \<Rightarrow> nat \<Rightarrow> nat \<Rightarrow> mm \<Rightarrow> mm outcome" where
  "remove_orders n w base end i 0 s = Ret s"
| "remove_orders n w base end i (Suc k) s =
     bindo (remove_walk n n w base end i (case flist (allocator w s) i of [] \<Rightarrow> 0 | x # _ \<Rightarrow> fn_addr x) s)
       (\<lambda>s. remove_orders n w base end (i + 1) k s)"

definition sys_fpage_remove_chunk :: "nat \<Rightarrow> alloc_id \<Rightarrow> u64 \<Rightarrow> u64 \<Rightarrow> mm \<Rightarrow> mm outcome" where
  "sys_fpage_remove_chunk n w base end s = remove_orders n w base end 0 (Suc MAX_FPAGE_ORDER) s"

text \<open>\<open>sys$fpage_free_list\<close>; the same steps in another order undo a partial \<open>sys$fpage_alloc_list\<close>.\<close>

fun sys_fpage_free_list :: "nat \<Rightarrow> alloc_id \<Rightarrow> fnode list \<Rightarrow> mm \<Rightarrow> mm outcome" where
  "sys_fpage_free_list n w [] s = Ret s"
| "sys_fpage_free_list n w (x # xs) s =
     bindo (sys_fpage_free_chunk n w (L4_Address (fn_fpage x)) (sys_fp_end (fn_fpage x)) s) (\<lambda>s.
     bindo (sys_slab_cache_free (fn_addr x) s) (\<lambda>s. sys_fpage_free_list n w xs s))"

fun alloc_list_loop :: "nat \<Rightarrow> nat \<Rightarrow> alloc_id \<Rightarrow> u64 \<Rightarrow> u64 \<Rightarrow> u64 \<Rightarrow> fnode list \<Rightarrow> mm \<Rightarrow> (fnode list \<times> mm) outcome" where
  "alloc_list_loop n 0 w base end pagesize list s = Timeout"
| "alloc_list_loop n (Suc k) w base end pagesize list s =
     (if base < end then
        if (end - base) + 1 < pagesize then Ret (list, s)
        else bindo (sys_fpage_alloc n w (L4_Size (sys_biggest_fpage (min_bits s) base base end)) s) (\<lambda>(fp, s).
          if L4_IsNilFpage fp then bindo (sys_fpage_free_list n w list s) (\<lambda>s. Ret ([], s))
          else bindo (sys_slab_cache_alloc n FP_cache s) (\<lambda>(node, s).
            if node = 0 then bindo (sys_fpage_free_list n w list s) (\<lambda>s. Ret ([], s))
            else alloc_list_loop n k w (base + L4_Size fp) end pagesize (list @ [\<lparr>fn_addr = node, fn_fpage = fp\<rparr>]) s))
      else Ret (list, s))"

definition sys_fpage_alloc_list :: "nat \<Rightarrow> alloc_id \<Rightarrow> u64 \<Rightarrow> u64 \<Rightarrow> u64 \<Rightarrow> mm \<Rightarrow> (fnode list \<times> mm) outcome" where
  "sys_fpage_alloc_list n w base end pagesize s = alloc_list_loop n n w base end pagesize [] s"

section \<open>Memory sections\<close>

text \<open>\<open>sys$memsection_lookup_phys\<close>: running off the end of the list dereferences the null pointer.\<close>

fun lookup_phys :: "fnode list \<Rightarrow> u64 \<Rightarrow> u64 \<Rightarrow> u64 outcome" where
  "lookup_phys [] virt a = Fault"
| "lookup_phys (x # xs) virt a =
     (if a \<ge> virt \<and> a < virt + L4_Size (fn_fpage x) then Ret (L4_Address (fn_fpage x) + (a - virt))
      else lookup_phys xs (virt + L4_Size (fn_fpage x)) a)"

definition sys_memsection_lookup_phys :: "memsection \<Rightarrow> u64 \<Rightarrow> u64 outcome" where
  "sys_memsection_lookup_phys m a =
     (case ms_phys m of PhysList xs \<Rightarrow> lookup_phys xs (ms_base m) a | PhysBase b \<Rightarrow> Fault)"

fun page_map_loop :: "nat \<Rightarrow> memsection \<Rightarrow> u64 \<Rightarrow> u64 \<Rightarrow> u64 \<Rightarrow> u64 \<Rightarrow> mm \<Rightarrow> mm outcome" where
  "page_map_loop 0 src from_base to_base sz offset s = Timeout"
| "page_map_loop (Suc k) src from_base to_base sz offset s =
     (if offset < sz then
        bindo (sys_memsection_lookup_phys src (from_base + offset)) (\<lambda>phys.
          page_map_loop k src from_base to_base sz (offset + min_pagesize s)
            (emit (Sigma0_map (to_base + offset) phys (min_pagesize s) L4_FullyAccessible) s))
      else Ret s)"

definition sys_memsection_page_map :: "addr \<Rightarrow> fpage \<Rightarrow> fpage \<Rightarrow> mm \<Rightarrow> (int \<times> mm) outcome" where
  "sys_memsection_page_map self from_page to_page s =
     bindo (get_ms self s) (\<lambda>m.
       if ms_flags m AND VMS_MEM_USER \<noteq> 0 then Ret (-1, s)
       else if L4_Size from_page \<noteq> L4_Size to_page then Ret (-1, s)
       else let from_base = L4_Address from_page; from_end = from_base + (L4_Size from_page - 1);
                to_base = L4_Address to_page; to_end = to_base + (L4_Size to_page - 1)
            in bindo (sys_objtable_lookup from_base s) (\<lambda>src.
                 if src = 0 then Ret (-1, s)
                 else bindo (get_ms src s) (\<lambda>sm.
                   if ms_flags sm AND VMS_MEM_USER \<noteq> 0 then Ret (-1, s)
                   else if ms_flags sm AND VMS_MEM_INTERNAL \<noteq> 0 then Ret (-1, s)
                   else if to_base < ms_base m \<or> to_end > ms_end m then Ret (-1, s)
                   else let sz = (from_end - from_base) + 1
                        in bindo (page_map_loop (Suc (unat sz)) sm from_base to_base sz 0 s) (\<lambda>s. Ret (0, s)))))"

fun back_list :: "fnode list \<Rightarrow> u64 \<Rightarrow> mm \<Rightarrow> mm" where
  "back_list [] a s = s"
| "back_list (x # xs) a s =
     (let vpage = L4_Fpage a (L4_Size (fn_fpage x))
      in back_list xs (a + L4_Size vpage)
           (emit (Initmem (L4_Address vpage) (L4_Size vpage))
             (emit (Sigma0_map_fpage vpage (fn_fpage x) L4_FullyAccessible) s)))"

definition sys_memsection_back :: "addr \<Rightarrow> mm \<Rightarrow> (int \<times> mm) outcome" where
  "sys_memsection_back p s =
     bindo (get_ms p s) (\<lambda>m.
       let sz = (ms_end m - ms_base m) + 1
       in if ms_flags m AND (VMS_MEM_USER OR VMS_MEM_UTCB) \<noteq> 0 then Ret (-1, s)
          else if ms_flags m AND VMS_MEM_INTERNAL \<noteq> 0 then
            (case ms_phys m of
               PhysBase b \<Rightarrow> Ret (0, emit (Sigma0_map (ms_base m) b sz L4_FullyAccessible) s)
             | PhysList xs \<Rightarrow> Fault)
          else (case ms_phys m of
               PhysList xs \<Rightarrow> Ret (0, back_list xs (ms_base m) s)
             | PhysBase b \<Rightarrow> Fault))"

section \<open>The object table\<close>

definition sys_objtable_init :: "mm \<Rightarrow> mm" where
  "sys_objtable_init s = s\<lparr>objtable := Some \<lparr>bt_depth = 0, bt_root = None\<rparr>\<rparr>"

definition ObjAllocPage :: "nat \<Rightarrow> mm \<Rightarrow> (ptr \<times> mm) outcome" where
  "ObjAllocPage n s = bindo (sys_slab_cache_alloc n BT_cache s) (\<lambda>(p, s). Ret (unat p, s))"

definition ObjFreePage :: "addr \<Rightarrow> mm \<Rightarrow> mm outcome" where
  "ObjFreePage page s = sys_slab_cache_free page s"

text \<open>The object that the tree keeps for a section.\<close>

definition ms_obj :: "addr \<Rightarrow> memsection \<Rightarrow> btobj" where
  "ms_obj p m = \<lparr>ob_ptr = unat p, ob_base = ms_base m, ob_end = ms_end m\<rparr>"

definition insert_ms :: "nat \<Rightarrow> addr \<Rightarrow> mm \<Rightarrow> (int \<times> mm) outcome" where
  "insert_ms n p s =
     bindo (get_ms p s) (\<lambda>m.
     bindo (BTIns (ObjAllocPage n) (objtable s) (ms_obj p m) s) (\<lambda>(r, t, s).
       Ret (if r \<noteq> BT_OK then -1 else 0, s\<lparr>objtable := t\<rparr>)))"

definition objtable_insert :: "nat \<Rightarrow> addr \<Rightarrow> mm \<Rightarrow> (int \<times> mm) outcome" where
  "objtable_insert n p s = (if vms_pd_initialized s then insert_ms n p s else Ret (0, s))"

text \<open>\<open>phys.list\<close> of a section.\<close>

definition phys_list :: "memsection \<Rightarrow> fnode list outcome" where
  "phys_list m = (case ms_phys m of PhysList xs \<Rightarrow> Ret xs | PhysBase b \<Rightarrow> Fault)"

definition objtable_setup :: "nat \<Rightarrow> addr \<Rightarrow> u64 \<Rightarrow> u64 \<Rightarrow> u64 \<Rightarrow> mm \<Rightarrow> (int \<times> mm) outcome" where
  "objtable_setup n p sz flags pagesize s =
     panic_if (flags AND VMS_MEM_NORMAL = 0)
     (bindo (get_ms p s) (\<lambda>m.
      bindo (sys_fpage_alloc_chunk n VM sz (put_ms p (m\<lparr>ms_flags := flags\<rparr>) s)) (\<lambda>(base, s).
      bindo (get_ms p s) (\<lambda>m.
        if base = INVALID_ADDR then Ret (-1, put_ms p (m\<lparr>ms_base := base\<rparr>) s)
        else let e = base + (sz - 1); s = put_ms p (m\<lparr>ms_base := base, ms_end := e\<rparr>) s
          in bindo
              (if flags AND VMS_MEM_USER \<noteq> 0 then Ret (0, s)
               else bindo (sys_fpage_alloc_list n PM base e pagesize s) (\<lambda>(list, s).
                    bindo (get_ms p s) (\<lambda>m.
                      let s = put_ms p (m\<lparr>ms_phys := PhysList list\<rparr>) s
                      in if list = [] then bindo (sys_fpage_free_chunk n VM base e s) (\<lambda>s. Ret (-2, s))
                         else bindo (sys_memsection_back p s) (\<lambda>(_, s). Ret (0, s)))))
              (\<lambda>(r0, s).
                 if r0 \<noteq> 0 then Ret (r0, s)
                 else bindo (objtable_insert n p s) (\<lambda>(r, s).
                   if r \<noteq> 0 then
                     bindo (sys_fpage_free_chunk n VM base e s) (\<lambda>s.
                     bindo (get_ms p s) (\<lambda>m.
                     bindo (phys_list m) (\<lambda>list.
                     bindo (sys_fpage_free_list n PM list s) (\<lambda>s. Ret (r, s)))))
                   else Ret (r, s)))))))"

definition objtable_setup_fixed :: "nat \<Rightarrow> addr \<Rightarrow> u64 \<Rightarrow> u64 \<Rightarrow> u64 \<Rightarrow> u64 \<Rightarrow> mm \<Rightarrow> (int \<times> mm) outcome" where
  "objtable_setup_fixed n p sz base flags pagesize s =
     panic_if (flags AND VMS_MEM_FIXED = 0)
     (let e = base + (sz - 1)
      in bindo (get_ms p s) (\<lambda>m.
         bindo (objtable_insert n p (put_ms p (m\<lparr>ms_flags := flags, ms_base := base, ms_end := e\<rparr>) s)) (\<lambda>(r, s).
           if r \<noteq> 0 then Ret (r, s)
           else bindo (sys_fpage_remove_chunk n VM base (base + sz - 1) s) (\<lambda>s.
             if flags AND VMS_MEM_USER \<noteq> 0 then Ret (r, s)
             else bindo (sys_fpage_alloc_list n PM base e pagesize s) (\<lambda>(list, s).
                  bindo (get_ms p s) (\<lambda>m.
                    let s = put_ms p (m\<lparr>ms_phys := PhysList list\<rparr>) s
                    in if list = [] then bindo (sys_fpage_free_chunk n VM base e s) (\<lambda>s. Ret (-1, s))
                       else bindo (sys_memsection_back p s) (\<lambda>(_, s). Ret (r, s))))))))"

definition objtable_setup_utcb :: "nat \<Rightarrow> addr \<Rightarrow> u64 \<Rightarrow> u64 \<Rightarrow> mm \<Rightarrow> (int \<times> mm) outcome" where
  "objtable_setup_utcb n p sz flags s =
     panic_if (flags AND VMS_MEM_UTCB = 0)
     (bindo (get_ms p s) (\<lambda>m.
      bindo (sys_fpage_alloc_chunk n VM sz (put_ms p (m\<lparr>ms_flags := flags\<rparr>) s)) (\<lambda>(base, s).
      bindo (get_ms p s) (\<lambda>m.
        if base = INVALID_ADDR then Ret (-1, put_ms p (m\<lparr>ms_base := base\<rparr>) s)
        else let e = base + (sz - 1)
          in bindo (objtable_insert n p (put_ms p (m\<lparr>ms_base := base, ms_end := e\<rparr>) s)) (\<lambda>(r, s).
               if r \<noteq> 0 then bindo (sys_fpage_free_chunk n VM base e s) (\<lambda>s. Ret (r, s))
               else Ret (r, s))))))"

definition objtable_setup_internal :: "nat \<Rightarrow> addr \<Rightarrow> u64 \<Rightarrow> u64 \<Rightarrow> u64 \<Rightarrow> mm \<Rightarrow> (int \<times> mm) outcome" where
  "objtable_setup_internal n p sz base flags s =
     panic_if (flags AND VMS_MEM_INTERNAL = 0)
     (bindo (get_ms p s) (\<lambda>m.
      bindo (objtable_insert n p (put_ms p (m\<lparr>ms_flags := flags, ms_base := base, ms_end := base + (sz - 1),
               ms_phys := PhysBase base\<rparr>) s)) (\<lambda>(r, s).
        if r = 0 then bindo (sys_memsection_back p s) (\<lambda>(_, s). Ret (r, s)) else Ret (r, s))))"

section \<open>Creating sections\<close>

text \<open>\<open>sys$memsection_new\<close>: the address of the node, 0 when there is no memory.\<close>

definition sys_memsection_new :: "nat \<Rightarrow> mm \<Rightarrow> (addr \<times> mm) outcome" where
  "sys_memsection_new n s =
     bindo (sys_slab_cache_alloc n MS_cache s) (\<lambda>(node, s).
       if node = 0 then Ret (0, s)
       else Ret (node, put_ms (node + data_offset) zero_memsection s))"

definition sys_delete_memsection_from_allocator :: "addr \<Rightarrow> mm \<Rightarrow> mm outcome" where
  "sys_delete_memsection_from_allocator node s = sys_slab_cache_free node s"

definition append_section :: "addr \<Rightarrow> bool \<Rightarrow> addr \<Rightarrow> mm \<Rightarrow> mm" where
  "append_section self in_pd ms s =
     (if in_pd then s\<lparr>pd_memsections := (pd_memsections s)(self := pd_memsections s self @ [ms])\<rparr>
      else s\<lparr>internal_memsections := internal_memsections s @ [ms]\<rparr>)"

definition sys_pd_create_memsection :: "nat \<Rightarrow> addr \<Rightarrow> u64 \<Rightarrow> u64 \<Rightarrow> u64 \<Rightarrow> u64 \<Rightarrow> mm \<Rightarrow> (addr \<times> mm) outcome" where
  "sys_pd_create_memsection n self sz base flags pagesize s0 =
     bindo (sys_memsection_new n s0) (\<lambda>(node, s).
       if node = 0 then Ret (0, s)
       else let ms = node + data_offset
            in bindo
              (if flags AND VMS_MEM_NORMAL \<noteq> 0 then objtable_setup n ms sz flags pagesize s
               else if flags AND VMS_MEM_FIXED \<noteq> 0 then objtable_setup_fixed n ms sz base flags pagesize s
               else if flags AND VMS_MEM_UTCB \<noteq> 0 then objtable_setup_utcb n ms sz flags s
               else if flags AND VMS_MEM_INTERNAL \<noteq> 0 then objtable_setup_internal n ms sz base flags s
               else Ret (-1, s))
              (\<lambda>(r, s).
                 if r \<noteq> 0 then bindo (sys_delete_memsection_from_allocator node s) (\<lambda>s. Ret (0, s))
                 else Ret (ms, append_section self (vms_pd_initialized s0) ms s)))"

text \<open>\<open>sys$back_mem\<close>: \<open>k\<close> is the fuel of the loop over the pages.\<close>

fun back_mem_loop :: "nat \<Rightarrow> nat \<Rightarrow> addr \<Rightarrow> addr \<Rightarrow> u64 \<Rightarrow> u64 \<Rightarrow> u64 \<Rightarrow> mm \<Rightarrow> (int \<times> mm) outcome" where
  "back_mem_loop n 0 pd ms base end pagesize s = Timeout"
| "back_mem_loop n (Suc k) pd ms base end pagesize s =
     (if base < end then
        bindo (sys_pd_create_memsection n pd pagesize 0 VMS_MEM_NORMAL pagesize s) (\<lambda>(backed, s).
          if backed = 0 then Ret (-1, s)
          else bindo (get_ms backed s) (\<lambda>bm.
               bindo (sys_memsection_page_map ms (L4_Fpage (ms_base bm) pagesize) (L4_Fpage base pagesize) s) (\<lambda>(_, s).
                 back_mem_loop n k pd ms (base + pagesize) end pagesize s)))
      else Ret (0, s))"

definition sys_back_mem :: "nat \<Rightarrow> nat \<Rightarrow> addr \<Rightarrow> u64 \<Rightarrow> u64 \<Rightarrow> u64 \<Rightarrow> mm \<Rightarrow> (int \<times> mm) outcome" where
  "sys_back_mem n k freevms_pd base end pagesize s =
     bindo (sys_objtable_lookup base s) (\<lambda>ms.
       if ms = 0 then Panic
       else bindo (get_ms ms s) (\<lambda>m.
         panic_if (ms_flags m AND VMS_MEM_USER = 0) (back_mem_loop n k freevms_pd ms base end pagesize s)))"

end
