(* ===== verification/Boot.thy ===== *)
theory Boot
  imports Boot_Objects Fpage_Alloc Kernel_Heap
begin

unbundle bit_operations_syntax

text \<open>
  Start of the memory manager, \<open>sys/sys_ms_init.c\<close>: \<open>sys$mem_init\<close> fills the region tables and the
  object table, \<open>sys$bootstrap\<close> hands the regions to the page allocators and creates the kernel heap,
  and \<open>sys$populate_init_objects\<close> makes a memory section for every object that is in virtual memory.
  The tables of \<open>struct vms$meminfo\<close> are lists, with the capacities of the static arrays as
  constants. Messages on the console are left out.
\<close>

section \<open>Filling the tables\<close>

definition NUM_MI_REGIONS :: nat where "NUM_MI_REGIONS = 1024"
definition NUM_MI_IOREGIONS :: nat where "NUM_MI_IOREGIONS = 1024"
definition NUM_MI_VMREGIONS :: nat where "NUM_MI_VMREGIONS = 1024"
definition NUM_MI_OBJECTS :: nat where "NUM_MI_OBJECTS = 1024"

record meminfo =
  mi_regions :: "memdesc list"
  mi_io_regions :: "memdesc list"
  mi_vm_regions :: "memdesc list"
  mi_objects :: "initial_obj list"
  mi_swapper_base :: u64

fun remove_objects :: "u64 \<Rightarrow> initial_obj list \<Rightarrow> memdesc list \<Rightarrow> memdesc list outcome" where
  "remove_objects pagesize [] rs = Ret rs"
| "remove_objects pagesize (obj # objs) rs =
     (if io_flags obj AND IOF_PHYS \<noteq> 0 then
        bindo (sys_remove_chunk rs NUM_MI_REGIONS (sys_page_round_down (io_base obj) pagesize)
                 (sys_page_round_up (io_end obj) pagesize - 1)) (\<lambda>rs. remove_objects pagesize objs rs)
      else remove_objects pagesize objs rs)"

fun swapper_base_of :: "memdesc list \<Rightarrow> u64 \<Rightarrow> u64" where
  "swapper_base_of [] sb = sb"
| "swapper_base_of (d # ds) sb = swapper_base_of ds (if sb < md_end d then md_end d + 1 else sb)"

definition sys_mem_init :: "u8 list \<Rightarrow> kip_page \<Rightarrow> u64 \<Rightarrow> meminfo outcome" where
  "sys_mem_init junk kip pagesize =
     bindo (sys_find_memory_region (kip_memory kip) NUM_MI_REGIONS VMS_MEM_RAM VMS_MEM_IO) (\<lambda>rs.
     bindo (sys_find_memory_region (kip_memory kip) NUM_MI_IOREGIONS VMS_MEM_IO VMS_MEM_RAM) (\<lambda>ios.
     bindo (sys_find_memory_region (kip_memory kip) NUM_MI_VMREGIONS VMS_MEM_VM 0) (\<lambda>vms.
     bindo (sys_remove_chunk vms NUM_MI_VMREGIONS 0 (pagesize - 1)) (\<lambda>vms.
     bindo (sys_find_initial_objects NUM_MI_OBJECTS junk kip NUM_MI_OBJECTS) (\<lambda>(objs, count).
     bindo (remove_objects pagesize objs rs) (\<lambda>rs.
       Ret \<lparr>mi_regions = rs, mi_io_regions = ios, mi_vm_regions = vms,
            mi_objects = sys_set_flags objs IOF_APP IOF_VIRT, mi_swapper_base = swapper_base_of rs 0\<rparr>))))))"

section \<open>Handing memory to the allocators\<close>

definition empty_alloc :: fpage_alloc where
  "empty_alloc = \<lparr>flist = (\<lambda>_. []), int_base = 0, int_end = 0, int_active = False\<rparr>"

fun remove_virt_objects :: "u64 \<Rightarrow> initial_obj list \<Rightarrow> memdesc list \<Rightarrow> memdesc list outcome" where
  "remove_virt_objects pagesize [] vms = Ret vms"
| "remove_virt_objects pagesize (obj # objs) vms =
     (if io_flags obj AND IOF_VIRT \<noteq> 0 then
        bindo (sys_remove_virtmem vms NUM_MI_VMREGIONS (io_base obj) (io_end obj) pagesize) (\<lambda>vms.
          remove_virt_objects pagesize objs vms)
      else remove_virt_objects pagesize objs vms)"

definition inner_base :: "u64 \<Rightarrow> memdesc \<Rightarrow> u64" where
  "inner_base pagesize d = sys_page_round_up (md_base d) pagesize"

definition inner_end :: "u64 \<Rightarrow> memdesc \<Rightarrow> u64" where
  "inner_end pagesize d = sys_page_round_down (md_end d + 1) pagesize - 1"

text \<open>The index of the first region from \<open>i\<close> on that satisfies the size test, or the number of
  regions.\<close>

fun first_region :: "(memdesc \<Rightarrow> bool) \<Rightarrow> memdesc list \<Rightarrow> nat \<Rightarrow> nat" where
  "first_region P [] i = i"
| "first_region P (d # ds) i = (if P d then i else first_region P ds (i + 1))"

definition vm_start_ok :: "u64 \<Rightarrow> memdesc \<Rightarrow> bool" where
  "vm_start_ok pagesize d \<longleftrightarrow> inner_end pagesize d - (inner_base pagesize d + 1) \<ge> 2 * pagesize"

definition pm_start_ok :: "u64 \<Rightarrow> memdesc \<Rightarrow> bool" where
  "pm_start_ok pagesize d \<longleftrightarrow> (inner_end pagesize d - inner_base pagesize d) + 1 \<ge> 2 * pagesize"

text \<open>A region that was handed over is marked by an end equal to its base.\<close>

definition mark_used :: "nat \<Rightarrow> memdesc list \<Rightarrow> memdesc list" where
  "mark_used i ds = ds[i := (ds ! i)\<lparr>md_end := md_base (ds ! i)\<rparr>]"

fun free_regions :: "nat \<Rightarrow> u64 \<Rightarrow> memdesc list \<Rightarrow> mm \<Rightarrow> mm outcome" where
  "free_regions n pagesize [] s = Ret s"
| "free_regions n pagesize (d # ds) s =
     (if md_base d = md_end d then free_regions n pagesize ds s
      else if inner_base pagesize d < inner_end pagesize d then
        bindo (sys_fpage_free_chunk n PM (inner_base pagesize d) (inner_end pagesize d) s) (\<lambda>s.
          free_regions n pagesize ds s)
      else free_regions n pagesize ds s)"

fun free_vm_regions :: "nat \<Rightarrow> memdesc list \<Rightarrow> mm \<Rightarrow> mm outcome" where
  "free_vm_regions n [] s = Ret s"
| "free_vm_regions n (d # ds) s =
     (if md_base d < md_end d then
        bindo (sys_fpage_free_chunk n VM (md_base d) (md_end d) s) (\<lambda>s. free_vm_regions n ds s)
      else free_vm_regions n ds s)"

definition VMS_HEAP_SIZE :: u64 where "VMS_HEAP_SIZE = 4 * 1024 * 1024"

text \<open>The first part of \<open>sys$bootstrap\<close>: the allocators are emptied, the objects leave the virtual
  memory, and the first big enough region of each kind starts its allocator. The first \<open>PANIC\<close>
  compares an index of the virtual regions with the number of physical ones.\<close>

definition start_allocators :: "nat \<Rightarrow> meminfo \<Rightarrow> u64 \<Rightarrow> mm \<Rightarrow> (meminfo \<times> mm) outcome" where
  "start_allocators n mi pagesize s0 =
     (let s = s0\<lparr>pm_alloc := empty_alloc, vm_alloc := empty_alloc\<rparr>
      in bindo (remove_virt_objects pagesize (mi_objects mi) (mi_vm_regions mi)) (\<lambda>vms.
         let i = first_region (vm_start_ok pagesize) vms 0
         in bindo (if i < length vms then
                     bindo (sys_fpage_free_internal (sys_fpage_clear_internal n) VM (inner_base pagesize (vms ! i))
                              (inner_end pagesize (vms ! i)) s) (\<lambda>s. Ret (mark_used i vms, s))
                   else Ret (vms, s)) (\<lambda>(vms, s).
            panic_if (i \<ge> length (mi_regions mi))
            (let rs = mi_regions mi; j = first_region (pm_start_ok pagesize) rs 0
             in bindo (if j < length rs then
                         bindo (sys_fpage_free_chunk n PM (inner_base pagesize (rs ! j)) (inner_end pagesize (rs ! j)) s)
                           (\<lambda>s. Ret (mark_used j rs, s))
                       else Ret (rs, s)) (\<lambda>(rs, s).
                panic_if (j \<ge> length rs) (Ret (mi\<lparr>mi_vm_regions := vms, mi_regions := rs\<rparr>, s)))))))"

definition sys_bootstrap :: "nat \<Rightarrow> meminfo \<Rightarrow> u64 \<Rightarrow> mm \<Rightarrow> heap \<Rightarrow> (meminfo \<times> mm \<times> heap) outcome" where
  "sys_bootstrap n mi pagesize s h =
     bindo (start_allocators n mi pagesize s) (\<lambda>(mi, s).
     bindo (free_regions n pagesize (mi_regions mi) s) (\<lambda>s.
     bindo (sys_fpage_clear_internal n VM s) (\<lambda>s.
     bindo (free_vm_regions n (mi_vm_regions mi) s) (\<lambda>s.
     bindo (sys_pd_create_memsection n 0 VMS_HEAP_SIZE 0 (VMS_MEM_NORMAL OR VMS_MEM_USER) pagesize s) (\<lambda>(ms, s).
       panic_if (ms = 0)
         (bindo (get_ms ms s) (\<lambda>m.
            Ret (mi, s, sys_alloc_init (unat (ms_base m)) (unat (ms_end m)) h))))))))"

section \<open>Sections of the initial objects\<close>

fun sys_populate_init_objects :: "nat \<Rightarrow> addr \<Rightarrow> u64 \<Rightarrow> initial_obj list \<Rightarrow> mm \<Rightarrow> mm outcome" where
  "sys_populate_init_objects n freevms_pd pagesize [] s = Ret s"
| "sys_populate_init_objects n freevms_pd pagesize (obj # objs) s =
     (if io_flags obj AND IOF_VIRT \<noteq> 0 then
        let lo = sys_page_round_down (io_base obj) pagesize
        in bindo (sys_pd_create_memsection n freevms_pd (io_end obj - lo) lo VMS_MEM_INTERNAL pagesize s) (\<lambda>(ret, s).
             panic_if (ret = 0)
             (bindo (sys_objtable_lookup (io_base obj) s) (\<lambda>found.
                panic_if (found = 0) (sys_populate_init_objects n freevms_pd pagesize objs s))))
      else sys_populate_init_objects n freevms_pd pagesize objs s)"

end
