(* ===== verification/Twister.thy ===== *)
theory Twister
  imports Prelude "HOL-Library.Signed_Division"
begin

unbundle bit_operations_syntax

text \<open>
  The random numbers of \<open>sys/sec_rand.c\<close> that become the passwords of capabilities: a variant of the
  Mersenne twister on an array of 624 signed 32-bit integers. A shift to the right of a signed
  integer is arithmetic (\<open>signed_drop_bit\<close>) and \<open>%\<close> truncates (\<open>smod\<close>), as the compiler does it.
\<close>

section \<open>The generator\<close>

record twister =
  mt :: "u32 list"
  index :: nat
  initialized :: bool

definition init_next :: "u32 \<Rightarrow> u32" where
  "init_next m = 1812433253 * (m XOR signed_drop_bit 30 m)"

fun init_loop :: "nat \<Rightarrow> u32 \<Rightarrow> u32 list" where
  "init_loop 0 m = []"
| "init_loop (Suc n) m = m # init_loop n (init_next m)"

definition rand_init :: "u32 \<Rightarrow> twister \<Rightarrow> twister" where
  "rand_init seed g = g\<lparr>mt := init_loop 624 seed, initialized := True\<rparr>"

definition twist :: "u32 list \<Rightarrow> nat \<Rightarrow> u32" where
  "twist m i =
     (let y = (m ! i AND 0x80000000) + (m ! ((i + 1) mod 624) AND 0x7fffffff);
          v = m ! ((i + 397) mod 624) XOR signed_drop_bit 1 y
      in if sint y smod 2 = 1 then v XOR 2567483615 else v)"

fun generate_loop :: "nat \<Rightarrow> nat \<Rightarrow> u32 list \<Rightarrow> u32 list" where
  "generate_loop 0 i m = m"
| "generate_loop (Suc n) i m = generate_loop n (i + 1) (m[i := twist m i])"

definition rand_generate_number :: "twister \<Rightarrow> twister" where
  "rand_generate_number g =
     (let g = (if initialized g then g else rand_init 1 g) in g\<lparr>mt := generate_loop 624 0 (mt g)\<rparr>)"

definition temper :: "u32 \<Rightarrow> u32" where
  "temper y =
     (let y = y XOR signed_drop_bit 11 y;
          y = y XOR (push_bit 7 y AND 2636928640);
          y = y XOR (push_bit 15 y AND 4022730752)
      in y XOR signed_drop_bit 18 y)"

text \<open>\<open>rand$extract_number()\<close>: the number is converted to \<open>vms$pointer\<close> with its sign.\<close>

definition rand_extract_word :: "twister \<Rightarrow> (u64 \<times> twister)" where
  "rand_extract_word g =
     (let g = (if index g = 0 then rand_generate_number g else g)
      in (scast (temper (mt g ! index g)), g\<lparr>index := (index g + 1) mod 624\<rparr>))"

text \<open>The four bytes that one number gives: the shifts between them are by 2.\<close>

definition four_bytes :: "u64 \<Rightarrow> u8 list" where
  "four_bytes t = map (\<lambda>k. ucast (drop_bit (2 * k) t AND 0xff)) [0, 1, 2, 3]"

text \<open>\<open>rand$extract_number(size)\<close>: \<open>r\<close> holds the bytes of the result from the lowest on, which are
  not initialised; writing behind them is a fault.\<close>

fun extract_loop :: "nat \<Rightarrow> nat \<Rightarrow> u8 list \<Rightarrow> twister \<Rightarrow> (u8 list \<times> twister) outcome" where
  "extract_loop 0 i r g = Ret (r, g)"
| "extract_loop (Suc n) i r g =
     (case rand_extract_word g of (t, g) \<Rightarrow>
        if i + 4 \<le> length r
        then extract_loop n (i + 4) (take i r @ four_bytes t @ drop (i + 4) r) g
        else Fault)"

fun le_word :: "u8 list \<Rightarrow> u64" where
  "le_word [] = 0"
| "le_word (b # bs) = ucast b OR push_bit 8 (le_word bs)"

definition rand_extract_number :: "u8 list \<Rightarrow> u32 \<Rightarrow> twister \<Rightarrow> (u64 \<times> twister) outcome" where
  "rand_extract_number junk sz g =
     bindo (extract_loop (unat (sz div 4)) 0 junk g) (\<lambda>(r, g). Ret (le_word r, g))"


section \<open>The state of the generator\<close>

definition twister_ok :: "twister \<Rightarrow> bool" where
  "twister_ok g \<longleftrightarrow> index g < 624 \<and> length (mt g) = 624 \<and> (index g \<noteq> 0 \<longrightarrow> initialized g)"

lemma length_init_loop [simp]: "length (init_loop n m) = n"
  by (induction n m rule: init_loop.induct) auto

lemma length_generate_loop [simp]: "length (generate_loop n i m) = length m"
  by (induction n i m rule: generate_loop.induct) auto

lemma generate_ok: "length (mt g) = 624 \<Longrightarrow> length (mt (rand_generate_number g)) = 624"
  by (simp add: rand_generate_number_def rand_init_def Let_def)

lemma generate_fields [simp]: "index (rand_generate_number g) = index g" "initialized (rand_generate_number g)"
  by (simp_all add: rand_generate_number_def rand_init_def Let_def)

lemma extract_word_ok:
  assumes "twister_ok g" "rand_extract_word g = (t, g')"
  shows "twister_ok g'"
  using assms generate_ok [of g]
  by (auto simp: rand_extract_word_def twister_ok_def Let_def)

lemma extract_loop_ok:
  "twister_ok g \<Longrightarrow> extract_loop n i r g = Ret (r', g') \<Longrightarrow> twister_ok g' \<and> length r' = length r"
proof (induction n i r g rule: extract_loop.induct)
  case (2 n i r g)
  obtain t g1 where e: "rand_extract_word g = (t, g1)" by force
  have "twister_ok g1" by (rule extract_word_ok [OF "2.prems"(1) e])
  then show ?case using "2.IH" [OF e [symmetric]] "2.prems"(2) e
    by (auto simp: four_bytes_def split: if_splits)
qed simp

section \<open>How many passwords there are\<close>

lemma four_bytes_low: "four_bytes t = four_bytes (take_bit 14 t)"
  unfolding four_bytes_def
  by (intro map_cong refl bit_word_eqI) (auto simp: bit_simps)

lemma length_four_bytes [simp]: "length (four_bytes t) = 4"
  by (simp add: four_bytes_def)

definition passwords :: "u64 set" where
  "passwords = {w. \<exists>junk g g'. length junk = 8 \<and> rand_extract_number junk 8 g = Ret (w, g')}"

lemma password_form:
  assumes "w \<in> passwords"
  shows "\<exists>t1 < 2 ^ 14. \<exists>t2 < 2 ^ 14. w = le_word (four_bytes (of_nat t1) @ four_bytes (of_nat t2))"
proof -
  obtain junk g g' where j: "length junk = 8" "rand_extract_number junk 8 g = Ret (w, g')"
    using assms by (auto simp: passwords_def)
  obtain t1 g1 where e1: "rand_extract_word g = (t1, g1)" by force
  obtain t2 g2 where e2: "rand_extract_word g1 = (t2, g2)" by force
  have "unat ((8 :: u32) div 4) = 2" by simp
  then have "w = le_word (four_bytes t1 @ four_bytes t2)"
    using j e1 e2 by (simp add: rand_extract_number_def numeral_2_eq_2)
  moreover have "unat (take_bit 14 t :: u64) < 2 ^ 14" for t
    unfolding unsigned_take_bit_eq by (rule take_bit_nat_less_exp)
  ultimately show ?thesis
    using four_bytes_low [of t1] four_bytes_low [of t2]
    by (intro exI [of _ "unat (take_bit 14 t1)"] conjI exI [of _ "unat (take_bit 14 t2)"]) simp_all
qed

text \<open>\<open>rand$extract_number(sizeof(cap.passwd))\<close> can give at most \<open>2^28\<close> different values of the
  \<open>2^64\<close> that the field holds: the bytes that are cut from a number overlap, because it is shifted by
  2 and not by 8 between them.\<close>

theorem passwords_few: "finite passwords \<and> card passwords \<le> 2 ^ 28"
proof -
  let ?f = "\<lambda>(t1, t2). le_word (four_bytes (of_nat t1) @ four_bytes (of_nat t2))"
  let ?D = "{..<(2 :: nat) ^ 14} \<times> {..<(2 :: nat) ^ 14}"
  have sub: "passwords \<subseteq> ?f ` ?D"
  proof
    fix w assume "w \<in> passwords"
    from password_form [OF this] obtain t1 t2 where t: "t1 < 2 ^ 14" "t2 < 2 ^ 14" "w = ?f (t1, t2)"
      by auto
    show "w \<in> ?f ` ?D" unfolding t(3) by (rule imageI) (use t in simp)
  qed
  have "card (?f ` ?D) \<le> card ?D" by (rule card_image_le) simp
  also have "card ?D = 2 ^ 28" by simp
  finally show ?thesis using sub finite_subset [OF sub] card_mono [OF _ sub] by (simp add: order_trans)
qed

end
