(* ===== verification/Threads.thy ===== *)
theory Threads
  imports Range_Freelist Hash_Table Bit_Freelist Boot Twister
begin

unbundle bit_operations_syntax

text \<open>
  Threads, protection domains and capabilities: \<open>sys/sys_thread.c\<close>, \<open>sys/sys_pd_init.c\<close>,
  \<open>sys/sys_quota.c\<close> and \<open>sys/sec_caps.c\<close>.

  The state \<open>kmem\<close> extends the store of the doubly linked lists and ranges: structures are found by
  their address, and the lists that the structures embed are rings of nodes whose head is the address
  of the structure plus the offset of the field. The first two words of a list element are its ring
  node, so an element is found 16 bytes behind its node. The L4 system calls are the fields of
  \<open>env\<close>, functions on the state \<open>'k\<close> of the microkernel; \<open>env_alloc\<close> and \<open>env_free\<close> are \<open>sys$alloc\<close>
  and \<open>sys$free\<close>. \<open>n\<close> is the fuel of the memory manager.
\<close>

section \<open>Data\<close>

record thread =
  t_owner :: ptr
  t_utcb :: u64
  t_eas :: ptr
  t_id :: thread_id

datatype pd_state = pd_empty | pd_active | pd_suspended

record pd =
  pd_owner :: ptr
  pd_st :: pd_state
  pd_utcb_memsection :: addr
  pd_utcb_base :: u64
  pd_utcb_area :: fpage
  pd_local_threadno :: "bfl option"
  pd_quota :: ptr

datatype cap_type =
  CAP_OBJ | CAP_MEMSECTION | CAP_THREAD | CAP_PD | CAP_SESSION | CAP_EAS | CAP_HW | CAP_QUOTA

record cap =
  cap_ref :: u64
  cap_kind :: cap_type
  cap_passwd :: u64

record clist_info =
  cl_clist :: ptr
  cl_type :: u32
  cl_length :: u64

record session =
  se_owner :: ptr
  se_client :: ptr
  se_server :: ptr
  se_clist :: addr
  se_owner_node :: ptr
  se_server_node :: ptr
  se_client_node :: ptr

record quota =
  max_pages :: int
  used_pages :: int

record ('h, 'k) kmem = "'h rmem" +
  k_entries :: "ptr \<Rightarrow> hashentry"
  l4tid_to_thread :: "hashtable option"
  thread_list :: ptr
  k_thread :: "ptr \<Rightarrow> thread"
  k_pd :: "ptr \<Rightarrow> pd"
  k_clist :: "ptr \<Rightarrow> clist_info"
  k_caps :: "ptr \<Rightarrow> nat \<Rightarrow> cap"
  k_session :: "ptr \<Rightarrow> session"
  k_quota :: "ptr \<Rightarrow> quota"
  utcb_size :: u64
  utcb_size_log2 :: nat
  kip_area :: fpage
  k_rand :: twister
  k_mm :: mm
  k_l4 :: 'k

record ('h, 'k) env =
  env_alloc :: "'h alloc_fn"
  env_free :: "'h free_fn"
  L4_ThreadControl :: "thread_id \<Rightarrow> thread_id \<Rightarrow> thread_id \<Rightarrow> thread_id \<Rightarrow> u64 \<Rightarrow> 'k \<Rightarrow> u64 \<times> 'k"
  L4_SpaceControl :: "thread_id \<Rightarrow> u64 \<Rightarrow> fpage \<Rightarrow> fpage \<Rightarrow> thread_id \<Rightarrow> 'k \<Rightarrow> u64 \<times> 'k"
  L4_Set_Priority :: "thread_id \<Rightarrow> int \<Rightarrow> 'k \<Rightarrow> 'k"
  L4_ErrorCode :: "'k \<Rightarrow> u64"
  L4_Send :: "thread_id \<Rightarrow> u64 list \<Rightarrow> 'k \<Rightarrow> bool \<times> 'k"
  L4_Myself :: thread_id

definition L4_anythread :: thread_id where "L4_anythread = -1"
definition L4_ErrNoMem :: u64 where "L4_ErrNoMem = 8"

text \<open>Sizes and the offsets of the embedded lists.\<close>

definition sizeof_thread :: u64 where "sizeof_thread = 64"
definition sizeof_pd :: u64 where "sizeof_pd = 152"
definition sizeof_clist_info :: u64 where "sizeof_clist_info = 24"
definition sizeof_quota :: u64 where "sizeof_quota = 8"
definition sizeof_cap :: u64 where "sizeof_cap = 24"
definition sizeof_bfl :: u64 where "sizeof_bfl = 16"

abbreviation client_sessions :: "ptr \<Rightarrow> ptr" where "client_sessions t \<equiv> t + 32"
abbreviation server_sessions :: "ptr \<Rightarrow> ptr" where "server_sessions t \<equiv> t + 48"
abbreviation pd_pds :: "ptr \<Rightarrow> ptr" where "pd_pds p \<equiv> p + 16"
abbreviation pd_memsections_head :: "ptr \<Rightarrow> ptr" where "pd_memsections_head p \<equiv> p + 32"
abbreviation pd_sessions :: "ptr \<Rightarrow> ptr" where "pd_sessions p \<equiv> p + 48"
abbreviation pd_eass :: "ptr \<Rightarrow> ptr" where "pd_eass p \<equiv> p + 64"
abbreviation pd_threads :: "ptr \<Rightarrow> ptr" where "pd_threads p \<equiv> p + 112"
abbreviation pd_clists :: "ptr \<Rightarrow> ptr" where "pd_clists p \<equiv> p + 128"

type_synonym ('h, 'k, 'a) kop = "('h, 'k) kmem \<Rightarrow> ('a \<times> ('h, 'k) kmem) outcome"

definition upd_thread :: "ptr \<Rightarrow> (thread \<Rightarrow> thread) \<Rightarrow> ('h, 'k) kmem \<Rightarrow> ('h, 'k) kmem" where
  "upd_thread p f s = s\<lparr>k_thread := (k_thread s)(p := f (k_thread s p))\<rparr>"

definition upd_pd :: "ptr \<Rightarrow> (pd \<Rightarrow> pd) \<Rightarrow> ('h, 'k) kmem \<Rightarrow> ('h, 'k) kmem" where
  "upd_pd p f s = s\<lparr>k_pd := (k_pd s)(p := f (k_pd s p))\<rparr>"

text \<open>Running an operation of the range free list, the hash table, the memory manager or L4 on its
  part of the state.\<close>

definition on_ranges :: "('h rmem \<Rightarrow> ('a \<times> 'h rmem) outcome) \<Rightarrow> ('h, 'k, 'a) kop" where
  "on_ranges f s =
     bindo (f (rmem.truncate s)) (\<lambda>(x, m). Ret (x, s\<lparr>lheap := lheap m, nodes := nodes m, ranges := ranges m\<rparr>))"

definition hash_mem :: "('h, 'k) kmem \<Rightarrow> 'h hmem" where
  "hash_mem s = \<lparr>hheap = lheap s, entries = k_entries s\<rparr>"

definition set_hash_mem :: "hashtable \<Rightarrow> 'h hmem \<Rightarrow> ('h, 'k) kmem \<Rightarrow> ('h, 'k) kmem" where
  "set_hash_mem t m s = s\<lparr>lheap := hheap m, k_entries := entries m, l4tid_to_thread := Some t\<rparr>"

definition with_table :: "('h, 'k) kmem \<Rightarrow> (hashtable \<Rightarrow> 'a outcome) \<Rightarrow> 'a outcome" where
  "with_table s f = (case l4tid_to_thread s of None \<Rightarrow> Fault | Some t \<Rightarrow> f t)"

definition on_mm :: "(mm \<Rightarrow> ('a \<times> mm) outcome) \<Rightarrow> ('h, 'k, 'a) kop" where
  "on_mm f s = bindo (f (k_mm s)) (\<lambda>(x, m). Ret (x, s\<lparr>k_mm := m\<rparr>))"

definition on_l4 :: "('k \<Rightarrow> 'a \<times> 'k) \<Rightarrow> ('h, 'k, 'a) kop" where
  "on_l4 f s = (case f (k_l4 s) of (x, k) \<Rightarrow> Ret (x, s\<lparr>k_l4 := k\<rparr>))"

section \<open>Lists of structures\<close>

definition sys_thread_list_create_back :: "('h, 'k) env \<Rightarrow> ptr \<Rightarrow> ('h, 'k, ptr) kop" where
  "sys_thread_list_create_back E list s = dl_list_create_back (env_alloc E) list sizeof_thread s"

definition sys_pd_list_create_back :: "('h, 'k) env \<Rightarrow> ptr \<Rightarrow> ('h, 'k, ptr) kop" where
  "sys_pd_list_create_back E list s = dl_list_create_back (env_alloc E) list sizeof_pd s"

definition sys_clist_list_create_back :: "('h, 'k) env \<Rightarrow> ptr \<Rightarrow> ('h, 'k, ptr) kop" where
  "sys_clist_list_create_back E list s = dl_list_create_back (env_alloc E) list sizeof_clist_info s"

text \<open>\<open>sys$thread_list_delete\<close>, \<open>sys$clist_list_delete\<close> and \<open>sys$session_p_list_delete\<close>.\<close>

definition list_delete :: "('h, 'k) env \<Rightarrow> ptr \<Rightarrow> ('h, 'k) kmem \<Rightarrow> ('h, 'k) kmem outcome" where
  "list_delete E data s = bindo (ll_delete (env_free E) (data - 16) s) (\<lambda>(_, s). Ret s)"

text \<open>The loops \<open>for (x = first; x->next != first; x = x->next)\<close> that stop at the first node that
  is a \<open>hit\<close>; 0 when they reach the end.\<close>

partial_function (option) ring_find :: "(ptr \<Rightarrow> ll) \<Rightarrow> (ptr \<Rightarrow> bool) \<Rightarrow> ptr \<Rightarrow> ptr \<Rightarrow> ptr option" where
  "ring_find nd hit first x =
     (if ll_next (nd x) = first then Some 0
      else if hit x then Some x
      else ring_find nd hit first (ll_next (nd x)))"

section \<open>Quotas\<close>

definition QUOTA_INF :: int where "QUOTA_INF = 0x7FFFFFFF"

definition sys_new_quota :: "('h, 'k) env \<Rightarrow> ('h, 'k, ptr) kop" where
  "sys_new_quota E s =
     bindo (lalloc (env_alloc E) sizeof_quota s) (\<lambda>(q, s).
       if q = 0 then Ret (0, s)
       else Ret (q, s\<lparr>k_quota := (k_quota s)(q := \<lparr>max_pages = 0, used_pages = 0\<rparr>)\<rparr>))"

definition sys_set_quota :: "ptr \<Rightarrow> int \<Rightarrow> ('h, 'k) kmem \<Rightarrow> ('h, 'k) kmem outcome" where
  "sys_set_quota q mx s =
     panic_if (q = 0) (Ret (s\<lparr>k_quota := (k_quota s)(q := (k_quota s q)\<lparr>max_pages := mx\<rparr>)\<rparr>))"

section \<open>Thread identifiers\<close>

definition sys_thread_free :: "('h, 'k) env \<Rightarrow> thread_id \<Rightarrow> ('h, 'k) kmem \<Rightarrow> ('h, 'k) kmem outcome" where
  "sys_thread_free E tid s =
     with_table s (\<lambda>t.
     bindo (hash_remove (env_free E) t tid (hash_mem s)) (\<lambda>(t, m).
     bindo (on_ranges (sys_rfl_free (env_alloc E) (env_free E) (thread_list s) (L4_ThreadNo tid)) (set_hash_mem t m s))
       (\<lambda>(_, s). Ret s)))"

text \<open>The number is an \<open>int\<close>: the result of \<open>sys$rfl_alloc\<close> is cut to 32 bits and then extended with
  its sign.\<close>

definition sys_thread_alloc :: "('h, 'k) env \<Rightarrow> ptr \<Rightarrow> ('h, 'k, int) kop" where
  "sys_thread_alloc E th s =
     bindo (on_ranges (sys_rfl_alloc (env_free E) (thread_list s)) s) (\<lambda>(no, s).
       let thread_no = (ucast no :: u32)
       in if thread_no = -1 then Ret (1, s)
          else let tid = L4_GlobalId (scast thread_no) 1; s = upd_thread th (\<lambda>x. x\<lparr>t_id := tid\<rparr>) s
               in with_table s (\<lambda>t.
                  bindo (hash_lookup t tid (hash_mem s)) (\<lambda>old.
                    panic_if (old \<noteq> 0)
                    (bindo (hash_insert (env_alloc E) t tid th (hash_mem s)) (\<lambda>(_, t, m).
                       Ret (0, set_hash_mem t m s))))))"

definition sys_thread_lookup :: "thread_id \<Rightarrow> ('h, 'k) kmem \<Rightarrow> ptr outcome" where
  "sys_thread_lookup tid s = with_table s (\<lambda>t. hash_lookup t tid (hash_mem s))"

section \<open>Starting threads\<close>

text \<open>\<open>pd_l4_space(pd)\<close>: the identifier of the first thread.\<close>

definition pd_l4_space :: "ptr \<Rightarrow> ('h, 'k) kmem \<Rightarrow> thread_id" where
  "pd_l4_space p s = t_id (k_thread s (next_of s (pd_threads p) + offset_data))"

text \<open>The part of \<open>sys$thread_setup\<close> that creates the thread, inactive, in the address space.\<close>

definition create_inactive :: "('h, 'k) env \<Rightarrow> ptr \<Rightarrow> ('h, 'k) kmem \<Rightarrow> ('h, 'k) kmem outcome" where
  "create_inactive E self s =
     (let th = k_thread s self; p = t_owner th
      in if pd_st (k_pd s p) = pd_empty then
           bindo (on_l4 (L4_ThreadControl E (t_id th) (t_id th) (L4_Myself E) L4_nilthread (t_utcb th)) s) (\<lambda>(r, s).
           panic_if (r = 0)
           (bindo (on_l4 (L4_SpaceControl E (t_id th) 0 (kip_area s) (pd_utcb_area (k_pd s p)) L4_anythread) s) (\<lambda>(r, s).
              panic_if (r = 0) (Ret s))))
         else
           bindo (on_l4 (L4_ThreadControl E (t_id th) (pd_l4_space p s) (L4_Myself E) L4_nilthread (-1)) s) (\<lambda>(r, s).
             panic_if (r = 0) (Ret s)))"

text \<open>The activation and the end of \<open>sys$thread_setup\<close>.\<close>

definition activate :: "('h, 'k) env \<Rightarrow> ptr \<Rightarrow> ('h, 'k, int) kop" where
  "activate E self s =
     (let th = k_thread s self; p = t_owner th;
          active = (\<lambda>x. x\<lparr>pd_st := pd_active\<rparr>)
      in if pd_st (k_pd s p) \<noteq> pd_suspended then
           bindo (on_l4 (L4_ThreadControl E (t_id th) (pd_l4_space p s) (pd_l4_space p s) (L4_Myself E) (t_utcb th)) s) (\<lambda>(r, s).
             if r \<noteq> 1 then
               if L4_ErrorCode E (k_l4 s) = L4_ErrNoMem
               then bindo (sys_thread_free E (t_id th) s) (\<lambda>s. Ret (1, s))
               else Panic
             else Ret (0, upd_pd p active s))
         else Ret (1, upd_pd p active s))"

definition sys_thread_setup :: "('h, 'k) env \<Rightarrow> ptr \<Rightarrow> int \<Rightarrow> ('h, 'k, int) kop" where
  "sys_thread_setup E self priority s =
     panic_if (self = 0)
     (let p = t_owner (k_thread s self);
          s = dl_list_init (server_sessions self) (dl_list_init (client_sessions self) s);
          prio = (if priority = -1 then 100 else priority)
      in bindo (if pd_st (k_pd s p) \<noteq> pd_suspended
                then sys_thread_alloc E self (upd_thread self (\<lambda>x. x\<lparr>t_eas := 0\<rparr>) s)
                else Ret (0, s)) (\<lambda>(r, s).
           if r \<noteq> 0 then Ret (1, s)
           else bindo (create_inactive E self s) (\<lambda>s.
             activate E self (s\<lparr>k_l4 := L4_Set_Priority E (t_id (k_thread s self)) prio (k_l4 s)\<rparr>))))"

text \<open>Taking a slot of the UTCB area; a missing bit map is a null pointer.\<close>

definition local_alloc :: "ptr \<Rightarrow> ('h, 'k, u64) kop" where
  "local_alloc p s =
     (case pd_local_threadno (k_pd s p) of
        None \<Rightarrow> Fault
      | Some b \<Rightarrow> bindo (sys_bfl_alloc b) (\<lambda>(v, b). Ret (v, upd_pd p (\<lambda>x. x\<lparr>pd_local_threadno := Some b\<rparr>) s)))"

definition local_free :: "ptr \<Rightarrow> u64 \<Rightarrow> ('h, 'k) kmem \<Rightarrow> ('h, 'k) kmem outcome" where
  "local_free p v s =
     (case pd_local_threadno (k_pd s p) of
        None \<Rightarrow> Fault
      | Some b \<Rightarrow> bindo (sys_bfl_free b v) (\<lambda>b. Ret (upd_pd p (\<lambda>x. x\<lparr>pd_local_threadno := Some b\<rparr>) s)))"

text \<open>The end of \<open>sys$pd_create_thread\<close>, from the call of \<open>sys$thread_setup\<close> on.\<close>

definition finish_thread :: "('h, 'k) env \<Rightarrow> ptr \<Rightarrow> ptr \<Rightarrow> u32 \<Rightarrow> int \<Rightarrow> ('h, 'k, ptr) kop" where
  "finish_thread E self th local_tid priority s =
     bindo (sys_thread_setup E th priority s) (\<lambda>(r, s).
       if r \<noteq> 0 then
         if pd_st (k_pd s self) \<noteq> pd_suspended then
           bindo (local_free self (scast local_tid) s) (\<lambda>s.
           bindo (list_delete E th s) (\<lambda>s. Ret (0, s)))
         else Ret (0, s)
       else Ret (th, upd_pd self (\<lambda>x. x\<lparr>pd_st := pd_active\<rparr>) s))"

definition sys_pd_create_thread :: "('h, 'k) env \<Rightarrow> ptr \<Rightarrow> int \<Rightarrow> ('h, 'k, ptr) kop" where
  "sys_pd_create_thread E self priority s =
     panic_if (self = 0)
     (if pd_st (k_pd s self) = pd_suspended
      then finish_thread E self (next_of s (pd_threads self) + offset_data) 0 priority s
      else bindo (sys_thread_list_create_back E (pd_threads self) s) (\<lambda>(th, s).
        if th = 0 then Ret (0, s)
        else bindo (local_alloc self s) (\<lambda>(v, s).
          let local_tid = (ucast v :: u32)
          in if local_tid = -1 then bindo (list_delete E th s) (\<lambda>s. Ret (0, s))
             else finish_thread E self th local_tid priority
               (upd_thread th (\<lambda>x. x\<lparr>t_owner := self,
                  t_utcb := pd_utcb_base (k_pd s self) + utcb_size s * scast local_tid\<rparr>) s))))"

definition sys_thread_start :: "('h, 'k) env \<Rightarrow> ptr \<Rightarrow> u64 \<Rightarrow> u64 \<Rightarrow> ('h, 'k, u64) kop" where
  "sys_thread_start E self ip sp s =
     bindo (on_l4 (L4_Send E (t_id (k_thread s self)) [ip, sp]) s) (\<lambda>(failed, s).
       Ret (if failed then L4_ErrorCode E (k_l4 s) else 0, s))"

section \<open>Sessions and the end of a thread\<close>

definition sys_pd_release_clist :: "('h, 'k) env \<Rightarrow> ptr \<Rightarrow> ptr \<Rightarrow> ('h, 'k) kmem \<Rightarrow> ('h, 'k) kmem outcome" where
  "sys_pd_release_clist E self clist s =
     (let first = next_of s (pd_clists self)
      in case ring_find (nodes s) (\<lambda>x. clist = cl_clist (k_clist s (x + offset_data))) first first of
           None \<Rightarrow> Timeout
         | Some x \<Rightarrow> if x = 0 then Ret s else list_delete E (x + offset_data) s)"

definition sys_session_delete :: "('h, 'k) env \<Rightarrow> ptr \<Rightarrow> ('h, 'k) kmem \<Rightarrow> ('h, 'k) kmem outcome" where
  "sys_session_delete E se s =
     panic_if (se = 0)
     (let x = k_session s se
      in panic_if (se_server x = 0)
         (panic_if (t_owner (k_thread s (se_server x)) = 0)
          (bindo (get_ms (se_clist x) (k_mm s)) (\<lambda>m.
           bindo (sys_pd_release_clist E (t_owner (k_thread s (se_server x))) (unat (ms_base m)) s) (\<lambda>s.
           bindo (list_delete E (se_owner_node x) s) (\<lambda>s.
           bindo (list_delete E (se_server_node x) s) (\<lambda>s.
           bindo (list_delete E (se_client_node x) s) (\<lambda>s.
             lfree (env_free E) se s))))))))"

text \<open>The loops that delete the sessions of a list from its front.\<close>

fun delete_sessions :: "nat \<Rightarrow> ('h, 'k) env \<Rightarrow> ptr \<Rightarrow> ('h, 'k) kmem \<Rightarrow> ('h, 'k) kmem outcome" where
  "delete_sessions 0 E list s = Timeout"
| "delete_sessions (Suc n) E list s =
     (let sd = next_of s list
      in if next_of s sd \<noteq> next_of s list
         then bindo (sys_session_delete E (data_of s sd) s) (\<lambda>s. delete_sessions n E list s)
         else Ret s)"

definition sys_thread_delete :: "nat \<Rightarrow> ('h, 'k) env \<Rightarrow> ptr \<Rightarrow> ('h, 'k) kmem \<Rightarrow> ('h, 'k) kmem outcome" where
  "sys_thread_delete n E th s =
     (let x = k_thread s th; p = t_owner x
      in bindo (on_l4 (L4_ThreadControl E (t_id x) L4_nilthread L4_nilthread L4_nilthread 0) s) (\<lambda>(_, s).
         bindo (sys_thread_free E (t_id x) s) (\<lambda>s.
         bindo (if t_eas x = 0
                then bindo (local_free p (drop_bit (utcb_size_log2 s) (t_utcb x - pd_utcb_base (k_pd s p))) s) (\<lambda>s.
                     bindo (delete_sessions n E (client_sessions th) s) (\<lambda>s.
                       delete_sessions n E (server_sessions th) s))
                else Ret s) (\<lambda>s.
           list_delete E th s))))"

section \<open>Protection domains\<close>

text \<open>\<open>sys$bfl_new\<close> with its allocation.\<close>

definition new_bfl :: "('h, 'k) env \<Rightarrow> u64 \<Rightarrow> ('h, 'k, bfl option) kop" where
  "new_bfl E sz s =
     bindo (lalloc (env_alloc E) (sizeof_bfl + (sz div 64 + 1) * 8) s) (\<lambda>(q, s).
     bindo (sys_bfl_new (of_nat q) sz) (\<lambda>b. Ret (b, s)))"

definition sys_utcb_init :: "u64 \<Rightarrow> nat \<Rightarrow> u64 \<Rightarrow> nat \<Rightarrow> ('h, 'k) kmem \<Rightarrow> ('h, 'k) kmem" where
  "sys_utcb_init sz log2 kip area_log2 s =
     s\<lparr>utcb_size := sz, utcb_size_log2 := log2, kip_area := L4_FpageLog2 kip area_log2\<rparr>"

definition sys_pd_setup :: "('h, 'k) env \<Rightarrow> ptr \<Rightarrow> ptr \<Rightarrow> u64 \<Rightarrow> ('h, 'k) kmem \<Rightarrow> ('h, 'k) kmem outcome" where
  "sys_pd_setup E self parent max_threads s =
     bindo (new_bfl E max_threads (upd_pd self (\<lambda>x. x\<lparr>pd_owner := parent, pd_st := pd_empty\<rparr>) s)) (\<lambda>(b, s).
       let s = upd_pd self (\<lambda>x. x\<lparr>pd_local_threadno := b\<rparr>) s;
           s = dl_list_init (pd_threads self) s; s = dl_list_init (pd_pds self) s;
           s = dl_list_init (pd_sessions self) s; s = dl_list_init (pd_memsections_head self) s;
           s = dl_list_init (pd_eass self) s; s = dl_list_init (pd_clists self) s
       in bindo (sys_new_quota E s) (\<lambda>(q, s).
            sys_set_quota q QUOTA_INF (upd_pd self (\<lambda>x. x\<lparr>pd_quota := q\<rparr>) s)))"

text \<open>The loop of \<open>sys$pd_init\<close> over the ring of the sections made at start-up: each node is put at
  the end of the list of the kernel's domain, and then the head of the ring itself, because the loop
  ends only when it is back at the first node.\<close>

definition move_node :: "ptr \<Rightarrow> ptr \<Rightarrow> ('h, 'k) kmem \<Rightarrow> ('h, 'k) kmem" where
  "move_node list node s =
     (let s = set_next node list s;
          s = set_next (prev_of s list) node s;
          s = set_prev node (prev_of s list) s
      in set_prev list node s)"

fun move_loop :: "nat \<Rightarrow> nat \<Rightarrow> ptr \<Rightarrow> ptr \<Rightarrow> ptr \<Rightarrow> ('h, 'k) kmem \<Rightarrow> ('h, 'k) kmem outcome" where
  "move_loop n 0 list first node s = Timeout"
| "move_loop n (Suc k) list first node s =
     (let nx = next_of s node
      in bindo (on_mm (objtable_insert n (of_nat (node + offset_data))) s) (\<lambda>(_, s).
           let s = move_node list node s
           in if nx \<noteq> first then move_loop n k list first nx s else Ret s))"

definition NUMBER_OF_KERNEL_THREADS :: u64 where "NUMBER_OF_KERNEL_THREADS = 256"

definition sys_pd_init :: "nat \<Rightarrow> nat \<Rightarrow> ('h, 'k) env \<Rightarrow> ptr \<Rightarrow> ptr \<Rightarrow> ('h, 'k) kmem \<Rightarrow> ('h, 'k) kmem outcome" where
  "sys_pd_init n k E internal_head freevms_pd s =
     bindo (sys_pd_setup E freevms_pd freevms_pd NUMBER_OF_KERNEL_THREADS s) (\<lambda>s.
       let s = upd_pd freevms_pd (\<lambda>x. x\<lparr>pd_st := pd_active\<rparr>) s; first = next_of s internal_head
       in bindo (move_loop n k (pd_memsections_head freevms_pd) first first s) (\<lambda>s.
            Ret (s\<lparr>k_mm := (k_mm s)\<lparr>vms_pd_initialized := True\<rparr>\<rparr>)))"

definition JOBCTL_THREAD_PD_HASHSIZE :: u32 where "JOBCTL_THREAD_PD_HASHSIZE = 4096"

text \<open>\<open>sys$thread_init\<close>; \<open>id_bits\<close> is \<open>L4_ThreadIdBits(kip)\<close>. A null free list is read through.\<close>

definition sys_thread_init :: "('h, 'k) env \<Rightarrow> nat \<Rightarrow> ('h, 'k) kmem \<Rightarrow> ('h, 'k) kmem outcome" where
  "sys_thread_init E id_bits s =
     (let min_threadno = L4_ThreadNo (L4_Myself E) + 2; max_threadno = push_bit id_bits 1
      in bindo (on_ranges (sys_rfl_new (env_alloc E)) s) (\<lambda>(l, s).
         fault_if (l = 0)
         (bindo (on_ranges (sys_rfl_insert_range (env_alloc E) (env_free E) l min_threadno max_threadno)
                   (s\<lparr>thread_list := l\<rparr>)) (\<lambda>(r, s).
            panic_if (r \<noteq> 0)
            (bindo (hash_init (env_alloc E) (env_free E) JOBCTL_THREAD_PD_HASHSIZE (hash_mem s)) (\<lambda>((_, t), m).
               Ret (s\<lparr>lheap := hheap m, k_entries := entries m, l4tid_to_thread := t\<rparr>)))))))"

partial_function (option) area_fpage_size :: "u64 \<Rightarrow> u64 \<Rightarrow> u64 option" where
  "area_fpage_size area_size fpage_size =
     (if fpage_size < area_size then area_fpage_size area_size (push_bit 1 fpage_size) else Some fpage_size)"

text \<open>\<open>sys$setup_utcb_area\<close>: the section, 0 for NULL, with the base and the area of the domain set.\<close>

definition sys_setup_utcb_area :: "nat \<Rightarrow> ptr \<Rightarrow> u64 \<Rightarrow> u64 \<Rightarrow> ('h, 'k, addr) kop" where
  "sys_setup_utcb_area n self threads pagesize s =
     (let area_size = sys_page_round_up (utcb_size s * threads) (min_pagesize (k_mm s))
      in case area_fpage_size area_size 1 of
           None \<Rightarrow> Timeout
         | Some fpage_size \<Rightarrow>
             bindo (on_mm (sys_pd_create_memsection n (of_nat self) fpage_size 0 VMS_MEM_UTCB pagesize) s) (\<lambda>(ms, s).
               if ms = 0 then Ret (0, s)
               else bindo (get_ms ms (k_mm s)) (\<lambda>m.
                 if ms_base m mod fpage_size \<noteq> 0 then Ret (0, s)
                 else Ret (ms, upd_pd self (\<lambda>x. x\<lparr>pd_utcb_base := ms_base m,
                        pd_utcb_area := L4_Fpage (ms_base m) area_size\<rparr>) s))))"

definition JOBCTL_MAX_THREADS_PER_APD :: int where "JOBCTL_MAX_THREADS_PER_APD = 256"

definition sys_pd_create :: "nat \<Rightarrow> ('h, 'k) env \<Rightarrow> ptr \<Rightarrow> int \<Rightarrow> u64 \<Rightarrow> ('h, 'k, ptr) kop" where
  "sys_pd_create n E self max_threads pagesize s =
     (if max_threads > JOBCTL_MAX_THREADS_PER_APD then Ret (0, s)
      else if self = 0 then Ret (0, s)
      else let mx = (if max_threads = 0 then JOBCTL_MAX_THREADS_PER_APD else max_threads)
           in bindo (sys_pd_list_create_back E (pd_pds self) s) (\<lambda>(new_pd, s).
              if new_pd = 0 then Ret (0, s)
              else bindo (sys_pd_setup E new_pd self (of_int mx) s) (\<lambda>s.
                   bindo (sys_setup_utcb_area n new_pd (of_int mx) pagesize s) (\<lambda>(ms, s).
                     let s = upd_pd new_pd (\<lambda>x. x\<lparr>pd_utcb_memsection := ms\<rparr>) s
                     in if ms = 0 then Ret (0, s) else Ret (new_pd, s)))))"

section \<open>Capabilities\<close>

definition sys_pd_add_clist :: "('h, 'k) env \<Rightarrow> ptr \<Rightarrow> ptr \<Rightarrow> ('h, 'k, ptr) kop" where
  "sys_pd_add_clist E self clist s =
     bindo (sys_objtable_lookup (of_nat clist) (k_mm s)) (\<lambda>ms.
     bindo (sys_clist_list_create_back E (pd_clists self) s) (\<lambda>(ci, s).
       if ci = 0 then Ret (0, s)
       else bindo (get_ms ms (k_mm s)) (\<lambda>m.
         Ret (ci, s\<lparr>k_clist := (k_clist s)(ci := \<lparr>cl_clist = clist, cl_type = 0,
                cl_length = ((ms_end m - ms_base m) + 1) div sizeof_cap\<rparr>)\<rparr>))))"

definition sec_create_capability :: "u8 list \<Rightarrow> u64 \<Rightarrow> cap_type \<Rightarrow> ('h, 'k, cap) kop" where
  "sec_create_capability junk reference ty s =
     bindo (rand_extract_number junk 8 (k_rand s)) (\<lambda>(pw, g).
       Ret (\<lparr>cap_ref = reference, cap_kind = ty, cap_passwd = pw\<rparr>, s\<lparr>k_rand := g\<rparr>))"

definition IS_VALID_CAP :: "cap \<Rightarrow> bool" where
  "IS_VALID_CAP c \<longleftrightarrow> cap_ref c \<noteq> -1"

text \<open>The inner loop of \<open>sec$validate_access\<close>: \<open>n\<close> entries from index \<open>i\<close> on.\<close>

fun clist_find :: "(nat \<Rightarrow> cap) \<Rightarrow> u64 \<Rightarrow> u64 \<Rightarrow> nat \<Rightarrow> nat \<Rightarrow> cap option" where
  "clist_find cs ref master i 0 = None"
| "clist_find cs ref master i (Suc n) =
     (if \<not> IS_VALID_CAP (cs i) then None
      else if cap_ref (cs i) = ref \<or> cap_ref (cs i) = master then Some (cs i)
      else clist_find cs ref master (i + 1) n)"

definition master_ref :: "u64 \<Rightarrow> u64" where
  "master_ref ref = push_bit 3 (drop_bit 3 ref)"

definition clist_hit :: "('h, 'k) kmem \<Rightarrow> u64 \<Rightarrow> ptr \<Rightarrow> cap option" where
  "clist_hit s ref x =
     (let ci = k_clist s (x + offset_data)
      in clist_find (k_caps s (cl_clist ci)) ref (master_ref ref) 0 (unat (cl_length ci)))"

text \<open>\<open>sec$validate_access\<close>: \<open>None\<close> is the invalid capability. The walk stops at the first list that
  has the reference, or that is null.\<close>

definition sec_validate_access :: "u64 \<Rightarrow> ptr \<Rightarrow> ('h, 'k) kmem \<Rightarrow> cap option outcome" where
  "sec_validate_access ref p s =
     (let first = next_of s (pd_clists p);
          stop = (\<lambda>x. cl_clist (k_clist s (x + offset_data)) = 0 \<or> clist_hit s ref x \<noteq> None)
      in case ring_find (nodes s) stop first first of
           None \<Rightarrow> Timeout
         | Some x \<Rightarrow>
             Ret (if x = 0 \<or> cl_clist (k_clist s (x + offset_data)) = 0 then None else clist_hit s ref x))"

definition sec_check :: "thread_id \<Rightarrow> u64 \<Rightarrow> ('h, 'k) kmem \<Rightarrow> int outcome" where
  "sec_check tid ref s =
     bindo (sys_thread_lookup tid s) (\<lambda>th.
       if th = 0 then Ret (-1)
       else bindo (sys_objtable_lookup ref (k_mm s)) (\<lambda>ms.
         if ms = 0 then Ret (-2)
         else bindo (sec_validate_access ref (t_owner (k_thread s th)) s) (\<lambda>c.
           Ret (case c of None \<Rightarrow> -1 | Some c \<Rightarrow> if IS_VALID_CAP c then 0 else -1))))"

end
