(* ===== verification/Services.thy ===== *)
theory Services
  imports Threads
begin

unbundle bit_operations_syntax

text \<open>
  The services on top of threads and memory sections: the loader of executables (\<open>sys/sys_elf.c\<close>),
  the mapping of pages by sigma0 (\<open>sys/sys_sigma0.c\<close>), the start of \<open>PAGER.SYS\<close> (\<open>sys/sys_pager.c\<close>),
  the handler of page faults (\<open>sys/sys_pagefault.c\<close>) and the server loop (\<open>sys/sys_loop.c\<close>).

  \<open>mem\<close> is the memory of bytes that programs and the kernel share; the kernel's own structures are in
  \<open>kmem\<close>. IPC belongs to the L4 kernel: the answer of sigma0 and the stopping of a thread are
  parameters, the messages that arrive are the input of the loop, and the messages it sends are its
  output.
\<close>

section \<open>Words in memory\<close>

type_synonym bytes = "u64 \<Rightarrow> u8"

definition load_le :: "nat \<Rightarrow> u64 \<Rightarrow> bytes \<Rightarrow> u64" where
  "load_le n a m = le_word (map (\<lambda>i. m (a + of_nat i)) [0..<n])"

definition store64 :: "u64 \<Rightarrow> u64 \<Rightarrow> bytes \<Rightarrow> bytes" where
  "store64 a v m = (\<lambda>x. if x - a < 8 then ucast (drop_bit (8 * unat (x - a)) v) else m x)"

section \<open>Loading executables\<close>

text \<open>The fields of \<open>ehdr_t\<close> and \<open>phdr_t\<close> that the loader reads, at the offsets the compiler gives
  them.\<close>

definition eh_type :: "u64 \<Rightarrow> bytes \<Rightarrow> u64" where "eh_type a m = load_le 2 (a + 16) m"
definition eh_entry :: "u64 \<Rightarrow> bytes \<Rightarrow> u64" where "eh_entry a m = load_le 8 (a + 24) m"
definition eh_phoff :: "u64 \<Rightarrow> bytes \<Rightarrow> u64" where "eh_phoff a m = load_le 8 (a + 32) m"
definition eh_phentsize :: "u64 \<Rightarrow> bytes \<Rightarrow> u64" where "eh_phentsize a m = load_le 2 (a + 54) m"
definition eh_phnum :: "u64 \<Rightarrow> bytes \<Rightarrow> u64" where "eh_phnum a m = load_le 2 (a + 56) m"

record phdr =
  ph_type :: u64
  ph_offset :: u64
  ph_paddr :: u64
  ph_fsize :: u64
  ph_msize :: u64

definition phdr_at :: "u64 \<Rightarrow> bytes \<Rightarrow> phdr" where
  "phdr_at a m = \<lparr>ph_type = load_le 4 a m, ph_offset = load_le 8 (a + 8) m, ph_paddr = load_le 8 (a + 24) m,
     ph_fsize = load_le 8 (a + 32) m, ph_msize = load_le 8 (a + 40) m\<rparr>"

definition PT_LOAD :: u64 where "PT_LOAD = 1"

definition put_cap :: "u64 \<Rightarrow> u64 \<Rightarrow> cap \<Rightarrow> ('h, 'k) kmem \<Rightarrow> ('h, 'k) kmem" where
  "put_cap clist i c s = s\<lparr>k_caps := (k_caps s)(unat clist := (k_caps s (unat clist))(unat i := c))\<rparr>"

text \<open>\<open>clist[(*pos)++] = sec$create_capability(reference, type)\<close>\<close>

definition add_cap :: "u8 list \<Rightarrow> u64 \<Rightarrow> u64 \<Rightarrow> u64 \<Rightarrow> cap_type \<Rightarrow> ('h, 'k, u64) kop" where
  "add_cap junk clist pos reference ty s =
     bindo (sec_create_capability junk reference ty s) (\<lambda>(c, s). Ret (pos + 1, put_cap clist pos c s))"

definition load_segment ::
    "nat \<Rightarrow> u8 list \<Rightarrow> ptr \<Rightarrow> u64 \<Rightarrow> phdr \<Rightarrow> u64 \<Rightarrow> u64 \<Rightarrow> bytes \<Rightarrow> ('h, 'k) kmem \<Rightarrow> (u64 \<times> bytes \<times> ('h, 'k) kmem) outcome" where
  "load_segment n junk thread start ph clist pos mem s =
     (let src_start = start + ph_offset ph;
          dst_start = ph_paddr ph;
          dst_end = dst_start + ph_msize ph;
          ps = min_pagesize (k_mm s);
          base = sys_page_round_down dst_start ps;
          sz = sys_page_round_up dst_end ps - base
      in bindo (on_mm (sys_pd_create_memsection n (of_nat (t_owner (k_thread s thread))) sz base VMS_MEM_FIXED ps) s) (\<lambda>(ms, s).
         bindo (add_cap junk clist pos ms CAP_MEMSECTION s) (\<lambda>(pos, s).
           let mem = sys_memcopy dst_start src_start (ph_fsize ph) mem;
               mem = sys_initmem (dst_start + ph_fsize ph + 1) (ph_msize ph - ph_fsize ph) mem
           in Ret (pos, mem, s))))"

text \<open>The loop over the program headers. The headers are read from memory in every round, and a memory
  size below the file size is corrected in memory. \<open>k\<close> is its fuel.\<close>

fun elf_loop ::
    "nat \<Rightarrow> nat \<Rightarrow> u8 list \<Rightarrow> ptr \<Rightarrow> u64 \<Rightarrow> u64 \<Rightarrow> u64 \<Rightarrow> u64 \<Rightarrow> bytes \<Rightarrow> ('h, 'k) kmem \<Rightarrow> (u64 \<times> bytes \<times> ('h, 'k) kmem) outcome" where
  "elf_loop n 0 junk thread start i clist pos mem s = Timeout"
| "elf_loop n (Suc k) junk thread start i clist pos mem s =
     (if i < eh_phnum start mem then
        let pha = start + eh_phoff start mem + eh_phentsize start mem * i;
            mem = (if ph_msize (phdr_at pha mem) < ph_fsize (phdr_at pha mem)
                   then store64 (pha + 40) (ph_fsize (phdr_at pha mem)) mem else mem);
            ph = phdr_at pha mem
        in bindo (if ph_type ph = PT_LOAD then load_segment n junk thread start ph clist pos mem s else Ret (pos, mem, s))
             (\<lambda>(pos, mem, s). elf_loop n k junk thread start (i + 1) clist pos mem s)
      else Ret (pos, mem, s))"

definition sys_elf_loader ::
    "nat \<Rightarrow> nat \<Rightarrow> u8 list \<Rightarrow> ptr \<Rightarrow> u64 \<Rightarrow> u64 \<Rightarrow> u64 \<Rightarrow> bytes \<Rightarrow> ('h, 'k) kmem \<Rightarrow>
       (u64 \<times> u64 \<times> bytes \<times> ('h, 'k) kmem) outcome" where
  "sys_elf_loader n k junk thread start clist pos mem s =
     panic_if (eh_type start mem \<noteq> 2 \<or> eh_phoff start mem = 0)
     (bindo (elf_loop n k junk thread start 0 clist pos mem s) (\<lambda>(pos, mem, s).
        Ret (eh_entry start mem, pos, mem, s)))"

section \<open>Mapping by sigma0\<close>

text \<open>\<open>call\<close> is the IPC to sigma0: the physical page asked for and the window that accepts it; the
  answer is the page of the map item, or \<open>None\<close> when the IPC fails.\<close>

definition sys_sigma0_map_fpage ::
    "(fpage \<Rightarrow> fpage \<Rightarrow> 'k \<Rightarrow> fpage option \<times> 'k) \<Rightarrow> fpage \<Rightarrow> fpage \<Rightarrow> u64 \<Rightarrow> 'k \<Rightarrow> 'k outcome" where
  "sys_sigma0_map_fpage call virt_page phys_page priv k =
     (case call (L4_Set_Rights phys_page priv) virt_page k of (r, k) \<Rightarrow> panic_if (r = None) (Ret k))"

text \<open>The pages that \<open>sys$sigma0_map\<close> asks for: none for a size of at most one byte.\<close>

definition sigma0_pages :: "u64 \<Rightarrow> u64 \<Rightarrow> u64 \<Rightarrow> (fpage \<times> fpage) option outcome" where
  "sigma0_pages virt_addr phys_addr sz =
     (let vbase = virt_addr; vend = vbase + (sz - 1); pbase = phys_addr; pend = pbase + (sz - 1)
      in if vbase < vend then
           let vpage = L4_Fpage vbase ((vend - vbase) + 1);
               ppage = L4_Fpage pbase ((pend - pbase) + 1)
           in panic_if (L4_IsNilFpage vpage \<or> L4_IsNilFpage ppage)
                (Ret (Some (if L4_Size vpage > L4_Size ppage then (L4_Fpage vbase (L4_Size ppage), ppage)
                            else if L4_Size ppage > L4_Size vpage then (vpage, L4_Fpage pbase (L4_Size vpage))
                            else (vpage, ppage))))
         else Ret None)"

definition sys_sigma0_map ::
    "(fpage \<Rightarrow> fpage \<Rightarrow> 'k \<Rightarrow> fpage option \<times> 'k) \<Rightarrow> u64 \<Rightarrow> u64 \<Rightarrow> u64 \<Rightarrow> u64 \<Rightarrow> 'k \<Rightarrow> 'k outcome" where
  "sys_sigma0_map call virt_addr phys_addr sz priv k =
     bindo (sigma0_pages virt_addr phys_addr sz) (\<lambda>r.
       case r of None \<Rightarrow> Ret k | Some (vpage, ppage) \<Rightarrow> sys_sigma0_map_fpage call vpage ppage L4_FullyAccessible k)"

section \<open>Starting the pager\<close>

text \<open>\<open>strstr(obj->name, "pager.sys") != NULL\<close>, and the search of the module.\<close>

fun contains :: "u8 list \<Rightarrow> u8 list \<Rightarrow> bool" where
  "contains s w = (take (length w) s = w \<or> (case s of [] \<Rightarrow> False | _ # cs \<Rightarrow> contains cs w))"

declare contains.simps [simp del]

definition pager_name :: "u8 list" where
  "pager_name = butlast (cstr ''pager.sys'')"

fun find_module :: "initial_obj list \<Rightarrow> initial_obj option" where
  "find_module [] = None"
| "find_module (obj # objs) = (if contains (c_text (io_name obj)) pager_name then Some obj else find_module objs)"

text \<open>The capabilities for the virtual objects.\<close>

fun object_caps :: "u8 list \<Rightarrow> u64 \<Rightarrow> initial_obj list \<Rightarrow> u64 \<Rightarrow> ('h, 'k, u64) kop" where
  "object_caps junk clist [] i s = Ret (i, s)"
| "object_caps junk clist (obj # objs) i s =
     (if io_flags obj AND IOF_VIRT \<noteq> 0 then
        bindo (sys_objtable_lookup (io_base obj) (k_mm s)) (\<lambda>memsect.
          panic_if (memsect = 0)
          (bindo (add_cap junk clist i memsect CAP_OBJ s) (\<lambda>(i, s). object_caps junk clist objs i s)))
      else object_caps junk clist objs i s)"

fun add_caps :: "u8 list \<Rightarrow> u64 \<Rightarrow> (u64 \<times> cap_type) list \<Rightarrow> u64 \<Rightarrow> ('h, 'k, u64) kop" where
  "add_caps junk clist [] i s = Ret (i, s)"
| "add_caps junk clist ((r, ty) # cs) i s = bindo (add_cap junk clist i r ty s) (\<lambda>(i, s). add_caps junk clist cs i s)"

text \<open>The sections of the new domain: stack, heap, 64 kB for the heap, and the capability list. The
  stack is not checked until it is used.\<close>

definition new_section :: "nat \<Rightarrow> ptr \<Rightarrow> u64 \<Rightarrow> u64 \<Rightarrow> u64 \<Rightarrow> ('h, 'k, u64) kop" where
  "new_section n p sz flags pagesize = on_mm (sys_pd_create_memsection n (of_nat p) sz 0 flags pagesize)"

definition pager_sections :: "nat \<Rightarrow> ptr \<Rightarrow> u64 \<Rightarrow> ('h, 'k, u64 \<times> u64 \<times> u64) kop" where
  "pager_sections n p pagesize s =
     bindo (new_section n p (2 * pagesize) VMS_MEM_NORMAL pagesize s) (\<lambda>(stack, s).
     bindo (new_section n p 0x100000 (VMS_MEM_NORMAL OR VMS_MEM_USER) pagesize s) (\<lambda>(heap, s).
     panic_if (heap = 0)
     (bindo (new_section n p 0x10000 VMS_MEM_NORMAL pagesize s) (\<lambda>(heap_phys, s).
      bindo (get_ms heap_phys (k_mm s)) (\<lambda>hp.
      panic_if (ms_base hp mod 0x10000 \<noteq> 0)
      (bindo (get_ms heap (k_mm s)) (\<lambda>hm.
       bindo (on_mm (sys_memsection_page_map heap (L4_Fpage (ms_base hp) 0x10000) (L4_Fpage (ms_base hm) 0x10000)) s) (\<lambda>(_, s).
       bindo (new_section n p pagesize VMS_MEM_NORMAL pagesize s) (\<lambda>(clist_section, s).
         panic_if (clist_section = 0) (Ret ((stack, heap, clist_section), s)))))))))))"

text \<open>The words on the new heap and the two words on the new stack; \<open>exit_message\<close> is the address of
  the literal.\<close>

definition pager_arguments :: "u64 \<Rightarrow> u64 \<Rightarrow> u64 \<Rightarrow> u64 \<Rightarrow> u64 \<Rightarrow> bytes \<Rightarrow> bytes" where
  "pager_arguments heap user_stack myself exit_message swapper m =
     store64 (user_stack - 16) heap
     (store64 (user_stack - 8) 4
     (store64 (heap + 32) 0
     (store64 (heap + 24) swapper
     (store64 (heap + 16) exit_message
     (store64 (heap + 8) myself
     (store64 heap myself m))))))"

definition sys_pager ::
    "nat \<Rightarrow> nat \<Rightarrow> ('h, 'k) env \<Rightarrow> u8 list \<Rightarrow> ptr \<Rightarrow> u64 \<Rightarrow> meminfo \<Rightarrow> u64 \<Rightarrow> bytes \<Rightarrow> ('h, 'k) kmem \<Rightarrow>
       (bytes \<times> ('h, 'k) kmem) outcome" where
  "sys_pager n k E junk freevms_pd exit_message mi pagesize mem s =
     (case find_module (mi_objects mi) of
        None \<Rightarrow> Panic
      | Some init \<Rightarrow>
          bindo (sys_pd_create n E freevms_pd 1 pagesize s) (\<lambda>(p, s).
          bindo (sys_pd_create_thread E p (-1) s) (\<lambda>(th, s).
          bindo (pager_sections n p pagesize s) (\<lambda>((stack, heap, clist_section), s).
          bindo (get_ms clist_section (k_mm s)) (\<lambda>cm.
          let clist = ms_base cm
          in panic_if (clist = 0)
          (bindo (object_caps junk clist (mi_objects mi) 0 s) (\<lambda>(i, s).
           bindo (add_caps junk clist [(of_nat p, CAP_PD), (of_nat th, CAP_THREAD), (stack, CAP_MEMSECTION),
                    (heap, CAP_MEMSECTION), (heap, CAP_MEMSECTION), (clist_section, CAP_MEMSECTION)] i s) (\<lambda>(i, s).
           bindo (sys_elf_loader n k junk th (io_base init) clist i mem s) (\<lambda>(entry, i, mem, s).
           bindo (sys_pd_add_clist E p (unat clist) s) (\<lambda>(_, s).
           bindo (get_ms stack (k_mm s)) (\<lambda>sm.
           bindo (get_ms heap (k_mm s)) (\<lambda>hm.
           let user_stack = sys_page_round_down (ms_end sm + 1) 16
           in bindo (on_mm (sys_back_mem n k (of_nat freevms_pd) (ms_base hm) (ms_base hm + 24) pagesize) s) (\<lambda>(r, s).
              panic_if (r \<noteq> 0)
              (let mem = pager_arguments (ms_base hm) user_stack (L4_Myself E) exit_message (mi_swapper_base mi) mem
               in bindo (sys_thread_start E th entry (user_stack - 16) s) (\<lambda>(_, s). Ret (mem, s))))))))))))))))"

section \<open>Page faults\<close>

text \<open>The map item of the answer: its page, and the address it is sent to.\<close>

definition sys_pagefault :: "thread_id \<Rightarrow> u64 \<Rightarrow> u64 \<Rightarrow> ('h, 'k) kmem \<Rightarrow> (fpage \<times> u64) outcome" where
  "sys_pagefault caller addr tag s =
     (let priv = drop_bit 16 (tag AND 0xf0000)
      in bindo (sys_objtable_lookup addr (k_mm s)) (\<lambda>ms.
           if ms = 0 then Panic
           else bindo (sec_check caller ms s) (\<lambda>r.
             if r = 0 then
               let ps = min_pagesize (k_mm s);
                   f = L4_Set_Rights (L4_Fpage (sys_page_round_down addr ps) ps) priv
               in Ret (f, L4_Address f)
             else Panic)))"

section \<open>The server loop\<close>

text \<open>An incoming message: sender, tag, the message registers behind the tag, and what the buffer for
  strings holds after it.\<close>

record message =
  from_thread :: thread_id
  msg_tag :: u64
  msg_words :: "nat \<Rightarrow> u64"
  msg_string :: "u8 list"

datatype reply = Map_reply fpage u64 | Word_reply u64 | No_reply

definition L4_REQUEST_MASK :: u64 where "L4_REQUEST_MASK = NOT (drop_bit 44 (NOT 0))"
definition L4_PAGEFAULT :: u64 where "L4_PAGEFAULT = push_bit 20 (- 2)"
definition MAX_STRINGITEM_LENGTH :: nat where "MAX_STRINGITEM_LENGTH = 4096"
definition SYSCALL_KILL_THREAD :: u64 where "SYSCALL_KILL_THREAD = 5"
definition SYSCALL_PRINT :: u64 where "SYSCALL_PRINT = 8"
definition SYSCALL_EXIT_VALUE :: u64 where "SYSCALL_EXIT_VALUE = 16"

lemmas syscall_defs = L4_REQUEST_MASK_def L4_PAGEFAULT_def SYSCALL_KILL_THREAD_def SYSCALL_PRINT_def SYSCALL_EXIT_VALUE_def

definition L4_Label :: "u64 \<Rightarrow> u64" where "L4_Label tag = drop_bit 16 tag"

definition string_length :: "u64 \<Rightarrow> nat" where "string_length raw0 = unat (drop_bit 10 raw0)"

text \<open>One round of the loop: the answer, the text it prints, and the new state. \<open>stop\<close> is
  \<open>L4_AbortIpc_and_stop\<close>.\<close>

definition loop_step ::
    "nat \<Rightarrow> ('h, 'k) env \<Rightarrow> (thread_id \<Rightarrow> 'k \<Rightarrow> 'k) \<Rightarrow> message \<Rightarrow> ('h, 'k) kmem \<Rightarrow>
       (reply \<times> u8 list \<times> ('h, 'k) kmem) outcome" where
  "loop_step n E stop m s =
     (if msg_tag m AND L4_REQUEST_MASK = L4_PAGEFAULT then
        bindo (sys_pagefault (from_thread m) (msg_words m 0) (msg_tag m) s) (\<lambda>(f, b). Ret (Map_reply f b, [], s))
      else if L4_Label (msg_tag m) = SYSCALL_PRINT then
        let len = string_length (msg_words m 0)
        in if len < length (msg_string m)
           then Ret (Word_reply 0, takeWhile (\<lambda>c. c \<noteq> 0) ((msg_string m)[len := 0]), s)
           else Fault
      else if L4_Label (msg_tag m) = SYSCALL_EXIT_VALUE then Ret (Word_reply 0, [], s)
      else if L4_Label (msg_tag m) = SYSCALL_KILL_THREAD then
        let tid = msg_words m 0; s = s\<lparr>k_l4 := stop tid (k_l4 s)\<rparr>
        in bindo (sys_thread_lookup tid s) (\<lambda>th.
           bindo (if th = 0 then Fault else sys_thread_delete n E th s) (\<lambda>s. Ret (No_reply, [], s)))
      else Panic)"

text \<open>The loop over the messages that arrive, one after the other; the answers and the printed texts
  in their order. A failed IPC is only reported; the loop then handles the message registers all the
  same, so it is a message like any other.\<close>

fun sys_loop ::
    "nat \<Rightarrow> ('h, 'k) env \<Rightarrow> (thread_id \<Rightarrow> 'k \<Rightarrow> 'k) \<Rightarrow> message list \<Rightarrow> ('h, 'k) kmem \<Rightarrow>
       ((reply \<times> u8 list) list \<times> ('h, 'k) kmem) outcome" where
  "sys_loop n E stop [] s = Ret ([], s)"
| "sys_loop n E stop (m # ms) s =
     bindo (loop_step n E stop m s) (\<lambda>(r, out, s).
     bindo (sys_loop n E stop ms s) (\<lambda>(rs, s). Ret ((r, out) # rs, s)))"

end
