(* ===== verification/Page_Pool.thy ===== *)
theory Page_Pool
  imports Fpage_Alloc
begin

unbundle bit_operations_syntax

text \<open>
  What the page allocators do to the addresses they manage. The free pages of an allocator are the
  pages of all its queues; a well-formed allocator has pages of order \<open>i\<close> in queue \<open>i\<close>, and no two
  of its pages overlap. With slabs left for the nodes, freeing a range adds exactly its addresses,
  and an allocation takes out a page of the order asked for, whose addresses were free and are not
  free afterwards.
\<close>

section \<open>Addresses of pages\<close>

definition page_addrs :: "fpage \<Rightarrow> nat set" where
  "page_addrs f = {unat (L4_Address f)..<unat (L4_Address f) + 2 ^ L4_SizeLog2 f}"

definition free_pages :: "fpage_alloc \<Rightarrow> fpage multiset" where
  "free_pages a = (\<Sum>i \<le> MAX_FPAGE_ORDER. image_mset fn_fpage (mset (flist a i)))"

definition free_addrs :: "fpage_alloc \<Rightarrow> nat set" where
  "free_addrs a = \<Union> (page_addrs ` set_mset (free_pages a))"

definition apart_pages :: "fpage multiset \<Rightarrow> bool" where
  "apart_pages M \<longleftrightarrow> (\<forall>f g. {#f, g#} \<subseteq># M \<longrightarrow> page_addrs f \<inter> page_addrs g = {})"

definition alloc_ok :: "nat \<Rightarrow> fpage_alloc \<Rightarrow> bool" where
  "alloc_ok pb a \<longleftrightarrow> apart_pages (free_pages a) \<and>
     (\<forall>i \<le> MAX_FPAGE_ORDER. \<forall>x \<in> set (flist a i). L4_SizeLog2 (fn_fpage x) = pb + i \<and> fn_addr x \<noteq> 0)"

lemma max_order [simp]: "MAX_FPAGE_ORDER = 64"
  by (simp add: MAX_FPAGE_ORDER_def)

lemma apart_add:
  "apart_pages (add_mset f M) \<longleftrightarrow> apart_pages M \<and> page_addrs f \<inter> \<Union> (page_addrs ` set_mset M) = {}"
proof
  assume a: "apart_pages (add_mset f M)"
  have "{#f, g#} \<subseteq># add_mset f M" if "g \<in># M" for g using that by simp
  then have "page_addrs f \<inter> page_addrs g = {}" if "g \<in># M" for g using a that unfolding apart_pages_def by blast
  moreover have "apart_pages M" using a unfolding apart_pages_def
    by (meson mset_subset_eq_add_right subset_mset.order_trans subset_mset.dual_order.trans mset_subset_eq_insertD
        multi_psub_of_add_self subset_mset.less_imp_le)
  ultimately show "apart_pages M \<and> page_addrs f \<inter> \<Union> (page_addrs ` set_mset M) = {}" by blast
next
  assume b: "apart_pages M \<and> page_addrs f \<inter> \<Union> (page_addrs ` set_mset M) = {}"
  have "page_addrs g \<inter> page_addrs h = {}" if "{#g, h#} \<subseteq># add_mset f M" for g h
  proof (cases "g = f \<or> h = f")
    case True
    then have "(g = f \<and> h \<in># M) \<or> (h = f \<and> g \<in># M)"
      using that by (auto simp: insert_subset_eq_iff split: if_splits dest: in_diffD)
    then show ?thesis using b by blast
  next
    case False
    then have "{#g, h#} \<subseteq># M" using that by (auto simp: insert_subset_eq_iff)
    then show ?thesis using b unfolding apart_pages_def by blast
  qed
  then show "apart_pages (add_mset f M)" unfolding apart_pages_def by blast
qed

lemma free_pages_split:
  "k \<le> MAX_FPAGE_ORDER \<Longrightarrow> free_pages a = image_mset fn_fpage (mset (flist a k)) +
     (\<Sum>i \<in> {..MAX_FPAGE_ORDER} - {k}. image_mset fn_fpage (mset (flist a i)))"
  unfolding free_pages_def by (rule sum.remove) simp_all

lemma free_pages_update:
  assumes "k \<le> MAX_FPAGE_ORDER"
  shows "free_pages (a\<lparr>flist := (flist a)(k := xs)\<rparr>) + image_mset fn_fpage (mset (flist a k)) =
    free_pages a + image_mset fn_fpage (mset xs)"
proof -
  let ?a = "a\<lparr>flist := (flist a)(k := xs)\<rparr>"
  have "(\<Sum>i \<in> {..MAX_FPAGE_ORDER} - {k}. image_mset fn_fpage (mset (flist ?a i))) =
        (\<Sum>i \<in> {..MAX_FPAGE_ORDER} - {k}. image_mset fn_fpage (mset (flist a i)))"
    by (rule sum.cong) auto
  then show ?thesis using free_pages_split [OF assms, of a] free_pages_split [OF assms, of ?a] by simp
qed

lemma free_pages_push:
  "k \<le> MAX_FPAGE_ORDER \<Longrightarrow>
     free_pages (a\<lparr>flist := (flist a)(k := flist a k @ [x])\<rparr>) = add_mset (fn_fpage x) (free_pages a)"
  using free_pages_update [of k a "flist a k @ [x]"] by simp

lemma free_pages_pop:
  "k \<le> MAX_FPAGE_ORDER \<Longrightarrow> flist a k = x # xs \<Longrightarrow>
     free_pages a = add_mset (fn_fpage x) (free_pages (a\<lparr>flist := (flist a)(k := xs)\<rparr>))"
  using free_pages_update [of k a xs] by simp

lemma free_pages_fields [simp]:
  "free_pages (a\<lparr>int_base := b\<rparr>) = free_pages a" "free_pages (a\<lparr>int_end := e\<rparr>) = free_pages a"
  "free_pages (a\<lparr>int_active := c\<rparr>) = free_pages a"
  by (simp_all add: free_pages_def)

lemma free_addrs_fields [simp]:
  "free_addrs (a\<lparr>int_base := b\<rparr>) = free_addrs a" "free_addrs (a\<lparr>int_end := e\<rparr>) = free_addrs a"
  "free_addrs (a\<lparr>int_active := c\<rparr>) = free_addrs a"
  by (simp_all add: free_addrs_def)

lemma alloc_ok_fields [simp]:
  "alloc_ok pb (a\<lparr>int_base := b\<rparr>) = alloc_ok pb a" "alloc_ok pb (a\<lparr>int_end := e\<rparr>) = alloc_ok pb a"
  "alloc_ok pb (a\<lparr>int_active := c\<rparr>) = alloc_ok pb a"
  by (simp_all add: alloc_ok_def)

text \<open>Queueing a page and taking one out, in terms of addresses.\<close>

lemma push_page:
  assumes "alloc_ok pb a" "k \<le> MAX_FPAGE_ORDER" "L4_SizeLog2 (fn_fpage x) = pb + k" "fn_addr x \<noteq> 0"
    and "page_addrs (fn_fpage x) \<inter> free_addrs a = {}"
  defines "a' \<equiv> a\<lparr>flist := (flist a)(k := flist a k @ [x])\<rparr>"
  shows "alloc_ok pb a'" "free_addrs a' = free_addrs a \<union> page_addrs (fn_fpage x)"
proof -
  have p: "free_pages a' = add_mset (fn_fpage x) (free_pages a)" unfolding a'_def by (rule free_pages_push [OF assms(2)])
  show "free_addrs a' = free_addrs a \<union> page_addrs (fn_fpage x)" unfolding free_addrs_def p by auto
  have "apart_pages (free_pages a')" unfolding p apart_add using assms(1,5) by (simp add: alloc_ok_def free_addrs_def)
  moreover have "\<forall>i \<le> MAX_FPAGE_ORDER. \<forall>y \<in> set (flist a' i). L4_SizeLog2 (fn_fpage y) = pb + i \<and> fn_addr y \<noteq> 0"
    using assms(1,3,4) unfolding a'_def alloc_ok_def by auto
  ultimately show "alloc_ok pb a'" by (simp only: alloc_ok_def simp_thms)
qed

lemma pop_page:
  assumes "alloc_ok pb a" "k \<le> MAX_FPAGE_ORDER" "flist a k = x # xs"
  defines "a' \<equiv> a\<lparr>flist := (flist a)(k := xs)\<rparr>"
  shows "alloc_ok pb a'" "free_addrs a = free_addrs a' \<union> page_addrs (fn_fpage x)"
    "free_addrs a' \<inter> page_addrs (fn_fpage x) = {}" "L4_SizeLog2 (fn_fpage x) = pb + k" "fn_addr x \<noteq> 0"
proof -
  have p: "free_pages a = add_mset (fn_fpage x) (free_pages a')" unfolding a'_def by (rule free_pages_pop [OF assms(2,3)])
  then show "free_addrs a = free_addrs a' \<union> page_addrs (fn_fpage x)" unfolding free_addrs_def by auto
  have ap: "apart_pages (add_mset (fn_fpage x) (free_pages a'))" using assms(1) p by (simp add: alloc_ok_def)
  then show "free_addrs a' \<inter> page_addrs (fn_fpage x) = {}" by (auto simp: apart_add free_addrs_def)
  show "L4_SizeLog2 (fn_fpage x) = pb + k" "fn_addr x \<noteq> 0" using assms(1-3) by (auto simp: alloc_ok_def)
  have "\<forall>i \<le> MAX_FPAGE_ORDER. \<forall>y \<in> set (flist a' i). L4_SizeLog2 (fn_fpage y) = pb + i \<and> fn_addr y \<noteq> 0"
    using assms(1,3) unfolding a'_def alloc_ok_def by auto
  then show "alloc_ok pb a'" using ap by (simp only: alloc_ok_def apart_add simp_thms)
qed

section \<open>Splitting a page\<close>

lemma address_aligned: "2 ^ L4_SizeLog2 f dvd unat (L4_Address f)"
  unfolding Address_eq unat_and_not_mask by (simp add: minus_mod_eq_mult_div)

lemma xor_bit: "2 ^ Suc n dvd unat (a :: u64) \<Longrightarrow> a XOR push_bit n 1 = a + push_bit n 1"
proof -
  assume d: "2 ^ Suc n dvd unat a"
  have "take_bit (Suc n) a = 0" using take_bit_eq_0_iff_dvd [of "Suc n" a] d by blast
  then have b: "\<not> bit a n" by (metis bit_0_eq bit_take_bit_iff bot_fun_def bot_bool_def lessI)
  have "a AND push_bit n 1 = 0" by (rule bit_word_eqI) (use b in \<open>auto simp: bit_simps\<close>)
  then have "a + push_bit n 1 = a OR push_bit n 1" by (rule disjunctive_add_eq_or)
  also have "\<dots> = a XOR push_bit n 1" by (rule bit_word_eqI) (use b in \<open>auto simp: bit_simps\<close>)
  finally show ?thesis by simp
qed

lemma split_halves:
  assumes "L4_SizeLog2 f = Suc n" "10 \<le> n"
  defines "f' \<equiv> L4_FpageLog2 (L4_Address f) n"
  shows "L4_SizeLog2 f' = n" "L4_Address f' = L4_Address f" "L4_SizeLog2 (buddy f') = n"
    "page_addrs f = page_addrs f' \<union> page_addrs (buddy f')" "page_addrs f' \<inter> page_addrs (buddy f') = {}"
proof -
  have n: "n < 63" using X_s_less [of f] assms(1) by (simp add: L4_SizeLog2_def)
  have al: "2 ^ Suc n dvd unat (L4_Address f)" using address_aligned [of f] assms(1) by simp
  have aln: "2 ^ n dvd unat (L4_Address f)" using dvd_pow_le [OF al] by simp
  show s: "L4_SizeLog2 f' = n" and a: "L4_Address f' = L4_Address f"
    unfolding f'_def using n assms(2) aln by (simp_all add: fpage_simps aligned_and_not_mask)
  have sz: "L4_Size f' = push_bit n 1" using s assms(2) by (auto simp: L4_Size_def L4_SizeLog2_def)
  have b: "buddy f' = L4_FpageLog2 (L4_Address f + push_bit n 1) n"
    unfolding buddy_def a sz xor_bit [OF al] using n by (intro L4_Fpage_exp) simp
  have "unat (L4_Address f) + 2 ^ Suc n \<le> 2 ^ 64" by (rule aligned_add_le_64 [OF al]) (use n in simp)
  moreover have pn: "unat (push_bit n 1 :: u64) = 2 ^ n" "0 < (2::nat) ^ n" using n by simp_all
  ultimately have lt: "unat (L4_Address f) + unat (push_bit n 1 :: u64) < 2 ^ 64"
    unfolding pn(1) power_Suc using pn(2) by linarith
  have u: "unat (L4_Address f + push_bit n 1) = unat (L4_Address f) + 2 ^ n"
    using unat_add_no_wrap [OF lt] n by simp
  have "2 ^ n dvd unat (L4_Address f + push_bit n 1)" unfolding u using aln by simp
  then have ab: "L4_Address (buddy f') = L4_Address f + push_bit n 1" "L4_SizeLog2 (buddy f') = n"
    unfolding b using n assms(2) by (simp_all add: fpage_simps aligned_and_not_mask)
  then show "L4_SizeLog2 (buddy f') = n" by simp
  show "page_addrs f = page_addrs f' \<union> page_addrs (buddy f')" "page_addrs f' \<inter> page_addrs (buddy f') = {}"
    unfolding page_addrs_def ab s a u assms(1) by auto
qed


lemma push_upper_half:
  assumes "alloc_ok pb a" "L4_SizeLog2 f = Suc (pb + k)" "10 \<le> pb" "node \<noteq> 0" "page_addrs f \<inter> free_addrs a = {}"
  defines "f' \<equiv> L4_FpageLog2 (L4_Address f) (pb + k)"
  defines "a' \<equiv> a\<lparr>flist := (flist a)(k := flist a k @ [\<lparr>fn_addr = node, fn_fpage = buddy f'\<rparr>])\<rparr>"
  shows "alloc_ok pb a'" "free_addrs a' \<union> page_addrs f' = free_addrs a \<union> page_addrs f"
    "page_addrs f' \<inter> free_addrs a' = {}" "page_addrs f' \<subseteq> page_addrs f" "L4_SizeLog2 f' = pb + k"
    "L4_Address f' = L4_Address f"
proof -
  have n: "10 \<le> pb + k" using assms(3) by simp
  note H = split_halves [OF assms(2) n, folded f'_def]
  have k: "k \<le> MAX_FPAGE_ORDER" using X_s_less [of f] assms(2) by (simp add: L4_SizeLog2_def)
  have d: "page_addrs (buddy f') \<inter> free_addrs a = {}" using H(4) assms(5) by blast
  note P = push_page [OF assms(1) k, of "\<lparr>fn_addr = node, fn_fpage = buddy f'\<rparr>", folded a'_def]
  show "alloc_ok pb a'" using P(1) H(3) assms(4) d by simp
  have fa: "free_addrs a' = free_addrs a \<union> page_addrs (buddy f')" using P(2) H(3) assms(4) d by simp
  show "free_addrs a' \<union> page_addrs f' = free_addrs a \<union> page_addrs f" unfolding fa H(4) by auto
  show "page_addrs f' \<inter> free_addrs a' = {}" unfolding fa using H(4,5) assms(5) by blast
  show "page_addrs f' \<subseteq> page_addrs f" using H(4) by blast
  show "L4_SizeLog2 f' = pb + k" "L4_Address f' = L4_Address f" using H(1,2) by auto
qed

lemma split_loop_spec:
  assumes "pools_ok s" "alloc_ok (min_bits s) (allocator w s)" "10 \<le> min_bits s"
    and "L4_SizeLog2 f = min_bits s + order + d" "d \<le> length (avail FP_cache s)" "d < k"
    and "page_addrs f \<inter> free_addrs (allocator w s) = {}"
  shows "\<exists>f' s'. split_loop (Suc n) k w (int order) f s = Ret (f', s') \<and> L4_SizeLog2 f' = min_bits s + order \<and>
    L4_Address f' = L4_Address f \<and> page_addrs f' \<subseteq> page_addrs f \<and>
    free_addrs (allocator w s') \<union> page_addrs f' = free_addrs (allocator w s) \<union> page_addrs f \<and>
    page_addrs f' \<inter> free_addrs (allocator w s') = {} \<and> alloc_ok (min_bits s) (allocator w s') \<and>
    pools_ok s' \<and> same_shape s s' \<and> length (avail FP_cache s') = length (avail FP_cache s) - d"
  using assms
proof (induction d arbitrary: f s k)
  case 0
  then obtain k' where k: "k = Suc k'" by (cases k) auto
  have "split_loop (Suc n) k w (int order) f s = Ret (f, s)" using 0 k by (simp add: sys_fp_order_def)
  then show ?case using 0 by (intro exI [of _ f] exI [of _ s]) simp
next
  case (Suc d)
  let ?pb = "min_bits s"
  obtain k' where k: "k = Suc k'" "d < k'" using Suc.prems(6) by (cases k) auto
  obtain x xs where av: "avail FP_cache s = x # xs" using Suc.prems(5) by (cases "avail FP_cache s") auto
  obtain s1 where s1: "sys_slab_cache_alloc (Suc n) FP_cache s = Ret (x, s1)" "x \<noteq> 0" "avail FP_cache s1 = xs"
    "pools_ok s1" "same_shape s s1" "allocator w s1 = allocator w s"
    by (rule slab_alloc_avail [OF Suc.prems(1) av, of n]) (blast intro: that)
  let ?f = "L4_FpageLog2 (L4_Address f) (?pb + (order + d))"
  let ?x = "\<lparr>fn_addr = x, fn_fpage = buddy ?f\<rparr>"
  let ?a = "(allocator w s)\<lparr>flist := (flist (allocator w s))(order + d := flist (allocator w s) (order + d) @ [?x])\<rparr>"
  let ?s = "set_allocator w ?a s1"
  have f: "L4_SizeLog2 f = Suc (?pb + (order + d))" using Suc.prems(4) by simp
  note H = push_upper_half [OF Suc.prems(2) f Suc.prems(3) s1(2) Suc.prems(7)]
  have pb: "min_bits s1 = ?pb" using s1(5) by (simp add: same_shape_def)
  have od: "order + d \<le> 64" using X_s_less [of f] f by (simp add: L4_SizeLog2_def)
  have step: "split_loop (Suc n) k w (int order) f s = split_loop (Suc n) k' w (int order) ?f ?s"
  proof -
    have o: "sys_fp_order ?pb f > int order" "sys_fp_order ?pb ?f = int (order + d)"
      using f H(5) by (simp_all add: sys_fp_order_def)
    have l: "L4_SizeLog2 f - Suc 0 = ?pb + (order + d)" using f by simp
    show ?thesis unfolding k split_loop.simps
      using o s1(1,2,6) pb od by (simp add: Let_def l del: sys_slab_cache_alloc.simps of_nat_add)
  qed
  have "\<exists>f' s'. split_loop (Suc n) k' w (int order) ?f ?s = Ret (f', s') \<and> L4_SizeLog2 f' = min_bits ?s + order \<and>
    L4_Address f' = L4_Address ?f \<and> page_addrs f' \<subseteq> page_addrs ?f \<and>
    free_addrs (allocator w s') \<union> page_addrs f' = free_addrs (allocator w ?s) \<union> page_addrs ?f \<and>
    page_addrs f' \<inter> free_addrs (allocator w s') = {} \<and> alloc_ok (min_bits ?s) (allocator w s') \<and>
    pools_ok s' \<and> same_shape ?s s' \<and> length (avail FP_cache s') = length (avail FP_cache ?s) - d"
    by (rule Suc.IH) (use H Suc.prems(3,5) pb s1(3,4) av k(2) in \<open>simp_all add: add.assoc\<close>)
  then obtain f' s' where r: "split_loop (Suc n) k' w (int order) ?f ?s = Ret (f', s')"
    "L4_SizeLog2 f' = ?pb + order" "L4_Address f' = L4_Address ?f" "page_addrs f' \<subseteq> page_addrs ?f"
    "free_addrs (allocator w s') \<union> page_addrs f' = free_addrs ?a \<union> page_addrs ?f"
    "page_addrs f' \<inter> free_addrs (allocator w s') = {}" "alloc_ok ?pb (allocator w s')"
    "pools_ok s'" "same_shape ?s s'" "length (avail FP_cache s') = length xs - d"
    using pb s1(3) by auto
  have "same_shape s s'" using s1(5) same_shape_set_allocator r(9) by (blast intro: same_shape_trans)
  moreover have "length (avail FP_cache s') = length (avail FP_cache s) - Suc d" using r(10) av by simp
  moreover have "page_addrs f' \<subseteq> page_addrs f" using r(4) H(4) by blast
  moreover have "L4_Address f' = L4_Address f" using r(3) H(6) by simp
  moreover have "free_addrs (allocator w s') \<union> page_addrs f' = free_addrs (allocator w s) \<union> page_addrs f"
    using r(5) H(2) by simp
  ultimately show ?case unfolding step using r(1,2,6,7,8) by (intro exI [of _ f'] exI [of _ s']) (simp only: simp_thms)
qed


section \<open>Allocating a page\<close>

lemma first_order_spec:
  "i \<le> first_order fl i n \<and> first_order fl i n \<le> i + n \<and>
    (first_order fl i n < i + n \<longrightarrow> fl (first_order fl i n) \<noteq> []) \<and>
    (\<forall>k. i \<le> k \<and> k < first_order fl i n \<longrightarrow> fl k = [])"
proof (induction fl i n rule: first_order.induct)
  case (2 fl i n)
  show ?case
  proof (cases "fl i = []")
    case True
    have "fl k = []" if "i \<le> k" "k < first_order fl (i + 1) n" for k
      using 2 [OF True] True that by (cases "k = i") auto
    then show ?thesis using 2 [OF True] True by auto
  qed auto
qed auto

lemma order_down_here: "fl i \<noteq> [] \<Longrightarrow> order_down fl i = int i"
  by (cases i) auto

lemma find_order_above:
  assumes "order \<le> j" "j < MAX_FPAGE_ORDER" "fl j \<noteq> []"
  obtains i where "find_order fl order = int i" "order \<le> i" "i \<le> j" "fl i \<noteq> []"
proof -
  let ?i = "first_order fl order (MAX_FPAGE_ORDER - order)"
  have sp: "order \<le> ?i" "?i < order + (MAX_FPAGE_ORDER - order) \<longrightarrow> fl ?i \<noteq> []"
    "\<forall>k. order \<le> k \<and> k < ?i \<longrightarrow> fl k = []"
    using first_order_spec [of order fl "MAX_FPAGE_ORDER - order"] by blast+
  have "\<not> j < ?i" using sp(3) assms(1,3) by blast
  then have ij: "?i \<le> j" by simp
  then have ne: "fl ?i \<noteq> []" using sp(2) assms(1,2) by simp
  have "find_order fl order = int ?i" unfolding find_order_def by (rule order_down_here [of fl ?i, OF ne])
  then show thesis by (rule that [OF _ sp(1) ij ne])
qed

lemma sz_order_loop_upper:
  assumes "sz_order_loop pb sz k = Some r"
  shows "k \<le> r \<and> sz \<le> push_bit (r + pb) 1"
  by (rule sz_order_loop.raw_induct [where P = "\<lambda>pb sz k r. k \<le> r \<and> sz \<le> push_bit (r + pb) 1", OF _ assms])
    (force split: if_splits simp: not_less)

lemma sz_order_upper:
  assumes "sz_order pb sz = Some r" "pb + r < 64"
  shows "unat sz \<le> 2 ^ (pb + r)"
proof -
  have "sz \<le> push_bit (r + pb) 1" using sz_order_loop_upper assms(1) unfolding sz_order_def by blast
  then have "unat sz \<le> unat (push_bit (r + pb) 1 :: u64)" by (simp add: word_le_nat_alt)
  also have "unat (push_bit (r + pb) 1 :: u64) = 2 ^ (r + pb)" using assms(2) unat_2_pow [of "r + pb"]
    by (simp add: push_bit_eq_mult add.commute)
  finally show ?thesis by (simp add: add.commute)
qed

text \<open>Every node that is queued lies in a pool of the cache for nodes.\<close>

definition nodes_ok :: "alloc_id \<Rightarrow> mm \<Rightarrow> bool" where
  "nodes_ok w s \<longleftrightarrow> (\<forall>i \<le> MAX_FPAGE_ORDER. \<forall>x \<in> set (flist (allocator w s) i).
     \<exists>p \<in> set (pools s FP_cache). sys_objtable_lookup (fn_addr x) s = Ret p)"

text \<open>C3: \<open>sys$fpage_alloc\<close>, with a page of the order asked for or of a bigger one in the queues and
  slabs for the nodes, returns a page of exactly the order asked for, which is big enough. The page
  was free, its addresses and no others leave the free memory, and the allocator stays well-formed:
  the halves that are split off go back as free pages.\<close>

theorem fpage_alloc_correct:
  assumes "pools_ok s" "alloc_ok (min_bits s) (allocator w s)" "nodes_ok w s" "10 \<le> min_bits s"
    and "sz_order (min_bits s) sz = Some order" "order \<le> j" "j < MAX_FPAGE_ORDER" "flist (allocator w s) j \<noteq> []"
    and "MAX_FPAGE_ORDER \<le> length (avail FP_cache s)"
  shows "\<exists>f s'. sys_fpage_alloc (Suc n) w sz s = Ret (f, s') \<and> L4_SizeLog2 f = min_bits s + order \<and>
    unat sz \<le> 2 ^ L4_SizeLog2 f \<and> page_addrs f \<subseteq> free_addrs (allocator w s) \<and>
    free_addrs (allocator w s') = free_addrs (allocator w s) - page_addrs f \<and>
    alloc_ok (min_bits s) (allocator w s') \<and> pools_ok s'"
proof -
  let ?a = "allocator w s" and ?pb = "min_bits s"
  obtain i where i: "find_order (flist ?a) order = int i" "order \<le> i" "i \<le> j" "flist ?a i \<noteq> []"
    by (rule find_order_above [of order j "flist ?a", OF assms(6-8)])
  have i64: "i \<le> MAX_FPAGE_ORDER" using i(3) assms(7) by simp
  obtain x xs where x: "flist ?a i = x # xs" using i(4) by (cases "flist ?a i") auto
  let ?a1 = "?a\<lparr>flist := (flist ?a)(i := xs)\<rparr>" and ?f = "fn_fpage x"
  let ?s1 = "set_allocator w ?a1 s"
  note P = pop_page [OF assms(2) i64 x]
  obtain p where p: "p \<in> set (pools s FP_cache)" "sys_objtable_lookup (fn_addr x) s = Ret p"
    using assms(3) i64 x unfolding nodes_ok_def by force
  have l1: "sys_objtable_lookup (fn_addr x) ?s1 = Ret p"
    using lookup_shape [OF same_shape_set_allocator] p(2) by simp
  obtain s2 where s2: "sys_slab_cache_free (fn_addr x) ?s1 = Ret s2"
    "mset (avail FP_cache s2) = add_mset (fn_addr x) (mset (avail FP_cache ?s1))"
    "pools_ok s2" "same_shape ?s1 s2" "allocator w s2 = ?a1"
    by (rule slab_free_avail [of ?s1 "fn_addr x" p FP_cache])
      (use assms(1) l1 p(1) P(5) in \<open>auto intro: that\<close>)
  have pb: "min_bits s2 = ?pb" using s2(4) by (simp add: same_shape_def)
  have "size (mset (avail FP_cache s2)) = Suc (length (avail FP_cache s))" using s2(2) by simp
  then have len: "i - order \<le> length (avail FP_cache s2)" using assms(9) i64 by simp
  obtain f' s' where r: "split_loop (Suc n) (Suc MAX_FPAGE_ORDER) w (int order) ?f s2 = Ret (f', s')"
    "L4_SizeLog2 f' = ?pb + order" "page_addrs f' \<subseteq> page_addrs ?f"
    "free_addrs (allocator w s') \<union> page_addrs f' = free_addrs ?a1 \<union> page_addrs ?f"
    "page_addrs f' \<inter> free_addrs (allocator w s') = {}" "alloc_ok ?pb (allocator w s')" "pools_ok s'"
  proof -
    have dj: "page_addrs ?f \<inter> free_addrs (allocator w s2) = {}" using P(3) s2(5) by auto
    have lt: "i - order < Suc MAX_FPAGE_ORDER" using i64 by simp
    have fs: "L4_SizeLog2 ?f = min_bits s2 + order + (i - order)" using P(4) pb i(2) by simp
    have ok2: "alloc_ok (min_bits s2) (allocator w s2)" "10 \<le> min_bits s2" using P(1) s2(5) pb assms(4) by simp_all
    show thesis
      using split_loop_spec [OF s2(3) ok2 fs len lt dj, of n] pb s2(5) that by (auto simp del: split_loop.simps)
  qed
  have c: "sys_fpage_alloc (Suc n) w sz s = Ret (f', s')"
    using assms(5) i(1) x s2(1) r(1) by (simp add: sys_fpage_alloc_def Let_def del: split_loop.simps)
  have "?pb + order < 64" using X_s_less [of f'] r(2) by (simp add: L4_SizeLog2_def)
  then have big: "unat sz \<le> 2 ^ L4_SizeLog2 f'" using sz_order_upper [OF assms(5)] r(2) by simp
  have sub: "page_addrs f' \<subseteq> free_addrs ?a" using r(3) P(2) by blast
  have "free_addrs (allocator w s') = free_addrs ?a - page_addrs f'" using r(3,4,5) P(2) by blast
  then show ?thesis using c r(2,6,7) big sub by blast
qed

section \<open>Freeing a range\<close>

lemma page_addrs_at: "L4_Address f = b \<Longrightarrow> L4_SizeLog2 f = k \<Longrightarrow> page_addrs f = {unat b..<unat b + 2 ^ k}"
  by (simp add: page_addrs_def)

text \<open>One round of the loop: the biggest page at the start of the region is queued.\<close>

lemma queue_biggest_spec:
  assumes "alloc_ok (min_bits s) (allocator w s)" "10 \<le> min_bits s" "min_bits s < 31" "node \<noteq> 0"
    and a: "a = allocator w s" and r: "page_range (min_bits s) (int_base a) (int_end a)"
    and d: "{unat (int_base a)..unat (int_end a)} \<inter> free_addrs a = {}"
  obtains a' k where "queue_biggest w node s = Ret (set_allocator w a' s)" "alloc_ok (min_bits s) a'"
    "int_end a' = int_end a" "int_active a' = int_active a" "min_bits s \<le> k"
    "unat (int_base a') = unat (int_base a) + 2 ^ k" "unat (int_base a') \<le> unat (int_end a) + 1"
    "2 ^ min_bits s dvd unat (int_base a')"
    "free_addrs a' = free_addrs a \<union> {unat (int_base a)..<unat (int_base a')}"
proof -
  let ?f = "sys_biggest_fpage (min_bits s) (int_base a) (int_base a) (int_end a)"
  note S = biggest_fpage_shape [OF r assms(2,3)]
  obtain k where k: "L4_SizeLog2 ?f = min_bits s + k" using S(2) le_Suc_ex by blast
  let ?x = "\<lparr>fn_addr = node, fn_fpage = ?f\<rparr>" and ?n = "min_bits s + k"
  have k64: "k \<le> MAX_FPAGE_ORDER" using S(3) k by simp
  have fit: "2 ^ ?n dvd unat (int_base a)" "unat (int_base a) + 2 ^ ?n \<le> unat (int_end a) + 1"
    using S(4) unfolding k fits_def by auto
  have hi: "unat (int_end a) + 1 < 2 ^ 63" using r by (simp add: page_range_def)
  have u: "unat (int_base a + L4_Size ?f) = unat (int_base a) + 2 ^ ?n"
    using unat_add_no_wrap [of "int_base a" "L4_Size ?f"] S(6) fit(2) hi k by simp
  have pa: "page_addrs ?f = {unat (int_base a)..<unat (int_base a) + 2 ^ ?n}" by (rule page_addrs_at [OF S(1) k])
  let ?a1 = "a\<lparr>flist := (flist a)(k := flist a k @ [?x])\<rparr>"
  have "{unat (int_base a)..<unat (int_base a) + 2 ^ ?n} \<subseteq> {unat (int_base a)..unat (int_end a)}" using fit(2) by auto
  then have dj: "page_addrs (fn_fpage ?x) \<inter> free_addrs a = {}" using d unfolding fnode.simps pa by blast
  have P: "alloc_ok (min_bits s) ?a1" "free_addrs ?a1 = free_addrs a \<union> page_addrs ?f"
    using push_page [OF assms(1) k64, of ?x] k assms(4) dj a by simp_all
  have q: "queue_biggest w node s = Ret (set_allocator w (?a1\<lparr>int_base := int_base a + L4_Size ?f\<rparr>) s)"
    using k k64 a by (simp add: queue_biggest_def Let_def sys_fp_order_def)
  have al: "2 ^ min_bits s dvd unat (int_base a + L4_Size ?f)"
    unfolding u using dvd_pow_le [OF fit(1), of "min_bits s"] le_imp_power_dvd [of "min_bits s" ?n "2::nat"] by simp
  show thesis
    by (rule that [OF q, of ?n]) (use P u al fit(2) in \<open>simp_all add: pa\<close>)
qed

lemma clear_loop_spec:
  assumes "pools_ok s" "alloc_ok (min_bits s) (allocator w s)" "10 \<le> min_bits s" "min_bits s < 31"
    and "a = allocator w s" "2 ^ min_bits s dvd unat (int_base a)" "2 ^ min_bits s dvd unat (int_end a) + 1"
    and "unat (int_end a) + 1 < 2 ^ 63" "unat (int_base a) \<le> unat (int_end a) + 1"
    and "{unat (int_base a)..unat (int_end a)} \<inter> free_addrs a = {}"
    and "unat (int_end a) + 1 - unat (int_base a) \<le> m * 2 ^ min_bits s" "m \<le> length (avail FP_cache s)" "m < n"
  shows "\<exists>s'. clear_loop (Suc n) w s = Ret s' \<and>
    free_addrs (allocator w s') = free_addrs a \<union> {unat (int_base a)..unat (int_end a)} \<and>
    alloc_ok (min_bits s) (allocator w s') \<and> \<not> int_active (allocator w s') \<and> pools_ok s' \<and> same_shape s s'"
  using assms
proof (induction m arbitrary: s a n)
  case 0
  then have e: "unat (int_base a) = unat (int_end a) + 1" by simp
  then have "\<not> int_base a < int_end a" by (simp add: word_less_nat_alt)
  then have c: "clear_loop (Suc n) w s = Ret (set_allocator w (a\<lparr>int_active := False\<rparr>) s)" using 0(5) by simp
  show ?case unfolding c by (rule exI [of _ "set_allocator w (a\<lparr>int_active := False\<rparr>) s"]) (use 0 e in auto)
next
  case (Suc m)
  show ?case
  proof (cases "unat (int_base a) = unat (int_end a) + 1")
    case True
    then have "\<not> int_base a < int_end a" by (simp add: word_less_nat_alt)
    then have c: "clear_loop (Suc n) w s = Ret (set_allocator w (a\<lparr>int_active := False\<rparr>) s)" using Suc.prems(5) by simp
    show ?thesis unfolding c
      by (rule exI [of _ "set_allocator w (a\<lparr>int_active := False\<rparr>) s"]) (use Suc.prems True in auto)
  next
    case False
    let ?pb = "min_bits s"
    have le: "unat (int_base a) < unat (int_end a) + 1" using False Suc.prems(9) by simp
    then have pr: "page_range ?pb (int_base a) (int_end a)"
      using Suc.prems(6-8) by (simp add: page_range_def word_le_nat_alt)
    have "unat (int_base a) + 2 ^ ?pb \<le> unat (int_end a) + 1"
      using page_range_fits [OF pr] by (simp add: fits_def)
    moreover have "(2::nat) ^ 10 \<le> 2 ^ ?pb" using Suc.prems(3) by (rule power_increasing) simp
    ultimately have lt: "int_base a < int_end a" by (simp add: word_less_nat_alt)
    obtain n' where n: "n = Suc n'" using Suc.prems(13) by (cases n) auto
    obtain x xs where av: "avail FP_cache s = x # xs" using Suc.prems(12) by (cases "avail FP_cache s") auto
    obtain s1 where s1: "sys_slab_cache_alloc (Suc n') FP_cache s = Ret (x, s1)" "x \<noteq> 0" "avail FP_cache s1 = xs"
      "pools_ok s1" "same_shape s s1" "allocator w s1 = allocator w s"
      by (rule slab_alloc_avail [OF Suc.prems(1) av, of n']) (blast intro: that)
    have pb: "min_bits s1 = ?pb" using s1(5) by (simp add: same_shape_def)
    have q: "alloc_ok (min_bits s1) (allocator w s1)" "10 \<le> min_bits s1" "min_bits s1 < 31" "a = allocator w s1"
      "page_range (min_bits s1) (int_base a) (int_end a)"
      using Suc.prems(2-5) pb s1(6) pr by simp_all
    obtain a' k where a': "queue_biggest w x s1 = Ret (set_allocator w a' s1)" "alloc_ok ?pb a'"
      "int_end a' = int_end a" "?pb \<le> k" "unat (int_base a') = unat (int_base a) + 2 ^ k"
      "unat (int_base a') \<le> unat (int_end a) + 1" "2 ^ ?pb dvd unat (int_base a')"
      "free_addrs a' = free_addrs a \<union> {unat (int_base a)..<unat (int_base a')}"
      by (rule queue_biggest_spec [OF q(1-3) s1(2) q(4,5) Suc.prems(10), unfolded pb]) (rule that)
    let ?s = "set_allocator w a' s1"
    have step: "clear_loop (Suc n) w s = clear_loop n w ?s"
      using lt Suc.prems(5) s1(1,2) a'(1) n by (simp del: sys_slab_cache_alloc.simps)
    have "(2::nat) ^ ?pb \<le> 2 ^ k" using a'(4) by (rule power_increasing) simp
    moreover have "Suc m * 2 ^ ?pb = 2 ^ ?pb + m * 2 ^ ?pb" by simp
    ultimately have m: "unat (int_end a') + 1 - unat (int_base a') \<le> m * 2 ^ ?pb"
      using Suc.prems(11) unfolding a'(3,5) by linarith
    have dj: "{unat (int_base a')..unat (int_end a')} \<inter> free_addrs a' = {}"
    proof -
      have "{unat (int_base a')..unat (int_end a')} \<subseteq> {unat (int_base a)..unat (int_end a)}" using a'(3,5) by auto
      then show ?thesis unfolding a'(8) using Suc.prems(10) by fastforce
    qed
    have ih: "\<exists>s'. clear_loop (Suc n') w ?s = Ret s' \<and>
      free_addrs (allocator w s') = free_addrs a' \<union> {unat (int_base a')..unat (int_end a')} \<and>
      alloc_ok (min_bits ?s) (allocator w s') \<and> \<not> int_active (allocator w s') \<and> pools_ok s' \<and> same_shape ?s s'"
      by (rule Suc.IH) (use pb s1(3,4) a' Suc.prems m dj n av in simp_all)
    then obtain s' where r: "clear_loop n w ?s = Ret s'"
      "free_addrs (allocator w s') = free_addrs a' \<union> {unat (int_base a')..unat (int_end a')}"
      "alloc_ok ?pb (allocator w s')" "\<not> int_active (allocator w s')" "pools_ok s'" "same_shape ?s s'"
      using pb n by auto
    have "free_addrs a' \<union> {unat (int_base a')..unat (int_end a')} = free_addrs a \<union> {unat (int_base a)..unat (int_end a)}"
      unfolding a'(8) using a'(3,5,6) by auto
    moreover have "same_shape s s'" using s1(5) same_shape_set_allocator r(6) by (blast intro: same_shape_trans)
    ultimately show ?thesis unfolding step using r by (intro exI [of _ s']) simp
  qed
qed

text \<open>C4: \<open>sys$fpage_free_chunk\<close> of a page-aligned range that is not free, on an allocator without an
  internal region and with a slab for every page, returns; afterwards exactly the old free addresses
  and those of the range are free, and no two free pages overlap.\<close>

theorem fpage_free_chunk_correct:
  assumes "pools_ok s" "alloc_ok (min_bits s) (allocator w s)" "10 \<le> min_bits s" "min_bits s < 31"
    and "\<not> int_active (allocator w s)" "page_range (min_bits s) b e"
    and "{unat b..unat e} \<inter> free_addrs (allocator w s) = {}"
    and "unat e + 1 - unat b \<le> m * 2 ^ min_bits s" "m \<le> length (avail FP_cache s)" "m < n"
  shows "\<exists>s'. sys_fpage_free_chunk (Suc (Suc n)) w b e s = Ret s' \<and>
    free_addrs (allocator w s') = free_addrs (allocator w s) \<union> {unat b..unat e} \<and>
    alloc_ok (min_bits s) (allocator w s') \<and> \<not> int_active (allocator w s') \<and> pools_ok s'"
proof -
  let ?a = "(allocator w s)\<lparr>int_base := b, int_end := e, int_active := True\<rparr>"
  let ?s = "set_allocator w ?a s"
  have c: "sys_fpage_free_chunk (Suc (Suc n)) w b e s = clear_loop (Suc n) w ?s"
    using assms(5) by (simp add: sys_fpage_free_chunk_def free_chunk_def sys_fpage_free_internal_def del: clear_loop.simps)
  have fa: "free_addrs ?a = free_addrs (allocator w s)" "alloc_ok (min_bits s) ?a = alloc_ok (min_bits s) (allocator w s)"
    by (simp_all add: free_addrs_def free_pages_def alloc_ok_def)
  have "\<exists>s'. clear_loop (Suc n) w ?s = Ret s' \<and>
    free_addrs (allocator w s') = free_addrs ?a \<union> {unat (int_base ?a)..unat (int_end ?a)} \<and>
    alloc_ok (min_bits ?s) (allocator w s') \<and> \<not> int_active (allocator w s') \<and> pools_ok s' \<and> same_shape ?s s'"
    by (rule clear_loop_spec)
      (use assms fa in \<open>simp_all add: page_range_def word_le_nat_alt\<close>)
  then show ?thesis unfolding c using fa by (auto simp del: clear_loop.simps)
qed


section \<open>A state to try the theorems on\<close>

text \<open>One pool of 70 nodes, no object table, and one free page of 8 KB.\<close>

definition sample_pool :: memsection where
  "sample_pool = \<lparr>ms_base = 0x10000, ms_end = 0x10fff, ms_flags = 0, ms_phys = PhysBase 0x80000,
     ms_slab_cache = Some FP_cache, ms_slabs = map (\<lambda>i. 0x10000 + 24 * of_nat i) [0..<70]\<rparr>"

definition idle_alloc :: fpage_alloc where
  "idle_alloc = \<lparr>flist = (\<lambda>_. []), int_base = 0, int_end = 0, int_active = False\<rparr>"

definition sample_node :: fnode where
  "sample_node = \<lparr>fn_addr = 0x10f00, fn_fpage = L4_FpageLog2 0x40000 13\<rparr>"

definition sample_mm :: mm where
  "sample_mm = \<lparr>min_bits = 12,
     vm_alloc = idle_alloc\<lparr>flist := (flist idle_alloc)(1 := flist idle_alloc 1 @ [sample_node])\<rparr>,
     pm_alloc = idle_alloc, sections = [0x20010 \<mapsto> sample_pool],
     pools = (\<lambda>_. [])(FP_cache := [0x20010]), internal_memsections = [0x20010], pd_memsections = (\<lambda>_. []),
     objtable = None, vms_pd_initialized = False, effects = []\<rparr>"

lemma sample_avail: "avail sc sample_mm = (if sc = FP_cache then ms_slabs sample_pool else [])"
  by (simp add: avail_def sample_mm_def pool_slabs_def)

lemma sample_fields [simp]:
  "min_bits sample_mm = 12" "sections sample_mm = [0x20010 \<mapsto> sample_pool]"
  "pools sample_mm = (\<lambda>_. [])(FP_cache := [0x20010])" "\<not> int_active (vm_alloc sample_mm)"
  "flist (vm_alloc sample_mm) (Suc 0) = [sample_node]" "length (avail FP_cache sample_mm) = 70"
  by (simp_all add: sample_avail) (simp_all add: sample_mm_def idle_alloc_def sample_pool_def)

lemma sample_pools_ok: "pools_ok sample_mm"
proof -
  have "(0 :: u64) \<notin> (\<lambda>i. 0x10000 + 24 * of_nat i) ` {..<70}"
    by (simp add: lessThan_nat_numeral lessThan_Suc image_iff)
  then have "0 \<notin> set (avail sc sample_mm)" for sc by (simp add: sample_avail sample_pool_def atLeast0LessThan)
  moreover have "ms_slab_cache sample_pool \<noteq> None" by (simp add: sample_pool_def)
  ultimately show ?thesis by (auto simp: pools_ok_def)
qed

lemma idle_ok: "alloc_ok pb idle_alloc" "free_addrs idle_alloc = {}"
  by (simp_all add: alloc_ok_def free_addrs_def free_pages_def idle_alloc_def apart_pages_def)

lemma sample_vm_ok:
  "alloc_ok 12 (vm_alloc sample_mm)" "free_addrs (vm_alloc sample_mm) = {0x40000..<0x42000}"
proof -
  have s: "L4_SizeLog2 (fn_fpage sample_node) = 12 + 1" "L4_Address (fn_fpage sample_node) = 0x40000"
    by (simp_all add: sample_node_def fpage_simps)
      (simp add: mask_eq_exp_minus_1)
  have d: "page_addrs (fn_fpage sample_node) \<inter> free_addrs idle_alloc = {}" by (simp add: idle_ok)
  have n: "fn_addr sample_node \<noteq> 0" "1 \<le> MAX_FPAGE_ORDER" by (simp_all add: sample_node_def)
  note P = push_page [OF idle_ok(1) n(2) s(1) n(1) d]
  show "alloc_ok 12 (vm_alloc sample_mm)" using P(1) by (simp add: sample_mm_def)
  show "free_addrs (vm_alloc sample_mm) = {0x40000..<0x42000}"
    using P(2) by (simp add: sample_mm_def idle_ok page_addrs_def s)
qed

lemma sample_nodes_ok: "nodes_ok VM sample_mm"
  by (simp add: nodes_ok_def sample_mm_def idle_alloc_def sys_objtable_lookup_def BTSearch_def sample_pool_def
      sample_node_def)

lemma sample_order: "sz_order 12 4096 = Some 0"
  unfolding sz_order_def by (subst sz_order_loop.simps) simp

theorem fpage_alloc_correct_witness:
  "\<exists>f s'. sys_fpage_alloc 10 VM 4096 sample_mm = Ret (f, s') \<and> L4_SizeLog2 f = 12 \<and>
    page_addrs f \<subseteq> {0x40000..<0x42000} \<and> free_addrs (vm_alloc s') = {0x40000..<0x42000} - page_addrs f"
proof -
  have "pools_ok sample_mm" "alloc_ok (min_bits sample_mm) (allocator VM sample_mm)" "nodes_ok VM sample_mm"
    "10 \<le> min_bits sample_mm" "sz_order (min_bits sample_mm) 4096 = Some 0" "0 \<le> (1::nat)" "1 < MAX_FPAGE_ORDER"
    "flist (allocator VM sample_mm) 1 \<noteq> []" "MAX_FPAGE_ORDER \<le> length (avail FP_cache sample_mm)"
    using sample_pools_ok sample_vm_ok sample_nodes_ok sample_order by simp_all
  from fpage_alloc_correct [OF this, of 9] show ?thesis using sample_vm_ok by auto
qed

lemma numeral_18_is_20: "Suc (Suc 18) = 20"
  by simp

theorem fpage_free_chunk_correct_witness:
  "\<exists>s'. sys_fpage_free_chunk 20 VM 0x50000 0x53fff sample_mm = Ret s' \<and>
    free_addrs (vm_alloc s') = {0x40000..<0x42000} \<union> {0x50000..0x53fff}"
proof -
  have dj: "{0x50000..0x53fff} \<inter> {0x40000..<(0x42000 :: nat)} = {}" by auto
  have "pools_ok sample_mm" "alloc_ok (min_bits sample_mm) (allocator VM sample_mm)"
    "10 \<le> min_bits sample_mm" "min_bits sample_mm < 31" "\<not> int_active (allocator VM sample_mm)"
    "page_range (min_bits sample_mm) 0x50000 0x53fff"
    "{unat (0x50000 :: u64)..unat (0x53fff :: u64)} \<inter> free_addrs (allocator VM sample_mm) = {}"
    "unat (0x53fff :: u64) + 1 - unat (0x50000 :: u64) \<le> 4 * 2 ^ min_bits sample_mm"
    "4 \<le> length (avail FP_cache sample_mm)" "(4::nat) < 18"
    using sample_pools_ok sample_vm_ok dj by (simp_all add: page_range_def)
  from fpage_free_chunk_correct [OF this] show ?thesis
    using sample_vm_ok unfolding numeral_18_is_20 by auto
qed

end
