(* ===== verification/Mem_Sections.thy ===== *)
theory Mem_Sections
  imports Page_Pool Boot
begin

unbundle bit_operations_syntax

text \<open>
  Properties of memory sections and of the slabs they are made of: slabs are handed out and taken
  back without loss, an address of a section is backed by the page of its list that covers it, and
  \<open>sys$back_mem\<close> reports success for user-paged sections without mapping anything into them.
\<close>

section \<open>Slabs\<close>

text \<open>C22: a slab taken from a cache with slabs left and given back makes the cache's stock of slabs
  what it was, and neither step touches the stock of another cache or allocates a page.\<close>

theorem slab_alloc_free_restores:
  assumes "pools_ok s" "avail sc s = x # xs" "sys_objtable_lookup x s = Ret p" "p \<in> set (pools s sc)"
  shows "\<exists>s1 s2. sys_slab_cache_alloc (Suc n) sc s = Ret (x, s1) \<and> sys_slab_cache_free x s1 = Ret s2 \<and>
    avail sc s1 = xs \<and> mset (avail sc s2) = mset (avail sc s) \<and>
    (\<forall>sc'. sc' \<noteq> sc \<longrightarrow> avail sc' s1 = avail sc' s \<and> avail sc' s2 = avail sc' s) \<and>
    (\<forall>w. allocator w s2 = allocator w s) \<and> effects s2 = effects s \<and> pools_ok s2"
proof -
  obtain s1 where s1: "sys_slab_cache_alloc (Suc n) sc s = Ret (x, s1)" "x \<noteq> 0" "avail sc s1 = xs"
    "\<And>sc'. sc' \<noteq> sc \<Longrightarrow> avail sc' s1 = avail sc' s" "pools_ok s1" "same_shape s s1"
    "\<And>w. allocator w s1 = allocator w s" "effects s1 = effects s"
    by (rule slab_alloc_avail [OF assms(1,2), of n]) (rule that)
  have lk: "sys_objtable_lookup x s1 = Ret p" "p \<in> set (pools s1 sc)"
    using lookup_shape [OF s1(6)] assms(3,4) s1(6) by (simp_all add: same_shape_def)
  obtain s2 where s2: "sys_slab_cache_free x s1 = Ret s2" "mset (avail sc s2) = add_mset x (mset (avail sc s1))"
    "\<And>sc'. sc' \<noteq> sc \<Longrightarrow> avail sc' s2 = avail sc' s1" "pools_ok s2"
    "\<And>w. allocator w s2 = allocator w s1" "effects s2 = effects s1"
    by (rule slab_free_avail [OF s1(5) lk s1(2)]) (rule that)
  show ?thesis
    by (rule exI [of _ s1], rule exI [of _ s2])
      (use s1 s2 assms(2) in \<open>simp del: sys_slab_cache_alloc.simps\<close>)
qed

theorem slab_alloc_free_restores_witness:
  "\<exists>s1 s2. sys_slab_cache_alloc 1 FP_cache sample_mm = Ret (0x10000, s1) \<and> sys_slab_cache_free 0x10000 s1 = Ret s2 \<and>
     mset (avail FP_cache s2) = mset (avail FP_cache sample_mm)"
proof -
  have av: "avail FP_cache sample_mm = 0x10000 # map (\<lambda>i. 0x10000 + 24 * of_nat i) [1..<70]"
    by (simp add: sample_avail sample_pool_def upt_conv_Cons)
  have o: "objtable sample_mm = None" "internal_memsections sample_mm = [0x20010]" by (simp_all add: sample_mm_def)
  have "sys_objtable_lookup 0x10000 sample_mm = lookup_internal (sections sample_mm) [0x20010] 0x10000"
    unfolding sys_objtable_lookup_def o by (simp add: BTSearch_def del: lookup_internal.simps)
  then have lk: "sys_objtable_lookup 0x10000 sample_mm = Ret 0x20010" "0x20010 \<in> set (pools sample_mm FP_cache)"
    by (simp_all add: sample_pool_def)
  from slab_alloc_free_restores [OF sample_pools_ok av lk, of 0] show ?thesis by auto
qed

section \<open>Backing\<close>

definition page_len :: "fnode \<Rightarrow> nat" where
  "page_len x = 2 ^ L4_SizeLog2 (fn_fpage x)"

text \<open>C27: \<open>sys$memsection_lookup_phys\<close> gives, for an address at distance \<open>d\<close> from the start of a page
  of the section's list, the physical address at the same distance from the start of that page.\<close>

theorem lookup_phys_correct:
  assumes "ms_phys m = PhysList (ys @ x # zs)" "\<forall>y \<in> set (ys @ [x]). 0 < L4_SizeLog2 (fn_fpage y)"
    and "unat a = unat (ms_base m) + (\<Sum>y \<leftarrow> ys. page_len y) + d" "d < page_len x"
    and "unat (ms_base m) + (\<Sum>y \<leftarrow> ys @ [x]. page_len y) < 2 ^ 64"
  shows "sys_memsection_lookup_phys m a = Ret (L4_Address (fn_fpage x) + of_nat d)"
proof -
  have "lookup_phys (ys @ x # zs) v a = Ret (L4_Address (fn_fpage x) + of_nat d)"
    if "\<forall>y \<in> set (ys @ [x]). 0 < L4_SizeLog2 (fn_fpage y)" "unat a = unat v + (\<Sum>y \<leftarrow> ys. page_len y) + d"
      "unat v + (\<Sum>y \<leftarrow> ys @ [x]. page_len y) < 2 ^ 64" for v ys
    using that
  proof (induction ys arbitrary: v)
    case Nil
    have sz: "unat (L4_Size (fn_fpage x)) = page_len x" using Nil(1) by (simp add: Size_SizeLog2 page_len_def)
    have "unat (v + L4_Size (fn_fpage x)) = unat v + page_len x"
      using unat_add_no_wrap [of v "L4_Size (fn_fpage x)"] sz Nil(3) by simp
    then have "v \<le> a" "a < v + L4_Size (fn_fpage x)"
      using Nil(2) assms(4) by (simp_all add: word_le_nat_alt word_less_nat_alt)
    moreover have "(of_nat (unat a) :: u64) = of_nat (unat v + d)" using Nil(2) by simp
    then have "a - v = of_nat d" by simp
    ultimately show ?case by simp
  next
    case (Cons y ys)
    have sz: "unat (L4_Size (fn_fpage y)) = page_len y" using Cons.prems(1) by (simp add: Size_SizeLog2 page_len_def)
    have v: "unat (v + L4_Size (fn_fpage y)) = unat v + page_len y"
      using unat_add_no_wrap [of v "L4_Size (fn_fpage y)"] sz Cons.prems(3) by simp
    have "\<not> a < v + L4_Size (fn_fpage y)" using Cons.prems(2) v by (simp add: word_less_nat_alt)
    moreover have "lookup_phys (ys @ x # zs) (v + L4_Size (fn_fpage y)) a = Ret (L4_Address (fn_fpage x) + of_nat d)"
      by (rule Cons.IH) (use Cons.prems v in simp_all)
    ultimately show ?case by simp
  qed
  from this [OF assms(2,3,5)] show ?thesis using assms(1) by (simp add: sys_memsection_lookup_phys_def)
qed

theorem lookup_phys_correct_witness:
  "sys_memsection_lookup_phys (zero_memsection\<lparr>ms_base := 0x40000, ms_phys := PhysList
     [\<lparr>fn_addr = 8, fn_fpage = L4_FpageLog2 0x80000 12\<rparr>, \<lparr>fn_addr = 16, fn_fpage = L4_FpageLog2 0xa0000 13\<rparr>]\<rparr>) 0x41234 =
   Ret (L4_Address (L4_FpageLog2 0xa0000 13) + of_nat 0x234)"
  using lookup_phys_correct [of "zero_memsection\<lparr>ms_base := 0x40000, ms_phys := PhysList
      [\<lparr>fn_addr = 8, fn_fpage = L4_FpageLog2 0x80000 12\<rparr>, \<lparr>fn_addr = 16, fn_fpage = L4_FpageLog2 0xa0000 13\<rparr>]\<rparr>"
      "[\<lparr>fn_addr = 8, fn_fpage = L4_FpageLog2 0x80000 12\<rparr>]" "\<lparr>fn_addr = 16, fn_fpage = L4_FpageLog2 0xa0000 13\<rparr>" "[]"
      "0x41234" "0x234"]
  by (simp add: page_len_def fpage_simps)

section \<open>User-paged sections\<close>

text \<open>When \<open>sys$back_mem\<close> gets past its own check, the section is user-paged; then the mapping of
  the page it has just allocated is refused, the refusal is dropped, and 0 is returned in the state
  that the allocation of the page left: nothing is mapped at the address asked for.\<close>

theorem back_mem_maps_nothing:
  assumes "sys_objtable_lookup b s = Ret ms" "ms \<noteq> 0" "sections s ms = Some m" "ms_flags m AND VMS_MEM_USER \<noteq> 0"
    and "sys_pd_create_memsection n pd pagesize 0 VMS_MEM_NORMAL pagesize s = Ret (backed, s')" "backed \<noteq> 0"
    and "sections s' backed \<noteq> None" "sections s' ms = Some m'" "ms_flags m' = ms_flags m"
    and "b < e" "\<not> b + pagesize < e"
  shows "sys_back_mem n (Suc (Suc k)) pd b e pagesize s = Ret (0, s')"
proof -
  have "sys_memsection_page_map ms f g s' = Ret (-1, s')" for f g
    using assms(4,8,9) by (simp add: sys_memsection_page_map_def get_ms_def)
  then show ?thesis using assms by (auto simp: sys_back_mem_def get_ms_def)
qed


text \<open>A state with one page of each kind, one slab in each of two caches, and a user-paged section.\<close>

definition page_at :: "u64 \<Rightarrow> fpage" where "page_at b = L4_FpageLog2 b 12"

lemma page_at_simps:
  "L4_SizeLog2 (page_at b) = 12" "L4_Size (page_at b) = 4096" "\<not> L4_IsNilFpage (page_at b)"
  "2 ^ 12 dvd unat b \<Longrightarrow> L4_Address (page_at b) = b" "L4_FpageLog2 b 12 = page_at b"
proof -
  show "L4_SizeLog2 (page_at b) = 12" by (simp add: page_at_def fpage_simps)
  then show "L4_Size (page_at b) = 4096" by (auto simp: L4_Size_def L4_SizeLog2_def push_bit_eq_mult)
qed (simp_all add: page_at_def fpage_simps FpageLog2_not_nil aligned_and_not_mask)

definition user_heap :: memsection where
  "user_heap = \<lparr>ms_base = 0x70000, ms_end = 0x73fff, ms_flags = 9, ms_phys = PhysList [], ms_slab_cache = None, ms_slabs = []\<rparr>"

definition user_mm :: mm where
  "user_mm = \<lparr>min_bits = 12,
     vm_alloc = idle_alloc\<lparr>flist := (\<lambda>_. [])(0 := [\<lparr>fn_addr = 0x10f00, fn_fpage = page_at 0x40000\<rparr>])\<rparr>,
     pm_alloc = idle_alloc\<lparr>flist := (\<lambda>_. [])(0 := [\<lparr>fn_addr = 0x10f18, fn_fpage = page_at 0x80000\<rparr>])\<rparr>,
     sections = [0x20010 \<mapsto> sample_pool\<lparr>ms_slabs := [0x10000]\<rparr>,
       0x30010 \<mapsto> \<lparr>ms_base = 0x30000, ms_end = 0x30fff, ms_flags = 0, ms_phys = PhysBase 0x90000,
         ms_slab_cache = Some MS_cache, ms_slabs = [0x30060]\<rparr>, 0x300d0 \<mapsto> user_heap],
     pools = (\<lambda>_. [])(FP_cache := [0x20010], MS_cache := [0x30010]),
     internal_memsections = [0x20010, 0x30010, 0x300d0], pd_memsections = (\<lambda>_. []),
     objtable = None, vms_pd_initialized = False, effects = []\<rparr>"

lemma biggest_one_page: "sys_biggest_fpage 12 0x40000 0x40000 0x40fff = page_at 0x40000"
  by (simp add: sys_biggest_fpage_def vms_min_pagesize_def Let_def biggest_bits.simps [of 12] page_at_simps)

lemma first_hit: "fl 0 \<noteq> [] \<Longrightarrow> first_order fl 0 MAX_FPAGE_ORDER = 0"
  using first_order_spec [of 0 fl MAX_FPAGE_ORDER] by force

lemmas section_eval = user_mm_def user_heap_def sample_pool_def idle_alloc_def get_ms_def put_ms_def
  sys_objtable_lookup_def BTSearch_def bt_codes take_slab_def sys_slab_cache_free_def sys_memsection_new_def
  zero_memsection_def data_offset_def objtable_setup_def objtable_setup_internal_def sys_fpage_alloc_chunk_def
  sys_fpage_alloc_def find_order_def sys_fp_order_def page_at_simps sample_order biggest_one_page mem_flag_defs
  sys_fpage_alloc_list_def INVALID_ADDR_def sys_memsection_back_def objtable_insert_def append_section_def
  sys_pd_create_memsection_def emit_def first_hit

lemma user_create:
  "\<exists>p s'. sys_pd_create_memsection (Suc (Suc (Suc 0))) 0 4096 0 VMS_MEM_NORMAL 4096 user_mm = Ret (p, s') \<and> p \<noteq> 0 \<and>
     sections s' p \<noteq> None \<and> sections s' 0x300d0 = Some user_heap"
  by (simp add: section_eval Let_def del: bindo_eq_Ret_iff max_order)

theorem back_mem_maps_nothing_witness:
  "\<exists>p s'. sys_pd_create_memsection (Suc (Suc (Suc 0))) 0 4096 0 VMS_MEM_NORMAL 4096 user_mm = Ret (p, s') \<and>
     sys_back_mem (Suc (Suc (Suc 0))) (Suc (Suc 0)) 0 0x70000 0x70fff 4096 user_mm = Ret (0, s')"
proof -
  obtain p s' where c: "sys_pd_create_memsection (Suc (Suc (Suc 0))) 0 4096 0 VMS_MEM_NORMAL 4096 user_mm = Ret (p, s')"
    "p \<noteq> 0" "sections s' p \<noteq> None" "sections s' 0x300d0 = Some user_heap" using user_create by blast
  have "sys_objtable_lookup 0x70000 user_mm = Ret 0x300d0" "sections user_mm 0x300d0 = Some user_heap"
    "ms_flags user_heap AND VMS_MEM_USER \<noteq> 0"
    by (simp_all add: section_eval del: bindo_eq_Ret_iff)
  from back_mem_maps_nothing [OF this(1) _ this(2,3) c _, of "0x70fff" 0] c(1) show ?thesis by auto
qed

section \<open>Sections of initial objects\<close>

text \<open>The section that \<open>sys$populate_init_objects\<close> makes for an object ends one byte before the
  object does: the table's \<open>end\<close> is the last byte, but it is used as the first byte behind.\<close>

theorem populate_misses_last_byte:
  assumes "pools_ok s" "avail MS_cache s = x # xs" "\<not> vms_pd_initialized s" "io_flags obj AND IOF_VIRT \<noteq> 0"
    and "sys_populate_init_objects (Suc n) pd pagesize [obj] s = Ret s'"
  shows "\<exists>m. sections s' (x + data_offset) = Some m \<and> ms_base m = sys_page_round_down (io_base obj) pagesize \<and>
    ms_end m = io_end obj - 1"
proof -
  let ?lo = "sys_page_round_down (io_base obj) pagesize"
  obtain s1 where s1: "sys_slab_cache_alloc (Suc n) MS_cache s = Ret (x, s1)" "x \<noteq> 0" "same_shape s s1"
    by (rule slab_alloc_avail [OF assms(1,2), of n]) (blast intro: that)
  have "\<not> vms_pd_initialized s1" using s1(3) assms(3) by (simp add: same_shape_def)
  then show ?thesis
    using assms(3,4,5) s1(1,2)
    by (auto simp: sys_pd_create_memsection_def sys_memsection_new_def objtable_setup_internal_def mem_flag_defs get_ms_def
        objtable_insert_def put_ms_def sys_memsection_back_def Let_def emit_def append_section_def
        simp del: sys_slab_cache_alloc.simps split: if_splits)
qed

theorem populate_misses_last_byte_witness:
  "\<exists>s' m. sys_populate_init_objects (Suc (Suc 0)) 0 4096
      [\<lparr>io_name = [], io_flags = IOF_VIRT, io_base = 0x100200, io_end = 0x101fff, io_entry = 0\<rparr>] user_mm = Ret s' \<and>
    sections s' 0x30070 = Some m \<and> ms_base m = 0x100000 \<and> ms_end m = 0x101ffe"
proof -
  let ?obj = "\<lparr>io_name = [], io_flags = IOF_VIRT, io_base = 0x100200, io_end = 0x101fff, io_entry = 0\<rparr>"
  have ok: "pools_ok user_mm" and av: "avail MS_cache user_mm = 0x30060 # []" and ni: "\<not> vms_pd_initialized user_mm"
    and fl: "io_flags ?obj AND IOF_VIRT \<noteq> 0"
    by (auto simp: pools_ok_def avail_def pool_slabs_def user_mm_def sample_pool_def iof_defs split: if_splits)
  obtain s' where r: "sys_populate_init_objects (Suc (Suc 0)) 0 4096 [?obj] user_mm = Ret s'"
    by (simp add: section_eval iof_defs Let_def sys_page_round_down_def del: bindo_eq_Ret_iff max_order)
  have "sys_page_round_down 0x100200 4096 = 0x100000" by (simp add: sys_page_round_down_def)
  then show ?thesis using populate_misses_last_byte [OF ok av ni fl r] r by (auto simp: data_offset_def)
qed

end
