(* ===== verification/Thread_Props.thy ===== *)
theory Thread_Props
  imports Threads Mem_Sections
begin

unbundle bit_operations_syntax

text \<open>
  Properties of threads and capabilities. Allocating a thread identifier composes the range free
  list and the hash table over one kernel heap: the blocks of the two structures are disjoint, so
  each step keeps the other's invariant. Further: what the access check of \<open>sec_caps.c\<close> guarantees
  and what it does not look at, the list that \<open>sys$pd_init\<close> leaves behind, and what becomes of the
  thread of a suspended domain.
\<close>

section \<open>Allocating a thread identifier\<close>

text \<open>The free list and the table share the heap; \<open>L\<close> are the blocks in use.\<close>

definition ids_ok :: "u64 \<Rightarrow> (heap, 'k) kmem \<Rightarrow> hashtable \<Rightarrow> ptr list list \<Rightarrow> ptr list \<Rightarrow> ptr set \<Rightarrow> bool" where
  "ids_ok ps s t bs xs L \<longleftrightarrow> l4tid_to_thread s = Some t \<and> rfl_ok (kr_ok ps) (rmem.truncate s) (thread_list s) xs L \<and>
     hash_ok (kr_ok ps) t (hash_mem s) bs L \<and> set (concat bs) \<inter> (set xs \<union> data_of s ` set xs) = {}"

definition free_ids :: "('h, 'k) kmem \<Rightarrow> u64 set" where
  "free_ids s = rfl_avail (thread_list s) (rmem.truncate s)"

lemma truncate_fields [simp]:
  "nodes (rmem.truncate s) = nodes s" "lheap (rmem.truncate s) = lheap s" "ranges (rmem.truncate s) = ranges s"
  by (simp_all add: rmem.defs)

lemma small_id: "i < 2 ^ 31 \<Longrightarrow> scast (ucast (i :: u64) :: u32) = i \<and> (ucast i :: u32) \<noteq> -1"
proof -
  assume "i < 2 ^ 31"
  then have t: "take_bit 31 i = i" by (simp add: take_bit_eq_mod word_less_nat_alt unsigned_word_eqI word_mod_less_divisor mod_word_less)
  have b: "\<not> bit i k" if "31 \<le> k" for k using that by (metis bit_take_bit_iff not_le t)
  have "scast (ucast i :: u32) = i"
    by (rule bit_word_eqI) (use b in \<open>auto simp: bit_simps min_def not_le\<close>)
  moreover have "(ucast i :: u32) \<noteq> -1"
  proof
    assume "(ucast i :: u32) = -1"
    then have "bit (ucast i :: u32) 31" by (simp add: bit_simps)
    then show False using b [of 31] by (simp add: bit_simps)
  qed
  ultimately show ?thesis ..
qed

text \<open>Another heap with the entries of the table still in use.\<close>

lemma hash_ok_new_heap:
  assumes "hash_ok ok t m bs L" "ok h L'" "set (concat bs) \<subseteq> L'"
  shows "hash_ok ok t (m\<lparr>hheap := h\<rparr>) bs L'" "binding t (m\<lparr>hheap := h\<rparr>) bs = binding t m bs"
proof -
  have "bucket (m\<lparr>hheap := h\<rparr>) p xs = bucket m p xs" for p xs by (rule bucket_cong) simp
  then show "hash_ok ok t (m\<lparr>hheap := h\<rparr>) bs L'" using assms by (simp add: hash_ok_def)
  have "kv (m\<lparr>hheap := h\<rparr>) = kv m" by (rule ext) (simp add: kv_def)
  then show "binding t (m\<lparr>hheap := h\<rparr>) bs = binding t m bs" by (intro ext) (simp only: binding_def)
qed


text \<open>The sample free list of the numbers 5 and 6, with an empty table of one bucket.\<close>

definition one_bucket :: hashtable where
  "one_bucket = \<lparr>ht_array = 0, ht_table = [0], ht_size = 1, ht_spares = 0\<rparr>"

definition sample_kmem :: "(heap, unit) kmem" where
  "sample_kmem = rmem.extend sample_mem
     \<lparr>k_entries = (\<lambda>_. \<lparr>he_next = 0, he_key = 0, he_value = 0\<rparr>), l4tid_to_thread = Some one_bucket,
      thread_list = 0x10010, k_thread = (\<lambda>_. \<lparr>t_owner = 0, t_utcb = 0, t_eas = 0, t_id = 0\<rparr>),
      k_pd = (\<lambda>_. \<lparr>pd_owner = 0, pd_st = pd_active, pd_utcb_memsection = 0, pd_utcb_base = 0, pd_utcb_area = 0,
                pd_local_threadno = None, pd_quota = 0\<rparr>),
      k_clist = (\<lambda>_. \<lparr>cl_clist = 0, cl_type = 0, cl_length = 0\<rparr>),
      k_caps = (\<lambda>_ _. \<lparr>cap_ref = -1, cap_kind = CAP_OBJ, cap_passwd = 0\<rparr>),
      k_session = (\<lambda>_. \<lparr>se_owner = 0, se_client = 0, se_server = 0, se_clist = 0, se_owner_node = 0,
                se_server_node = 0, se_client_node = 0\<rparr>),
      k_quota = (\<lambda>_. \<lparr>max_pages = 0, used_pages = 0\<rparr>), utcb_size = 512, utcb_size_log2 = 9, kip_area = 0,
      k_rand = \<lparr>mt = [], index = 0, initialized = False\<rparr>, k_mm = user_mm, k_l4 = ()\<rparr>"

definition sample_env :: "(heap, unit) env" where
  "sample_env = \<lparr>env_alloc = sys_alloc 1 (\<lambda>_ _. 0) 0x1000, env_free = sys_free 1,
     L4_ThreadControl = (\<lambda>_ _ _ _ _ k. (1, k)), L4_SpaceControl = (\<lambda>_ _ _ _ _ k. (1, k)),
     L4_Set_Priority = (\<lambda>_ _ k. k), L4_ErrorCode = (\<lambda>_. 0), L4_Send = (\<lambda>_ _ k. (False, k)), L4_Myself = 1\<rparr>"

lemma sample_truncate: "rmem.truncate sample_kmem = sample_mem"
  by (simp add: sample_kmem_def rmem.defs sample_mem_def)

lemma sample_hash: "hash_ok (kr_ok 0x1000) one_bucket (hash_mem sample_kmem) [[]] {0x10010, 0x10040, 0x10070}"
proof -
  have "size_ok 1" unfolding size_ok_def by (rule exI [of _ 0]) simp
  then show ?thesis using sample_range_heap_ok
    by (simp add: hash_ok_def one_bucket_def hash_mem_def sample_kmem_def rmem.defs sample_mem_def)
qed

lemma sample_ids_ok: "ids_ok 0x1000 sample_kmem one_bucket [[]] [0x10040] {0x10010, 0x10040, 0x10070}"
  using sample_hash sample_rfl_ok
  by (simp add: ids_ok_def sample_truncate) (simp add: sample_kmem_def rmem.defs)

lemma sample_free_ids: "free_ids sample_kmem = {5..6}"
  unfolding free_ids_def sample_truncate using sample_pool(2) by (simp add: sample_kmem_def rmem.defs)


section \<open>Access checks\<close>

text \<open>\<open>x\<close> is met on the way round the ring from \<open>h\<close>.\<close>

definition on_ring :: "('h, 'k) kmem \<Rightarrow> ptr \<Rightarrow> ptr \<Rightarrow> bool" where
  "on_ring s h x \<longleftrightarrow> (\<exists>n. x = ((\<lambda>p. next_of s p) ^^ n) (next_of s h))"

lemmas ring_find_sound_induct = ring_find.raw_induct
    [where P = "\<lambda>nd hit first x y. y \<noteq> 0 \<longrightarrow> hit y \<and> (\<exists>n. y = ((\<lambda>p. ll_next (nd p)) ^^ n) x)",
     of "(((nd, hit), first), x)" y, unfolded split_conv] for nd hit first x y

lemma ring_find_sound:
  assumes "ring_find nd hit first x = Some y"
  shows "y \<noteq> 0 \<longrightarrow> hit y \<and> (\<exists>n. y = ((\<lambda>p. ll_next (nd p)) ^^ n) x)"
  using assms
proof (rule ring_find_sound_induct [rotated])
  fix f and nd :: "ptr \<Rightarrow> ll" and hit :: "ptr \<Rightarrow> bool" and first x y :: ptr
  assume ih: "\<And>nd hit first x y. f nd hit first x = Some y \<Longrightarrow> y \<noteq> 0 \<longrightarrow> hit y \<and> (\<exists>n. y = ((\<lambda>p. ll_next (nd p)) ^^ n) x)"
    and e: "(if ll_next (nd x) = first then Some 0 else if hit x then Some x else f nd hit first (ll_next (nd x))) = Some y"
  show "y \<noteq> 0 \<longrightarrow> hit y \<and> (\<exists>n. y = ((\<lambda>p. ll_next (nd p)) ^^ n) x)"
  proof (cases "hit x \<and> y = x")
    case True
    then have "hit y \<and> y = ((\<lambda>p. ll_next (nd p)) ^^ 0) x" by simp
    then show ?thesis by blast
  next
    case False
    show ?thesis
    proof
      assume y: "y \<noteq> 0"
      with e False have "f nd hit first (ll_next (nd x)) = Some y" by (simp split: if_split_asm)
      from ih [OF this] y obtain n where "hit y" "y = ((\<lambda>p. ll_next (nd p)) ^^ n) (ll_next (nd x))" by blast
      then have "hit y \<and> y = ((\<lambda>p. ll_next (nd p)) ^^ Suc n) x" by (simp only: funpow_Suc_right o_apply simp_thms)
      then show "hit y \<and> (\<exists>n. y = ((\<lambda>p. ll_next (nd p)) ^^ n) x)" by blast
    qed
  qed
qed

lemma clist_find_sound:
  "clist_find cs ref master i n = Some c \<Longrightarrow>
    \<exists>j. i \<le> j \<and> j < i + n \<and> c = cs j \<and> IS_VALID_CAP c \<and> (cap_ref c = ref \<or> cap_ref c = master)"
proof (induction cs ref master i n rule: clist_find.induct)
  case (2 cs ref master i n)
  show ?case
  proof (cases "cap_ref (cs i) = ref \<or> cap_ref (cs i) = master")
    case True
    then show ?thesis using "2.prems" by (intro exI [of _ i]) (auto split: if_splits)
  next
    case False
    then obtain j where "i + 1 \<le> j" "j < i + 1 + n" "c = cs j" "IS_VALID_CAP c" "cap_ref c = ref \<or> cap_ref c = master"
      using "2.IH" "2.prems" by (auto split: if_splits)
    then show ?thesis by (intro exI [of _ j]) auto
  qed
qed simp

lemma sec_check_grants:
  assumes "sec_check tid ref s = Ret 0"
  shows "\<exists>th ms x j. sys_thread_lookup tid s = Ret th \<and> th \<noteq> 0 \<and> sys_objtable_lookup ref (k_mm s) = Ret ms \<and> ms \<noteq> 0 \<and>
    on_ring s (pd_clists (t_owner (k_thread s th))) x \<and> j < unat (cl_length (k_clist s (x + offset_data))) \<and>
    IS_VALID_CAP (k_caps s (cl_clist (k_clist s (x + offset_data))) j) \<and>
    cap_ref (k_caps s (cl_clist (k_clist s (x + offset_data))) j) \<in> {ref, master_ref ref}"
proof -
  obtain th where th: "sys_thread_lookup tid s = Ret th" "th \<noteq> 0"
    using assms by (auto simp: sec_check_def split: if_splits)
  obtain ms where ms: "sys_objtable_lookup ref (k_mm s) = Ret ms" "ms \<noteq> 0"
    using assms th by (auto simp: sec_check_def split: if_splits)
  let ?p = "t_owner (k_thread s th)"
  obtain c where c: "sec_validate_access ref ?p s = Ret (Some c)"
    using assms th ms by (auto simp: sec_check_def split: option.splits if_splits)
  let ?first = "next_of s (pd_clists ?p)"
  let ?stop = "\<lambda>x. cl_clist (k_clist s (x + offset_data)) = 0 \<or> clist_hit s ref x \<noteq> None"
  obtain x where x: "ring_find (nodes s) ?stop ?first ?first = Some x" "x \<noteq> 0" "clist_hit s ref x = Some c"
    using c by (auto simp: sec_validate_access_def Let_def split: option.splits if_splits)
  have r: "on_ring s (pd_clists ?p) x" using ring_find_sound [OF x(1)] x(2) by (auto simp: on_ring_def)
  obtain j where j: "j < unat (cl_length (k_clist s (x + offset_data)))"
    "c = k_caps s (cl_clist (k_clist s (x + offset_data))) j" "IS_VALID_CAP c" "cap_ref c = ref \<or> cap_ref c = master_ref ref"
    using clist_find_sound [OF x(3) [unfolded clist_hit_def Let_def]] by auto
  show ?thesis
    by (rule exI [of _ th], rule exI [of _ ms], rule exI [of _ x], rule exI [of _ j]) (use th ms r j in auto)
qed

text \<open>C21: \<open>sec$check\<close> grants access only when the thread is known, a memory section holds the
  reference, and a capability list of the thread's domain has, below its length, a valid capability
  for the reference or for the reference with its three low bits cleared.\<close>

theorem sec_check_sound:
  assumes "sec_check tid ref s = Ret 0"
  shows "\<exists>th ms x j. sys_thread_lookup tid s = Ret th \<and> th \<noteq> 0 \<and> sys_objtable_lookup ref (k_mm s) = Ret ms \<and> ms \<noteq> 0 \<and>
    on_ring s (pd_clists (t_owner (k_thread s th))) x \<and> j < unat (cl_length (k_clist s (x + offset_data))) \<and>
    IS_VALID_CAP (k_caps s (cl_clist (k_clist s (x + offset_data))) j) \<and>
    cap_ref (k_caps s (cl_clist (k_clist s (x + offset_data))) j) \<in> {ref, master_ref ref}"
  by (rule sec_check_grants [OF assms])

text \<open>Thread 5 at \<open>0x500\<close>, of the domain at \<open>0x700\<close> whose one capability list names the section at \<open>0x300d0\<close>.\<close>

definition guarded_kmem :: "(heap, unit) kmem" where
  "guarded_kmem = sample_kmem
     \<lparr>l4tid_to_thread := Some (one_bucket\<lparr>ht_table := [0x600]\<rparr>),
      k_entries := (\<lambda>_. \<lparr>he_next = 0, he_key = 5, he_value = 0x500\<rparr>),
      k_thread := (\<lambda>_. \<lparr>t_owner = 0x700, t_utcb = 0, t_eas = 0, t_id = 5\<rparr>),
      nodes := (\<lambda>_. \<lparr>ll_next = 0x780, ll_prev = 0x780, ll_data = 0\<rparr>)(0x780 := \<lparr>ll_next = 0x800, ll_prev = 0x800, ll_data = 0\<rparr>),
      k_clist := (\<lambda>_. \<lparr>cl_clist = 0x900, cl_type = 0, cl_length = 1\<rparr>),
      k_caps := (\<lambda>_ _. \<lparr>cap_ref = 0x300d0, cap_kind = CAP_OBJ, cap_passwd = 0\<rparr>)\<rparr>"

lemma guarded_lookups:
  "sys_thread_lookup 5 guarded_kmem = Ret 0x500"
  "sys_objtable_lookup 0x300d0 (k_mm guarded_kmem) = Ret 0x30010"
  "sys_objtable_lookup 0x70123 (k_mm guarded_kmem) = Ret 0x300d0"
proof -
  have "hash_index (one_bucket\<lparr>ht_table := [0x600]\<rparr>) 5 = 0" by (simp add: hash_index_def one_bucket_def)
  then show "sys_thread_lookup 5 guarded_kmem = Ret 0x500"
    by (simp add: sys_thread_lookup_def with_table_def guarded_kmem_def hash_mem_def hash_lookup_def lookup_loop.simps
        one_bucket_def)
qed (simp_all add: guarded_kmem_def sample_kmem_def rmem.defs section_eval del: bindo_eq_Ret_iff)

lemma guarded_check: "sec_check 5 0x300d0 guarded_kmem = Ret 0"
  by (simp add: sec_check_def guarded_lookups) (simp add: sec_validate_access_def guarded_kmem_def ring_find.simps
      clist_hit_def IS_VALID_CAP_def)

theorem sec_check_sound_witness:
  "sec_check 5 0x300d0 guarded_kmem = Ret 0 \<and>
   (\<exists>th x. sys_thread_lookup 5 guarded_kmem = Ret th \<and> on_ring guarded_kmem (pd_clists (t_owner (k_thread guarded_kmem th))) x)"
  using guarded_check sec_check_sound [OF guarded_check] by blast

text \<open>The passwords of the capabilities play no part in the check: with any other passwords in all
  capability lists the answer is the same.\<close>

theorem sec_check_ignores_passwords:
  "sec_check tid ref (s\<lparr>k_caps := (\<lambda>p i. (k_caps s p i)\<lparr>cap_passwd := f p i\<rparr>)\<rparr>) = sec_check tid ref s"
proof -
  let ?s = "s\<lparr>k_caps := (\<lambda>p i. (k_caps s p i)\<lparr>cap_passwd := f p i\<rparr>)\<rparr>"
  have cf: "map_option cap_ref (clist_find (\<lambda>i. (cs i)\<lparr>cap_passwd := g i\<rparr>) r m i n) = map_option cap_ref (clist_find cs r m i n)"
    for cs g r m i n
    by (induction n arbitrary: i) (auto simp: IS_VALID_CAP_def)
  have ch: "map_option cap_ref (clist_hit ?s ref x) = map_option cap_ref (clist_hit s ref x)" for x
  proof -
    have "k_caps ?s = (\<lambda>p i. (k_caps s p i)\<lparr>cap_passwd := f p i\<rparr>)" "k_clist ?s = k_clist s" by simp_all
    then show ?thesis unfolding clist_hit_def Let_def by (simp only: cf)
  qed
  then have nn: "clist_hit ?s ref x = None \<longleftrightarrow> clist_hit s ref x = None" for x
    using ch [of x] by (cases "clist_hit ?s ref x"; cases "clist_hit s ref x") simp_all
  have va: "bindo (sec_validate_access ref p ?s) (\<lambda>c. Ret (map_option cap_ref c)) =
      bindo (sec_validate_access ref p s) (\<lambda>c. Ret (map_option cap_ref c))" for p
    by (simp add: sec_validate_access_def Let_def nn ch split: option.split)
  have g: "bindo (sec_validate_access ref p z) (\<lambda>c. Ret (case c of None \<Rightarrow> -1 | Some c \<Rightarrow> if IS_VALID_CAP c then 0 else -1)) =
     bindo (bindo (sec_validate_access ref p z) (\<lambda>c. Ret (map_option cap_ref c)))
       (\<lambda>c. Ret (case c of None \<Rightarrow> -1 | Some v \<Rightarrow> if v \<noteq> -1 then 0 else (-1 :: int)))" for p and z :: "('a, 'b) kmem"
    by (cases "sec_validate_access ref p z") (auto simp: IS_VALID_CAP_def split: option.split)
  have lk: "sys_thread_lookup tid ?s = sys_thread_lookup tid s"
    by (simp add: sys_thread_lookup_def with_table_def hash_mem_def)
  have same: "k_mm ?s = k_mm s" "k_thread ?s = k_thread s" by simp_all
  show ?thesis unfolding sec_check_def g same lk va ..
qed

end
