(* ===== verification/Command_Line.thy ===== *)
theory Command_Line
  imports Prelude
begin

text \<open>
  The reading of boot parameters, \<open>sys/sys_parsing.c\<close>, and the alphabets of the device and name
  trees, \<open>sys/dev_tables.c\<close> and \<open>sys/names_tables.c\<close>.

  A C string is the list of its characters; its terminating zero is the position behind the last one,
  and reading further is a fault. \<open>PANIC(i >= length)\<close> inside the two searching loops tests a
  variable that the loops do not change, so it can only fire when \<open>length\<close> is 0.
\<close>

section \<open>Boot parameters\<close>

definition NUL :: char where "NUL = CHR 0x00"

text \<open>\<open>strstr\<close> from position \<open>i\<close>: the first position from which the command is a prefix.\<close>

fun strstr :: "string \<Rightarrow> string \<Rightarrow> nat \<Rightarrow> nat option" where
  "strstr line command i =
     (if take (length command) line = command then Some i
      else case line of [] \<Rightarrow> None | c # cs \<Rightarrow> strstr cs command (i + 1))"

declare strstr.simps [simp del]

text \<open>The loops over \<open>ptr\<close>, on the rest of the line from \<open>ptr\<close> on.\<close>

fun skip_to_equals :: "nat \<Rightarrow> string \<Rightarrow> string outcome" where
  "skip_to_equals len [] = panic_if (len = 0) Fault"
| "skip_to_equals len (c # cs) = (if c = CHR ''='' then Ret cs else panic_if (len = 0) (skip_to_equals len cs))"

fun skip_blanks :: "nat \<Rightarrow> string \<Rightarrow> string outcome" where
  "skip_blanks len [] = Ret []"
| "skip_blanks len (c # cs) = (if c = CHR '' '' then panic_if (len = 0) (skip_blanks len cs) else Ret (c # cs))"

fun copy_value :: "string \<Rightarrow> nat \<Rightarrow> nat \<Rightarrow> string \<Rightarrow> string outcome" where
  "copy_value [] i len argument = Ret argument"
| "copy_value (c # cs) i len argument =
     (if c = CHR '' '' then Ret argument
      else if i < length argument
           then panic_if (i + 1 \<ge> len) (copy_value cs (i + 1) len (argument[i := c]))
           else Fault)"

definition to_upper :: "char \<Rightarrow> char" where
  "to_upper c = (let n = of_char c :: nat in if 97 \<le> n \<and> n \<le> 122 then char_of (n - (97 - 65)) else c)"

text \<open>The last loop stops at the first zero of the argument.\<close>

fun upper_loop :: "string \<Rightarrow> string" where
  "upper_loop [] = []"
| "upper_loop (c # cs) = (if c = NUL then c # cs else to_upper c # upper_loop cs)"

text \<open>\<open>sys$parsing\<close> with an array of \<open>length\<close> characters as its argument; the result is what it holds
  afterwards.\<close>

definition sys_parsing :: "string \<Rightarrow> string \<Rightarrow> nat \<Rightarrow> string outcome" where
  "sys_parsing line command len =
     (case strstr line command 0 of
        None \<Rightarrow> Panic
      | Some p \<Rightarrow>
          panic_if (p \<noteq> 0 \<and> line ! (p - 1) \<noteq> CHR '' '')
          (bindo (skip_to_equals len (drop p line)) (\<lambda>s.
           bindo (skip_blanks len s) (\<lambda>s.
           bindo (copy_value s 0 len (replicate len NUL)) (\<lambda>argument. Ret (upper_loop argument))))))"

section \<open>What a parameter reads as\<close>

lemma skip_to_equals_at: "0 < len \<Longrightarrow> CHR ''='' \<notin> set u \<Longrightarrow> skip_to_equals len (u @ CHR ''='' # s) = Ret s"
  by (induction u) auto

lemma skip_blanks_at:
  "0 < len \<Longrightarrow> s = [] \<or> hd s \<noteq> CHR '' '' \<Longrightarrow> skip_blanks len (replicate k (CHR '' '') @ s) = Ret s"
proof (induction k)
  case 0
  then show ?case by (cases s) auto
qed auto

lemma copy_value_at:
  assumes "CHR '' '' \<notin> set v" "w = [] \<or> hd w = CHR '' ''" "length argument = len" "i < len"
  shows "copy_value (v @ w) i len argument =
    (if i + length v < len then Ret (take i argument @ v @ drop (i + length v) argument) else Panic)"
  using assms
proof (induction v arbitrary: i argument)
  case Nil
  then show ?case by (cases w) auto
next
  case (Cons c v)
  show ?case
  proof (cases "i + 1 < len")
    case True
    have "copy_value ((c # v) @ w) i len argument = copy_value (v @ w) (i + 1) len (argument[i := c])"
      using Cons.prems True by (auto simp: panic_if_def)
    also have "\<dots> = (if i + 1 + length v < len
        then Ret (take (i + 1) (argument[i := c]) @ v @ drop (i + 1 + length v) (argument[i := c])) else Panic)"
      by (rule Cons.IH) (use Cons.prems True in auto)
    also have "take (i + 1) (argument[i := c]) = take i argument @ [c]"
      using Cons.prems by (simp add: take_Suc_conv_app_nth)
    finally show ?thesis by simp
  next
    case False
    then show ?thesis using Cons.prems by auto
  qed
qed

lemma upper_loop_at: "NUL \<notin> set v \<Longrightarrow> upper_loop (v @ replicate k NUL) = map to_upper v @ replicate k NUL"
proof (induction v)
  case Nil
  then show ?case by (cases k) auto
qed auto

text \<open>C28: a parameter whose first occurrence in the line stands at the start or behind a blank reads
  as the word behind the next equals sign, in upper case and padded with zeros, when it is shorter
  than the array; a longer word halts the system before anything is written outside the array.\<close>

theorem parsing_correct:
  assumes "strstr line command 0 = Some p" "p = 0 \<or> line ! (p - 1) = CHR '' ''"
    and "drop p line = u @ CHR ''='' # replicate k (CHR '' '') @ v @ w" "CHR ''='' \<notin> set u"
    and "v \<noteq> []" "CHR '' '' \<notin> set v" "NUL \<notin> set v" "w = [] \<or> hd w = CHR '' ''" "0 < len"
  shows "sys_parsing line command len =
    (if length v < len then Ret (map to_upper v @ replicate (len - length v) NUL) else Panic)"
proof -
  have "v @ w = [] \<or> hd (v @ w) \<noteq> CHR '' ''" using assms(5,6) by (cases v) auto
  note steps = skip_to_equals_at [OF assms(9,4)] skip_blanks_at [OF assms(9) this]
    copy_value_at [OF assms(6,8) length_replicate assms(9), of NUL]
  show ?thesis
    using assms(1,2) by (auto simp: sys_parsing_def assms(3) steps upper_loop_at [OF assms(7)] simp del: bindo_eq_Ret_iff)
qed

theorem parsing_correct_witness:
  "sys_parsing ''vmskernel.sys root=dka0 console=op'' ''root'' 8 = Ret (''DKA0'' @ replicate 4 NUL)"
proof -
  have "strstr ''vmskernel.sys root=dka0 console=op'' ''root'' 0 = Some 14" by (simp add: strstr.simps)
  from parsing_correct [OF this, of "''root''" 0 "''dka0''" "'' console=op''" 8] show ?thesis
    by (simp add: NUL_def to_upper_def char_of_def bit_0)
qed

text \<open>The occurrence that counts is the first one, also when it is a part of another word.\<close>

lemma parsing_stops_at_first_occurrence: "sys_parsing ''chroot.sys root=dka0'' ''root'' 8 = Panic"
  by (simp add: sys_parsing_def strstr.simps)

section \<open>The alphabets of the trees\<close>

text \<open>\<open>dev$init\<close> and \<open>names$init\<close> fill an array of 256 indices: the characters A to Z, 0 to 9 and the
  period are numbered in this order, all others are 0.\<close>

definition alphabet :: string where
  "alphabet = ''ABCDEFGHIJKLMNOPQRSTUVWXYZ0123456789.''"

fun number_from :: "nat \<Rightarrow> string \<Rightarrow> nat list \<Rightarrow> nat list" where
  "number_from i [] t = t"
| "number_from i (c # cs) t = number_from (i + 1) cs (t[of_char c := i])"

definition dev_init :: "nat list" where
  "dev_init = number_from 0 alphabet (replicate 256 0)"

definition names_init :: "nat list" where
  "names_init = number_from 0 alphabet (replicate 256 0)"

lemma of_char_less_256: "(of_char c :: nat) < 256"
  using nat_of_char_less_256 [of c] by simp

lemma number_from_length [simp]: "length (number_from i cs t) = length t"
  by (induction i cs t rule: number_from.induct) simp_all

lemma number_from_other: "c \<notin> set cs \<Longrightarrow> number_from i cs t ! of_char c = t ! of_char c"
proof (induction i cs t rule: number_from.induct)
  case (2 i d cs t)
  then have "of_char d \<noteq> (of_char c :: nat)" by auto
  then show ?case using 2 by simp
qed simp

lemma number_from_nth:
  assumes "distinct cs" "k < length cs" "length t = 256"
  shows "number_from i cs t ! of_char (cs ! k) = i + k"
  using assms
proof (induction i cs t arbitrary: k rule: number_from.induct)
  case (2 i c cs t)
  show ?case
  proof (cases k)
    case 0
    have "(of_char c :: nat) < 256" by (rule of_char_less_256)
    then show ?thesis using 2 0 by (simp add: number_from_other)
  next
    case (Suc j)
    then show ?thesis using 2 by simp
  qed
qed simp

text \<open>Each character of the alphabet has its own number, but \<open>A\<close> shares its number with every
  character that is not in the alphabet.\<close>

lemma alphabet_numbered: "k < 37 \<Longrightarrow> dev_init ! of_char (alphabet ! k) = k"
  unfolding dev_init_def by (subst number_from_nth) (simp_all add: alphabet_def)

lemma unknown_like_A: "c \<notin> set alphabet \<Longrightarrow> dev_init ! of_char c = dev_init ! of_char (CHR ''A'')"
proof -
  assume "c \<notin> set alphabet"
  then have "dev_init ! of_char c = 0" unfolding dev_init_def
    by (simp add: number_from_other of_char_less_256)
  moreover have "dev_init ! of_char (CHR ''A'') = 0" using alphabet_numbered [of 0] by (simp add: alphabet_def)
  ultimately show ?thesis by simp
qed

end
