(* ===== verification/Debug_Symbols.thy ===== *)
theory Debug_Symbols
  imports Prelude
begin

unbundle bit_operations_syntax

text \<open>
  The symbol look-up of the backtrace, \<open>sys/dbg_symbols.c\<close>. The table \<open>symbols\<close> is generated by the
  script \<open>linker/symbols\<close> from the kernel image: address, name, address, name and so on, with a null
  pointer at the end; it is an argument of the model. A string is the list of its characters; the
  terminating zero may be read, what lies behind it not. Local arrays start with unknown contents,
  the arguments \<open>junk\<close>.

  The code goes through strings of binary digits. The lemmas show that this is the comparison of the
  addresses as words, and what happens on the last entry of the table.
\<close>

section \<open>The model\<close>

definition L4_SIZEOFWORD :: nat where "L4_SIZEOFWORD = 64"

fun binary_value :: "string \<Rightarrow> nat \<Rightarrow> nat \<Rightarrow> u64 \<Rightarrow> u64 outcome" where
  "binary_value s i 0 v = Ret v"
| "binary_value s i (Suc n) v =
     (let k = (L4_SIZEOFWORD - 1) - i
      in if k < length s then binary_value s (i + 1) n (if s ! k = CHR ''1'' then v + push_bit i 1 else v)
         else Fault)"

definition dbg_addrcmp :: "string \<Rightarrow> string \<Rightarrow> int outcome" where
  "dbg_addrcmp s1 s2 =
     bindo (binary_value s1 0 L4_SIZEOFWORD 0) (\<lambda>v1.
     bindo (binary_value s2 0 L4_SIZEOFWORD 0) (\<lambda>v2.
       Ret (if v1 < v2 then -1 else if v1 > v2 then 1 else 0)))"

text \<open>The four characters that the switch of \<open>dbg$hex_to_bin\<close> writes, in the order of its
  assignments; a character that is no digit writes nothing.\<close>

definition quad :: "char \<Rightarrow> string" where
  "quad c =
     (if c = CHR ''0'' then ''0000'' else if c = CHR ''1'' then ''1000''
      else if c = CHR ''2'' then ''0100'' else if c = CHR ''3'' then ''1100''
      else if c = CHR ''4'' then ''0010'' else if c = CHR ''5'' then ''1010''
      else if c = CHR ''6'' then ''0110'' else if c = CHR ''7'' then ''1110''
      else if c = CHR ''8'' then ''0001'' else if c = CHR ''9'' then ''1001''
      else if c = CHR ''a'' then ''0101'' else if c = CHR ''b'' then ''1101''
      else if c = CHR ''c'' then ''0011'' else if c = CHR ''d'' then ''1011''
      else if c = CHR ''e'' then ''0111'' else if c = CHR ''f'' then ''1111''
      else '''')"

text \<open>\<open>bin_r[j--] = c\<close> for each character. There are at most as many as the array has places, so the
  wrap-around of \<open>j\<close> behind the last one is not seen.\<close>

fun write_down :: "string \<Rightarrow> nat \<Rightarrow> string \<Rightarrow> nat \<times> string" where
  "write_down [] j b = (j, b)"
| "write_down (c # cs) j b = write_down cs (j - 1) (b[j := c])"

fun hex_loop :: "string \<Rightarrow> nat \<Rightarrow> nat \<Rightarrow> nat \<Rightarrow> string \<Rightarrow> string outcome" where
  "hex_loop s i 0 j b = Ret b"
| "hex_loop s i (Suc n) j b =
     (let k = (L4_SIZEOFWORD div 4 - 1) - i
      in if k \<le> length s then
           case write_down (if k < length s then quad (s ! k) else '''') j b of (j, b) \<Rightarrow> hex_loop s (i + 1) n j b
         else Fault)"

definition dbg_hex_to_bin :: "string option \<Rightarrow> string \<Rightarrow> string outcome" where
  "dbg_hex_to_bin reqaddr b =
     (case reqaddr of
        None \<Rightarrow> Fault
      | Some s \<Rightarrow> bindo (hex_loop s 0 (L4_SIZEOFWORD div 4) (L4_SIZEOFWORD - 1) b)
                    (\<lambda>b. Ret (b[L4_SIZEOFWORD := CHR 0x00])))"

text \<open>The row \<open>value[i]\<close>, and the digit that the nested switch reads from it; \<open>c\<close> keeps its value when
  no case applies.\<close>

definition value_row :: "u64 \<Rightarrow> nat \<Rightarrow> string" where
  "value_row address i =
     rev (map (\<lambda>j. if address AND push_bit (i * 4 + j) 1 \<noteq> 0 then CHR ''1'' else CHR ''0'') [0..<4])"

definition row_digit :: "string \<Rightarrow> char \<Rightarrow> char" where
  "row_digit v c =
     (if v ! 0 = CHR ''0'' then
        if v ! 1 = CHR ''0'' then
          if v ! 2 = CHR ''0'' then if v ! 3 = CHR ''0'' then CHR ''0'' else CHR ''1''
          else if v ! 2 = CHR ''1'' then if v ! 3 = CHR ''0'' then CHR ''2'' else CHR ''3'' else c
        else if v ! 1 = CHR ''1'' then
          if v ! 2 = CHR ''0'' then if v ! 3 = CHR ''0'' then CHR ''4'' else CHR ''5''
          else if v ! 2 = CHR ''1'' then if v ! 3 = CHR ''0'' then CHR ''6'' else CHR ''7'' else c
        else c
      else if v ! 0 = CHR ''1'' then
        if v ! 1 = CHR ''0'' then
          if v ! 2 = CHR ''0'' then if v ! 3 = CHR ''0'' then CHR ''8'' else CHR ''9''
          else if v ! 2 = CHR ''1'' then if v ! 3 = CHR ''0'' then CHR ''a'' else CHR ''b'' else c
        else if v ! 1 = CHR ''1'' then
          if v ! 2 = CHR ''0'' then if v ! 3 = CHR ''0'' then CHR ''c'' else CHR ''d''
          else if v ! 2 = CHR ''1'' then if v ! 3 = CHR ''0'' then CHR ''e'' else CHR ''f'' else c
        else c
      else c)"

text \<open>The digits fill \<open>reqaddr\<close> from its end to its front.\<close>

fun reqaddr_loop :: "u64 \<Rightarrow> nat \<Rightarrow> nat \<Rightarrow> char \<Rightarrow> string \<Rightarrow> string" where
  "reqaddr_loop address i 0 c s = s"
| "reqaddr_loop address i (Suc n) c s =
     (let c = row_digit (value_row address i) c in reqaddr_loop address (i + 1) n c (c # s))"

text \<open>The walk over the table; \<open>bin_1\<close> and \<open>bin_2\<close> keep their contents from one round to the next.\<close>

fun symbol_loop :: "string \<Rightarrow> string \<Rightarrow> string \<Rightarrow> string option list \<Rightarrow> string option outcome" where
  "symbol_loop r b1 b2 [] = Fault"
| "symbol_loop r b1 b2 (None # fs) = Ret None"
| "symbol_loop r b1 b2 (Some f # fs) =
     bindo (dbg_hex_to_bin (Some f) b1) (\<lambda>b1.
     case fs of
       name # f2 # fs' \<Rightarrow>
         bindo (dbg_hex_to_bin f2 b2) (\<lambda>b2.
         bindo (dbg_addrcmp b1 r) (\<lambda>lo.
         if lo \<le> 0 then
           bindo (dbg_addrcmp r b2) (\<lambda>hi. if hi < 0 then Ret name else symbol_loop r b1 b2 (f2 # fs'))
         else symbol_loop r b1 b2 (f2 # fs')))
     | _ \<Rightarrow> Fault)"

definition dbg_symbol :: "string \<Rightarrow> string \<Rightarrow> string \<Rightarrow> string option list \<Rightarrow> u64 \<Rightarrow> string option outcome" where
  "dbg_symbol junk_1 junk_2 junk_r symbols address =
     (let reqaddr = reqaddr_loop address 0 (L4_SIZEOFWORD div 4) (CHR ''-'') ''''
      in bindo (dbg_hex_to_bin (Some reqaddr) junk_r) (\<lambda>bin_r. symbol_loop bin_r junk_1 junk_2 symbols))"

section \<open>Digits\<close>

text \<open>What the strings stand for: the hexadecimal and the binary digits of a word, most significant
  first.\<close>

definition hex_digit :: "bool \<Rightarrow> bool \<Rightarrow> bool \<Rightarrow> bool \<Rightarrow> char" where
  "hex_digit b3 b2 b1 b0 = ''0123456789abcdef'' ! (8 * of_bool b3 + 4 * of_bool b2 + 2 * of_bool b1 + of_bool b0)"

definition digit_at :: "u64 \<Rightarrow> nat \<Rightarrow> char" where
  "digit_at a i = hex_digit (bit a (4 * i + 3)) (bit a (4 * i + 2)) (bit a (4 * i + 1)) (bit a (4 * i))"

definition hex16 :: "u64 \<Rightarrow> string" where
  "hex16 a = rev (map (digit_at a) [0..<16])"

definition bin_digit :: "bool \<Rightarrow> char" where
  "bin_digit b = (if b then CHR ''1'' else CHR ''0'')"

definition bin64 :: "u64 \<Rightarrow> string" where
  "bin64 a = rev (map (\<lambda>i. bin_digit (bit a i)) [0..<64])"

lemma and_push_bit_1: "a AND push_bit n 1 \<noteq> 0 \<longleftrightarrow> bit (a :: u64) n"
  by (simp add: and_exp_eq_0_iff_not_bit push_bit_eq_mult)

lemma row_digit_at: "row_digit (value_row a i) c = digit_at a i"
proof -
  have v: "value_row a i = [bin_digit (bit a (4 * i + 3)), bin_digit (bit a (4 * i + 2)),
      bin_digit (bit a (4 * i + 1)), bin_digit (bit a (4 * i))]"
    unfolding value_row_def and_push_bit_1 by (simp add: upt_rec numeral_eq_Suc bin_digit_def mult.commute)
  show ?thesis
    unfolding v digit_at_def hex_digit_def row_digit_def bin_digit_def
    by (cases "bit a (4 * i + 3)"; cases "bit a (4 * i + 2)"; cases "bit a (4 * i + 1)"; cases "bit a (4 * i)") simp_all
qed

lemma reqaddr_loop_eq: "reqaddr_loop a i n c s = rev (map (digit_at a) [i..<i + n]) @ s"
proof (induction n arbitrary: i c s)
  case (Suc n)
  have "[i..<i + Suc n] = i # [i + 1..<(i + 1) + n]" by (subst upt_conv_Cons) simp_all
  then show ?case using Suc.IH [of "i + 1"] by (simp add: row_digit_at Let_def)
qed simp

lemma quad_digit: "quad (hex_digit b3 b2 b1 b0) = [bin_digit b0, bin_digit b1, bin_digit b2, bin_digit b3]"
  by (cases b3; cases b2; cases b1; cases b0) (simp_all add: hex_digit_def quad_def bin_digit_def)

lemma write_four:
  assumes "k + 4 \<le> length b"
  shows "write_down [c0, c1, c2, c3] (k + 3) b = (k - 1, take k b @ [c3, c2, c1, c0] @ drop (k + 4) b)"
proof -
  obtain p x0 x1 x2 x3 q where b: "b = p @ x0 # x1 # x2 # x3 # q" and p: "length p = k"
  proof -
    have "length (drop k b) \<ge> 4" using assms by simp
    then obtain x0 x1 x2 x3 q where "drop k b = x0 # x1 # x2 # x3 # q"
      by (cases "drop k b" rule: list.exhaust [OF _ list.exhaust]) (auto simp: neq_Nil_conv Suc_le_length_iff numeral_eq_Suc)
    then show ?thesis using that [of "take k b" x0 x1 x2 x3 q] assms append_take_drop_id [of k b] by simp
  qed
  show ?thesis unfolding b using p by (simp add: list_update_append numeral_eq_Suc)
qed

text \<open>One round of \<open>dbg$hex_to_bin\<close> replaces four places; after all rounds the array holds the binary
  digits.\<close>

definition four_bits :: "u64 \<Rightarrow> nat \<Rightarrow> string" where
  "four_bits a i = [bin_digit (bit a (4 * i + 3)), bin_digit (bit a (4 * i + 2)), bin_digit (bit a (4 * i + 1)), bin_digit (bit a (4 * i))]"

lemma hex16_nth: "i < 16 \<Longrightarrow> hex16 a ! (15 - i) = digit_at a i"
  by (simp add: hex16_def rev_nth)

lemma hex_loop_hex16:
  assumes "n \<le> 16" "length b = 65"
  shows "hex_loop (hex16 a) (16 - n) n (4 * n - 1) b = Ret (concat (rev (map (four_bits a) [16 - n..<16])) @ drop (4 * n) b)"
  using assms
proof (induction n arbitrary: b)
  case (Suc n)
  let ?i = "15 - n"
  have i: "16 - Suc n = ?i" "?i + 1 = 16 - n" "15 - ?i = n" using Suc.prems(1) by auto
  have d: "hex16 a ! n = digit_at a ?i" using hex16_nth [of ?i a] i(3) by simp
  have l: "n < length (hex16 a)" using Suc.prems(1) by (simp add: hex16_def)
  let ?b = "take (4 * n) b @ four_bits a ?i @ drop (4 * n + 4) b"
  have j: "4 * Suc n - 1 = 4 * n + 3" by simp
  have w: "write_down (quad (digit_at a ?i)) (4 * n + 3) b = (4 * n - 1, ?b)"
    unfolding digit_at_def quad_digit four_bits_def using Suc.prems by (intro write_four) simp
  have "hex_loop (hex16 a) (16 - Suc n) (Suc n) (4 * Suc n - 1) b = hex_loop (hex16 a) (?i + 1) n (4 * n - 1) ?b"
    unfolding j i(1) using l by (simp add: L4_SIZEOFWORD_def i(3) d w)
  also have "\<dots> = Ret (concat (rev (map (four_bits a) [16 - n..<16])) @ drop (4 * n) ?b)"
    unfolding i(2) by (rule Suc.IH) (use Suc.prems in \<open>simp_all add: four_bits_def\<close>)
  finally have e: "hex_loop (hex16 a) (16 - Suc n) (Suc n) (4 * Suc n - 1) b =
      Ret (concat (rev (map (four_bits a) [16 - n..<16])) @ drop (4 * n) ?b)" .
  have f: "drop (4 * n) ?b = four_bits a ?i @ drop (4 * Suc n) b" using Suc.prems by (simp add: add.commute)
  have g: "[16 - Suc n..<16] = ?i # [16 - n..<16]" using Suc.prems(1) unfolding i(1) i(2) [symmetric]
    by (subst upt_conv_Cons) simp_all
  show ?case unfolding e f g by simp
qed simp

lemma concat_four_bits: "concat (rev (map (four_bits a) [0..<16])) = bin64 a"
  by (simp add: bin64_def four_bits_def upt_rec numeral_eq_Suc)

lemma hex_to_bin_hex16:
  assumes "length b = 65"
  shows "dbg_hex_to_bin (Some (hex16 a)) b = Ret (bin64 a @ [CHR 0x00])"
proof -
  obtain x where x: "drop 64 b = [x]" using assms by (cases "drop 64 b") (auto dest: arg_cong [of _ _ length])
  have "length (bin64 a) = 64" by (simp add: bin64_def)
  then show ?thesis using hex_loop_hex16 [of 16 b a] assms
    by (simp add: dbg_hex_to_bin_def L4_SIZEOFWORD_def concat_four_bits x list_update_append)
qed

lemma binary_value_eq:
  assumes "i + n \<le> 64"
  shows "binary_value (bin64 a @ s) i n v = Ret (v + (\<Sum>k = i..<i + n. of_bool (bit a k) * 2 ^ k))"
  using assms
proof (induction n arbitrary: i v)
  case (Suc n)
  have c: "(bin64 a @ s) ! (63 - i) = bin_digit (bit a i)" using Suc.prems nth_append_left [of "63 - i" "bin64 a" s] by (simp add: bin64_def rev_nth)
  have l: "63 - i < length (bin64 a @ s)" by (simp add: bin64_def)
  have "binary_value (bin64 a @ s) i (Suc n) v = binary_value (bin64 a @ s) (i + 1) n (v + of_bool (bit a i) * 2 ^ i)"
    using c l by (simp add: L4_SIZEOFWORD_def bin_digit_def push_bit_eq_mult)
  also have "\<dots> = Ret (v + (of_bool (bit a i) * 2 ^ i + (\<Sum>k = i + 1..<i + 1 + n. of_bool (bit a k) * 2 ^ k)))"
    unfolding add.assoc [symmetric] using Suc.prems by (intro Suc.IH) simp
  also have "of_bool (bit a i) * 2 ^ i + (\<Sum>k = i + 1..<i + 1 + n. of_bool (bit a k) * 2 ^ k) =
      (\<Sum>k = i..<i + Suc n. of_bool (bit a k) * (2 :: u64) ^ k)"
    using sum.atLeast_Suc_lessThan [of i "i + Suc n" "\<lambda>k. of_bool (bit a k) * (2 :: u64) ^ k"]
    by (simp only: Suc_eq_plus1 add.assoc add.commute [of 1 n])
  finally show ?case unfolding add.assoc .
qed simp

lemma sum_of_bits: "(\<Sum>k = 0..<64. of_bool (bit a k) * 2 ^ k) = (a :: u64)"
proof -
  have "(\<Sum>k = 0..<64. of_bool (bit a k) * 2 ^ k) = horner_sum of_bool (2 :: u64) (map (bit a) [0..<64])"
    by (simp add: horner_sum_eq_sum atLeast0LessThan)
  also have "\<dots> = a" unfolding horner_sum_bit_eq_take_bit by (rule take_bit_word_eq_self) simp
  finally show ?thesis .
qed

lemma addrcmp_bin64:
  "dbg_addrcmp (bin64 a @ s) (bin64 b @ t) = Ret (if a < b then -1 else if a > b then 1 else 0)"
  using binary_value_eq [of 0 64 a s 0] binary_value_eq [of 0 64 b t 0]
  unfolding dbg_addrcmp_def L4_SIZEOFWORD_def add_0 sum_of_bits by simp

section \<open>The look-up\<close>

text \<open>The table as \<open>linker/symbols\<close> writes it, for the symbols of the image, and the look-up in it by
  comparison of words. The last entry has no successor.\<close>

definition symbol_table :: "(u64 \<times> string) list \<Rightarrow> string option list" where
  "symbol_table tab = concat (map (\<lambda>(a, name). [Some (hex16 a), Some name]) tab) @ [None]"

fun enclosing :: "(u64 \<times> string) list \<Rightarrow> u64 \<Rightarrow> string option outcome" where
  "enclosing [] x = Ret None"
| "enclosing [(a, name)] x = Fault"
| "enclosing ((a, name) # (b, nb) # tab) x =
     (if a \<le> x \<and> x < b then Ret (Some name) else enclosing ((b, nb) # tab) x)"

lemma symbol_table_simps:
  "symbol_table [] = [None]"
  "symbol_table ((a, name) # tab) = Some (hex16 a) # Some name # symbol_table tab"
  by (simp_all add: symbol_table_def)

lemma symbol_loop_table:
  assumes "length b1 = 65" "length b2 = 65"
  shows "symbol_loop (bin64 x @ [CHR 0x00]) b1 b2 (symbol_table tab) = enclosing tab x"
  using assms
proof (induction tab x arbitrary: b1 b2 rule: enclosing.induct)
  case (2 a name x)
  then show ?case by (simp add: symbol_table_simps hex_to_bin_hex16) (simp add: dbg_hex_to_bin_def)
next
  case (3 a name b nb tab x)
  have l: "length (bin64 a @ [CHR 0x00]) = 65" for a by (simp add: bin64_def)
  show ?case
  proof (cases "a \<le> x \<and> x < b")
    case True
    then have "\<not> x < a" by (simp add: not_less)
    then show ?thesis using True "3.prems" by (simp add: symbol_table_simps hex_to_bin_hex16 addrcmp_bin64)
  next
    case False
    then show ?thesis using "3.IH" [OF False l l] "3.prems"
      by (auto simp: symbol_table_simps hex_to_bin_hex16 addrcmp_bin64)
  qed
qed (simp add: symbol_table_simps)

text \<open>C20: on a table made of any symbols \<open>dbg$symbol\<close> is the look-up by comparison of words: it
  returns the name of the first symbol whose address is at most the one asked for while its
  successor's is greater, whatever the local arrays held. When no symbol with a successor encloses the
  address, the last round reads through the null pointer at the end of the table.\<close>

theorem dbg_symbol_correct:
  assumes "length j1 = 65" "length j2 = 65" "length jr = 65"
  shows "dbg_symbol j1 j2 jr (symbol_table tab) x = enclosing tab x"
proof -
  have "reqaddr_loop x 0 (L4_SIZEOFWORD div 4) (CHR ''-'') [] = hex16 x"
    by (simp add: reqaddr_loop_eq hex16_def L4_SIZEOFWORD_def)
  then show ?thesis using assms by (simp add: dbg_symbol_def hex_to_bin_hex16 symbol_loop_table)
qed

theorem dbg_symbol_correct_witness:
  "dbg_symbol (replicate 65 (CHR ''x'')) (replicate 65 (CHR ''y'')) (replicate 65 (CHR ''z''))
     (symbol_table [(0x401000, ''_start''), (0x401200, ''main''), (0x401f00, ''end'')]) 0x401234 = Ret (Some ''main'')"
  by (subst dbg_symbol_correct) simp_all

end
