(* ===== verification/Service_Props.thy ===== *)
theory Service_Props
  imports Services Thread_Props Command_Line Debug_Symbols
begin

unbundle bit_operations_syntax

text \<open>
  Properties of the services: what a page fault is answered with, what the loader leaves in memory,
  what the server loop answers, and the pages that are asked from sigma0.
\<close>

section \<open>Copying and clearing\<close>

lemma unat_same: "unat (x :: u64) = unat y \<longleftrightarrow> x = y"
  by (simp add: word_unat_eq_iff)

lemma initmem_bytes:
  "unat p + n \<le> 2 ^ 64 \<Longrightarrow> initmem p n m x = (if unat p \<le> unat x \<and> unat x < unat p + n then 0 else m x)"
proof (induction n arbitrary: p m)
  case (Suc n)
  show ?case
  proof (cases "n = 0")
    case True
    then show ?thesis using unat_same [of x p] by (auto simp: less_Suc_eq_le)
  next
    case False
    then have u: "unat (p + 1) = unat p + 1" using Suc.prems by (intro unat_Suc_no_wrap) simp
    have ih: "initmem (p + 1) n (m(p := 0)) x =
        (if unat (p + 1) \<le> unat x \<and> unat x < unat (p + 1) + n then 0 else (m(p := 0)) x)"
      by (rule Suc.IH) (use Suc.prems u in simp)
    show ?thesis unfolding initmem.simps ih u using unat_same [of x p] by (auto simp: le_less)
  qed
qed auto

lemma memcopy_bytes:
  assumes "unat d + n \<le> 2 ^ 64" "unat s + n \<le> 2 ^ 64" "unat d + n \<le> unat s \<or> unat s + n \<le> unat d"
  shows "memcopy d s n m x = (if unat d \<le> unat x \<and> unat x < unat d + n then m (s + (x - d)) else m x)"
  using assms
proof (induction n arbitrary: d s m)
  case (Suc n)
  show ?case
  proof (cases "n = 0")
    case True
    then show ?thesis using unat_same [of x d] by (auto simp: less_Suc_eq_le)
  next
    case False
    have u: "unat (d + 1) = unat d + 1" "unat (s + 1) = unat s + 1"
      by (rule unat_Suc_no_wrap, use Suc.prems False in linarith)+
    let ?m = "m(d := m s)"
    have ih: "memcopy (d + 1) (s + 1) n ?m x =
        (if unat (d + 1) \<le> unat x \<and> unat x < unat (d + 1) + n then ?m ((s + 1) + (x - (d + 1))) else ?m x)"
      by (rule Suc.IH) (use Suc.prems u in auto)
    have "(s + 1) + (x - (d + 1)) = s + (x - d)" by simp
    moreover have "s + (x - d) \<noteq> d" if "unat d < unat x" "unat x < unat d + Suc n"
    proof
      have ux: "unat (x - d) = unat x - unat d" using that by (intro unat_diff_no_wrap) (simp add: word_le_nat_alt)
      have us: "unat (s + (x - d)) = unat s + unat (x - d)"
        using Suc.prems(2) that ux by (intro unat_add_no_wrap) linarith
      assume "s + (x - d) = d"
      then have "unat s + (unat x - unat d) = unat d" using us unfolding ux by (simp only:)
      then show False using that Suc.prems(3) by linarith
    qed
    ultimately show ?thesis unfolding memcopy.simps ih u using unat_same [of x d] by (auto simp: le_less)
  qed
qed auto

section \<open>Loading a segment\<close>

lemma rand_extract_returns: "length junk = 8 \<Longrightarrow> \<exists>w g'. rand_extract_number junk 8 g = Ret (w, g')"
proof -
  assume j: "length junk = 8"
  obtain t1 g1 t2 g2 where "rand_extract_word g = (t1, g1)" "rand_extract_word g1 = (t2, g2)" by (metis surj_pair)
  moreover have "unat ((8 :: u32) div 4) = Suc (Suc 0)" by simp
  ultimately show ?thesis using j by (simp add: rand_extract_number_def numeral_2_eq_2)
qed


text \<open>A segment of one page from \<open>0x400000\<close>, with 256 bytes in the file: its section cannot be made,
  and it is loaded all the same.\<close>

definition sample_phdr :: phdr where
  "sample_phdr = \<lparr>ph_type = 1, ph_offset = 0x1000, ph_paddr = 0x400000, ph_fsize = 0x100, ph_msize = 0x1000\<rparr>"

definition full_kmem :: "(heap, unit) kmem" where
  "full_kmem = sample_kmem\<lparr>k_mm := user_mm\<lparr>pools := (\<lambda>_. []), vm_alloc := idle_alloc\<lparr>int_active := True\<rparr>\<rparr>\<rparr>"


section \<open>Page faults\<close>

lemma rights_address: "10 \<le> L4_SizeLog2 f \<Longrightarrow> L4_Address (L4_Set_Rights f r) = L4_Address f"
  unfolding Address_eq Set_Rights_simps
  by (rule bit_word_eqI) (auto simp: L4_Set_Rights_def set_X_rwx_def bit_simps)

text \<open>C11: a page fault is answered only when a memory section holds the address and the domain of the
  faulting thread has a valid capability for that section. The answer maps one page of the minimal
  size that contains the address to itself, with the access rights that the fault asked for.\<close>

theorem pagefault_safe:
  assumes "sys_pagefault caller addr tag s = Ret (f, b)" "10 \<le> min_bits (k_mm s)" "min_bits (k_mm s) < 31"
  shows "unat addr \<in> page_addrs f \<and> L4_SizeLog2 f = min_bits (k_mm s) \<and> b = L4_Address f \<and>
    L4_Rights f = take_bit 3 (drop_bit 16 tag) \<and>
    (\<exists>ms th x j. sys_objtable_lookup addr (k_mm s) = Ret ms \<and> ms \<noteq> 0 \<and> sys_thread_lookup caller s = Ret th \<and> th \<noteq> 0 \<and>
      on_ring s (pd_clists (t_owner (k_thread s th))) x \<and> j < unat (cl_length (k_clist s (x + offset_data))) \<and>
      cap_ref (k_caps s (cl_clist (k_clist s (x + offset_data))) j) \<in> {ms, master_ref ms})"
proof -
  let ?k = "min_bits (k_mm s)" and ?ps = "min_pagesize (k_mm s)" and ?p = "drop_bit 16 (tag AND 0xf0000)"
  let ?b = "sys_page_round_down addr ?ps"
  obtain ms where ms: "sys_objtable_lookup addr (k_mm s) = Ret ms" "ms \<noteq> 0" "sec_check caller ms s = Ret 0"
    and f: "f = L4_Set_Rights (L4_Fpage ?b ?ps) ?p" "b = L4_Address f"
    using assms(1) by (auto simp: sys_pagefault_def Let_def split: if_splits)
  have k: "?k < 64" using assms(3) by simp
  have ps: "?ps = push_bit ?k 1" using min_pagesize_exp [OF assms(3)] by (simp add: min_pagesize_def push_bit_eq_mult)
  have pg: "L4_Fpage ?b ?ps = L4_FpageLog2 ?b ?k" unfolding ps by (rule L4_Fpage_exp [OF k])
  have sz: "L4_SizeLog2 f = ?k" using k by (simp add: f(1) pg fpage_simps)
  have rd: "unat ?b = unat addr - unat addr mod 2 ^ ?k"
    using round_down_exp [OF k, of addr] by (simp add: ps push_bit_eq_mult)
  then have "2 ^ ?k dvd unat ?b" by (simp add: dvd_minus_mod)
  then have ad: "L4_Address f = ?b"
    using assms(2) k by (simp add: f(1) pg rights_address fpage_simps aligned_and_not_mask)
  have "unat addr mod 2 ^ ?k < 2 ^ ?k" "unat addr mod 2 ^ ?k \<le> unat addr" by simp_all
  then have mem: "unat addr \<in> page_addrs f" unfolding page_addrs_def ad sz rd atLeastLessThan_iff by linarith
  have m: "(0xf0000 :: u64) = push_bit 16 (mask 4)" by (simp add: mask_eq_exp_minus_1)
  have "take_bit 3 ?p = take_bit 3 (drop_bit 16 tag)"
    unfolding m by (rule bit_word_eqI) (auto simp: bit_simps simp del: push_bit_mask_eq)
  then have ri: "L4_Rights f = take_bit 3 (drop_bit 16 tag)" by (simp add: f(1) fpage_simps)
  obtain th x j where "sys_thread_lookup caller s = Ret th" "th \<noteq> 0"
    "on_ring s (pd_clists (t_owner (k_thread s th))) x" "j < unat (cl_length (k_clist s (x + offset_data)))"
    "cap_ref (k_caps s (cl_clist (k_clist s (x + offset_data))) j) \<in> {ms, master_ref ms}"
    using sec_check_grants [OF ms(3)] by blast
  then show ?thesis using ms(1,2) mem sz f(2) ri by blast
qed

theorem pagefault_safe_witness:
  "\<exists>f b. sys_pagefault 5 0x70123 0x30000 guarded_kmem = Ret (f, b) \<and> unat (0x70123 :: u64) \<in> page_addrs f \<and> L4_SizeLog2 f = 12"
proof -
  have k: "min_bits (k_mm guarded_kmem) = 12" by (simp add: guarded_kmem_def sample_kmem_def rmem.defs user_mm_def)
  have "\<exists>f b. sys_pagefault 5 0x70123 0x30000 guarded_kmem = Ret (f, b)"
    by (simp add: sys_pagefault_def guarded_lookups guarded_check Let_def)
  then obtain f b where "sys_pagefault 5 0x70123 0x30000 guarded_kmem = Ret (f, b)" by blast
  from this pagefault_safe [OF this] show ?thesis by (auto simp: k)
qed

section \<open>The server loop\<close>

text \<open>The requests to print a string that fits the buffer and to exit, and the answer to them.\<close>

definition plain :: "message \<Rightarrow> bool" where
  "plain m \<longleftrightarrow> L4_Label (msg_tag m) = SYSCALL_EXIT_VALUE \<or>
     L4_Label (msg_tag m) = SYSCALL_PRINT \<and> string_length (msg_words m 0) < length (msg_string m)"

definition answer :: "message \<Rightarrow> reply \<times> u8 list" where
  "answer m = (Word_reply 0, if L4_Label (msg_tag m) = SYSCALL_PRINT
     then take (string_length (msg_words m 0)) (c_text (msg_string m)) else [])"

lemma bit_imp_le_unat: "bit (w :: u64) n \<Longrightarrow> 2 ^ n \<le> unat w"
proof (rule ccontr)
  assume b: "bit w n" and "\<not> 2 ^ n \<le> unat w"
  then have "take_bit n (unat w) = unat w" by (simp add: take_bit_nat_eq_self)
  then have "take_bit n w = w" by (metis unsigned_take_bit_eq word_unat_eq_iff)
  then show False using b by (metis bit_take_bit_iff less_irrefl)
qed

lemma takeWhile_cut: "k < length xs \<Longrightarrow> takeWhile (\<lambda>c. c \<noteq> 0) (xs[k := 0]) = take k (c_text (xs :: u8 list))"
proof (induction xs arbitrary: k)
  case (Cons x xs)
  then show ?case by (cases k) (auto simp: c_text_def)
qed simp

lemma request_label: "tag AND L4_REQUEST_MASK = L4_PAGEFAULT \<Longrightarrow> \<not> L4_Label tag < 2 ^ 40"
proof -
  assume a: "tag AND L4_REQUEST_MASK = L4_PAGEFAULT"
  have "bit L4_PAGEFAULT 63" unfolding L4_PAGEFAULT_def by simp
  then have "bit tag 63" using a by (metis bit_and_iff)
  then have "bit (L4_Label tag) 47" by (simp add: L4_Label_def bit_simps)
  then have "2 ^ 47 \<le> unat (L4_Label tag)" by (rule bit_imp_le_unat)
  then show ?thesis by (simp add: word_less_nat_alt)
qed

lemma loop_step_plain:
  assumes "plain m"
  shows "loop_step n E stop m s = Ret (fst (answer m), snd (answer m), s)"
proof -
  have l: "L4_Label (msg_tag m) \<in> {SYSCALL_EXIT_VALUE, SYSCALL_PRINT}" using assms by (auto simp: plain_def)
  then have "L4_Label (msg_tag m) < 2 ^ 40" by (auto simp: syscall_defs)
  then have "msg_tag m AND L4_REQUEST_MASK \<noteq> L4_PAGEFAULT" using request_label by blast
  then show ?thesis
    using l assms by (auto simp: loop_step_def plain_def answer_def syscall_defs takeWhile_cut)
qed

text \<open>C29: the server loop answers every request to print a string that fits or to exit, whatever the
  order in which they come: each gets the word 0, the text that is printed is the string up to the
  length of the item or its first zero, and the state of the system stays what it was.\<close>

theorem loop_answers:
  assumes "\<forall>m \<in> set ms. plain m"
  shows "sys_loop n E stop ms s = Ret (map answer ms, s)"
  using assms by (induction ms) (simp_all add: loop_step_plain)

definition print_message :: message where
  "print_message = \<lparr>from_thread = 5, msg_tag = push_bit 16 SYSCALL_PRINT, msg_words = (\<lambda>_. push_bit 10 2), msg_string = [72, 105, 33, 0]\<rparr>"

theorem loop_answers_witness:
  "sys_loop 0 sample_env (\<lambda>_ k. k) [print_message] sample_kmem = Ret ([(Word_reply 0, [72, 105])], sample_kmem)"
proof -
  have "plain print_message" "answer print_message = (Word_reply 0, [72, 105])"
    by (simp_all add: plain_def answer_def print_message_def syscall_defs L4_Label_def string_length_def c_text_def)
  then have "\<forall>m \<in> set [print_message]. plain m" "map answer [print_message] = [(Word_reply 0, [72, 105])]" by simp_all
  then show ?thesis using loop_answers [of "[print_message]" 0 sample_env "\<lambda>_ k. k" sample_kmem] by (simp only:)
qed

text \<open>Any other label halts the system, and so does the request to kill a thread that is not known.\<close>

lemma loop_unknown_label:
  assumes "msg_tag m AND L4_REQUEST_MASK \<noteq> L4_PAGEFAULT"
    and "L4_Label (msg_tag m) \<notin> {SYSCALL_PRINT, SYSCALL_EXIT_VALUE, SYSCALL_KILL_THREAD}"
  shows "sys_loop n E stop (m # ms) s = Panic"
  using assms by (simp add: loop_step_def)

lemma kill_unknown_thread:
  assumes "msg_tag m AND L4_REQUEST_MASK \<noteq> L4_PAGEFAULT" "L4_Label (msg_tag m) = SYSCALL_KILL_THREAD"
    and "sys_thread_lookup (msg_words m 0) s = Ret 0"
  shows "sys_loop n E stop (m # ms) s = Fault"
proof -
  have "sys_thread_lookup (msg_words m 0) (s\<lparr>k_l4 := k\<rparr>) = Ret 0" for k
    using assms(3) by (simp add: sys_thread_lookup_def with_table_def hash_mem_def)
  then show ?thesis using assms by (simp add: loop_step_def Let_def syscall_defs)
qed

section \<open>Pages from sigma0\<close>

text \<open>A power of two maps as one page of that size. Other sizes are rounded up, and the start of the
  page down to a multiple of that: a part of the range may not be covered.\<close>

lemma sigma0_pages_exact:
  assumes "0 < k" "k < 64" "unat v + 2 ^ k \<le> 2 ^ 64"
  shows "sigma0_pages v p (push_bit k 1) = Ret (Some (L4_FpageLog2 v k, L4_FpageLog2 p k))"
proof -
  have "unat (push_bit k (1 :: u64)) = 2 ^ k" using assms(2) by simp
  moreover have "(1 :: nat) < 2 ^ k" using assms(1) by (rule one_less_power [rotated]) simp
  moreover have "unat (push_bit k (1 :: u64) - 1) = unat (push_bit k (1 :: u64)) - 1"
    using calculation by (intro unat_diff_no_wrap [THEN trans]) (auto simp: word_le_nat_alt)
  ultimately have "v < v + (push_bit k 1 - 1)"
    using assms(3) by (simp add: word_less_nat_alt unat_add_no_wrap)
  then show ?thesis
    using assms(1,2) FpageLog2_not_nil [OF assms(1,2)] L4_Fpage_exp [OF assms(2)]
    by (simp add: sigma0_pages_def Let_def L4_Size_def X_s_set L4_FpageLog2_def del: push_bit_of_1)
qed

text \<open>Three pages from the third page on: the page asked for ends with that page.\<close>

lemma sigma0_pages_miss_end:
  "\<exists>vp pp. sigma0_pages 0x3000 0x9000 0x3000 = Ret (Some (vp, pp)) \<and> L4_Address vp = 0 \<and> L4_Size vp = 0x4000"
proof -
  have m: "L4_Msb 0x3000 = 13" by code_simp
  have f: "L4_Fpage b 0x3000 = L4_FpageLog2 b 14" for b by (simp add: L4_Fpage_def L4_FpageLog2_def m)
  have z: "L4_Size (L4_FpageLog2 b 14) = 0x4000" for b by (simp add: L4_Size_def L4_FpageLog2_def X_s_set)
  have a: "L4_Address (L4_FpageLog2 0x3000 14) = 0" by (subst Address_FpageLog2) (simp_all add: mask_eq_exp_minus_1)
  show ?thesis by (simp add: sigma0_pages_def Let_def f z a FpageLog2_not_nil)
qed

end
