(* ===== verification/Program_Output.thy ===== *)
theory Program_Output
  imports Format_Props Service_Props
begin

unbundle bit_operations_syntax

text \<open>
  What a program of the run-time library says to the executive: \<open>rtl$print\<close> (\<open>librtl/rtl_print.c\<close>) and
  the end of a program (\<open>librtl/rtl_init.c\<close>), with the messages as the inline routines of
  \<open>l4/message.h\<close> build them. The transfer of a message belongs to the L4 kernel: \<open>delivered\<close> says what the
  executive finds when a message has arrived.
\<close>

section \<open>Messages\<close>

record letter =
  lt_to :: thread_id
  lt_tag :: u64
  lt_words :: "u64 list"
  lt_bytes :: "u8 list"

text \<open>The tag has the number of untyped words in its six low bits, the number of typed words in the
  next six, and the label from bit 16 on.\<close>

definition msg_tag_of :: "u64 \<Rightarrow> u64 \<Rightarrow> u64 \<Rightarrow> u64" where
  "msg_tag_of label t u = push_bit 16 label OR push_bit 6 t OR u"

text \<open>The first word of a simple string item: type, \<open>j\<close>, \<open>c\<close> and \<open>C\<close> are 0.\<close>

definition L4_StringItem :: "nat \<Rightarrow> u64" where
  "L4_StringItem n = push_bit 10 (of_nat n)"

definition char_byte :: "char \<Rightarrow> u8" where
  "char_byte c = of_char c"

text \<open>A message with one string, whose address is \<open>ptr\<close>, and one with one word.\<close>

definition string_letter :: "thread_id \<Rightarrow> u64 \<Rightarrow> u64 \<Rightarrow> string \<Rightarrow> letter" where
  "string_letter dest label ptr str =
     \<lparr>lt_to = dest, lt_tag = msg_tag_of label 2 0, lt_words = [L4_StringItem (length str), ptr],
      lt_bytes = map char_byte str\<rparr>"

definition word_letter :: "thread_id \<Rightarrow> u64 \<Rightarrow> u64 \<Rightarrow> letter" where
  "word_letter dest label w = \<lparr>lt_to = dest, lt_tag = msg_tag_of label 0 1, lt_words = [w], lt_bytes = []\<rparr>"

text \<open>The buffer of the loop has one byte more than the longest string.\<close>

definition delivered :: "letter \<Rightarrow> message \<Rightarrow> bool" where
  "delivered l m \<longleftrightarrow> msg_tag m = lt_tag l \<and> (\<forall>i < length (lt_words l). msg_words m i = lt_words l ! i) \<and>
     take (length (lt_bytes l)) (msg_string m) = lt_bytes l \<and> length (msg_string m) = MAX_STRINGITEM_LENGTH + 1"

section \<open>Printing and the end of a program\<close>

text \<open>A format descriptor: the characters in use and those behind them.\<close>

record fmt_string =
  fs_trim :: nat
  fs_chars :: string

text \<open>\<open>rtl$print\<close>: the message that is sent, if any. The buffer has 1024 characters and the address \<open>ptr\<close>.\<close>

definition rtl_print ::
    "'d fpu \<Rightarrow> thread_id \<Rightarrow> u64 \<Rightarrow> fmt_string option \<Rightarrow> 'd arg list \<Rightarrow> letter option outcome" where
  "rtl_print F roottask ptr fmt as =
     (case fmt of
        None \<Rightarrow> Ret None
      | Some f \<Rightarrow>
          bindo (rtl_sprint F 1024 (fs_trim f) (fs_chars f) as) (\<lambda>str.
            Ret (if length str \<le> MAX_STRINGITEM_LENGTH then Some (string_letter roottask SYSCALL_PRINT ptr str) else None)))"

text \<open>The state that \<open>__bootstrap\<close> sets up from its arguments: the identifiers of the executive and of
  the parent, and the message of the program, a C string or a null pointer. The two variants of the
  routine are the same.\<close>

record program =
  roottask_tid :: thread_id
  parent_tid :: thread_id
  end_message :: fmt_string

definition bootstrap :: "u64 \<Rightarrow> u64 \<Rightarrow> string option \<Rightarrow> program" where
  "bootstrap arg0 arg1 arg2 =
     \<lparr>roottask_tid = arg0, parent_tid = arg1,
      end_message = (case arg2 of
         None \<Rightarrow> \<lparr>fs_trim = 0, fs_chars = []\<rparr>
       | Some s \<Rightarrow> \<lparr>fs_trim = length s, fs_chars = s @ [CHR 0x00]\<rparr>)\<rparr>"

text \<open>\<open>exit\<close>: the messages in their order; the last one is answered by the end of the thread.\<close>

definition exit_letters :: "'d fpu \<Rightarrow> thread_id \<Rightarrow> u64 \<Rightarrow> program \<Rightarrow> u32 \<Rightarrow> letter list outcome" where
  "exit_letters F myself ptr p v =
     (let first = word_letter (parent_tid p) SYSCALL_EXIT_VALUE (scast v);
          last = word_letter (roottask_tid p) SYSCALL_KILL_THREAD myself
      in if fs_trim (end_message p) \<noteq> 0
         then bindo (rtl_print F (roottask_tid p) ptr (Some (end_message p)) []) (\<lambda>r.
                Ret (case r of None \<Rightarrow> [first, last] | Some l \<Rightarrow> [first, l, last]))
         else Ret [first, last])"

section \<open>What the executive prints\<close>

lemma drop_push_small:
  assumes "unat (w :: u64) < 2 ^ (64 - n)" "n < 64"
  shows "drop_bit n (push_bit n w) = w"
proof -
  have "take_bit (64 - n) w = w" using assms(1) by (simp add: word_unat_eq_iff unsigned_take_bit_eq take_bit_nat_eq_self)
  moreover have "drop_bit n (push_bit n w) = take_bit (64 - n) w"
    using assms(2) by (intro bit_eqI) (auto simp: bit_simps)
  ultimately show ?thesis by simp
qed

lemma label_of_tag:
  assumes "label < 2 ^ 40" "(t, u) \<in> {(2, 0), (0, 1)}"
  shows "L4_Label (msg_tag_of label t u) = label"
proof -
  have "drop_bit 16 (push_bit 16 label) = label" using assms(1) by (intro drop_push_small) (simp_all add: word_less_nat_alt)
  moreover have "drop_bit 16 (push_bit 6 t OR u) = 0" using assms(2) by (elim insertE) simp_all
  ultimately show ?thesis by (simp add: L4_Label_def msg_tag_of_def drop_bit_or)
qed

lemma string_item_length: "n < 2 ^ 20 \<Longrightarrow> string_length (L4_StringItem n) = n"
proof -
  assume n: "n < 2 ^ 20"
  have "drop_bit 10 (push_bit 10 (of_nat n :: u64)) = of_nat n" using n by (intro drop_push_small) (simp_all add: unat_of_nat)
  then show ?thesis using n by (simp add: string_length_def L4_StringItem_def unat_of_nat)
qed

lemma print_letter_plain:
  assumes "delivered (string_letter dest SYSCALL_PRINT ptr str) m" "length str \<le> MAX_STRINGITEM_LENGTH"
  shows "plain m" "answer m = (Word_reply 0, c_text (map char_byte str))"
proof -
  have t: "L4_Label (msg_tag m) = SYSCALL_PRINT"
    using assms(1) by (simp add: delivered_def string_letter_def label_of_tag SYSCALL_PRINT_def)
  have n: "string_length (msg_words m 0) = length str"
    using assms by (simp add: delivered_def string_letter_def string_item_length MAX_STRINGITEM_LENGTH_def)
  have b: "take (length str) (msg_string m) = map char_byte str" "length (msg_string m) = MAX_STRINGITEM_LENGTH + 1"
    using assms(1) by (simp_all add: delivered_def string_letter_def)
  show "plain m" using t n b(2) assms(2) by (simp add: plain_def)
  have "take k (takeWhile P xs) = takeWhile P (take k xs)" for k P and xs :: "u8 list"
    by (induction xs arbitrary: k) (auto simp: take_Cons')
  then show "answer m = (Word_reply 0, c_text (map char_byte str))"
    using t n b(1) by (simp add: answer_def c_text_def)
qed

lemma rtl_print_sends:
  assumes "rtl_sprint F 1024 (fs_trim f) (fs_chars f) as = Ret str" "length str \<le> 1024"
  shows "rtl_print F root ptr (Some f) as = Ret (Some (string_letter root SYSCALL_PRINT ptr str))"
  using assms by (simp add: rtl_print_def MAX_STRINGITEM_LENGTH_def)

text \<open>C19: what a program prints is what the executive puts on the console. When the formatting ends,
  the text is sent to the executive; when that message arrives, the server loop prints the text (up to
  its first zero character), answers the word 0 and leaves the state of the system as it was.\<close>

theorem printed_on_console:
  assumes "rtl_sprint F 1024 (fs_trim f) (fs_chars f) as = Ret str"
  shows "\<exists>l. rtl_print F root ptr (Some f) as = Ret (Some l) \<and> lt_to l = root \<and>
    (\<forall>m. delivered l m \<longrightarrow> loop_step n E stop m s = Ret (Word_reply 0, c_text (map char_byte str), s))"
proof -
  let ?l = "string_letter root SYSCALL_PRINT ptr str"
  have len: "length str \<le> 1024" by (rule sprint_length [OF assms])
  then have "length str \<le> MAX_STRINGITEM_LENGTH" by (simp add: MAX_STRINGITEM_LENGTH_def)
  then have "\<forall>m. delivered ?l m \<longrightarrow> loop_step n E stop m s = Ret (Word_reply 0, c_text (map char_byte str), s)"
    using print_letter_plain loop_step_plain by (metis fst_conv snd_conv)
  then show ?thesis using rtl_print_sends [OF assms len] by (simp add: string_letter_def)
qed

definition hello_fmt :: fmt_string where
  "hello_fmt = \<lparr>fs_trim = 2, fs_chars = ''Hi'' @ [CHR 0x00]\<rparr>"

definition hello_message :: message where
  "hello_message = \<lparr>from_thread = 5, msg_tag = msg_tag_of SYSCALL_PRINT 2 0,
     msg_words = (\<lambda>i. if i = 0 then L4_StringItem 2 else 0x1000), msg_string = [72, 105] @ replicate 4095 33\<rparr>"

lemma hello_sprint: "rtl_sprint (F :: unit fpu) 1024 (fs_trim hello_fmt) (fs_chars hello_fmt) [] = Ret ''Hi''"
  using sprint_finish [of "''Hi''" 0 2 1024 F "CHR 0x00" "[]" "[]" "[]"] by (simp add: rtl_sprint_def hello_fmt_def)

theorem printed_on_console_witness:
  "\<exists>l. rtl_print (undefined :: unit fpu) 9 0x1000 (Some hello_fmt) [] = Ret (Some l) \<and> delivered l hello_message \<and>
     loop_step 0 sample_env (\<lambda>_ k. k) hello_message sample_kmem = Ret (Word_reply 0, [72, 105], sample_kmem)"
proof -
  let ?l = "string_letter 9 SYSCALL_PRINT 0x1000 ''Hi''"
  have "delivered ?l hello_message"
    by (simp add: delivered_def string_letter_def hello_message_def char_byte_def MAX_STRINGITEM_LENGTH_def L4_StringItem_def less_Suc_eq)
  moreover have "rtl_print (undefined :: unit fpu) 9 0x1000 (Some hello_fmt) [] = Ret (Some ?l)"
    by (rule rtl_print_sends [OF hello_sprint]) simp
  moreover have "c_text (map char_byte ''Hi'') = [72, 105]" by (simp add: c_text_def char_byte_def)
  ultimately show ?thesis
    using printed_on_console [where root = 9 and ptr = "0x1000" and n = 0 and E = sample_env and stop = "\<lambda>_ k. k"
      and s = sample_kmem, OF hello_sprint [of undefined]] by auto
qed

text \<open>The end of a program whose parent is the executive: the value it returns is answered, its message
  is printed, and the last message makes the executive stop and delete the thread.\<close>

lemma exit_value_plain: "delivered (word_letter dest SYSCALL_EXIT_VALUE w) m \<Longrightarrow> plain m \<and> answer m = (Word_reply 0, [])"
  by (simp add: delivered_def word_letter_def label_of_tag plain_def answer_def SYSCALL_EXIT_VALUE_def SYSCALL_PRINT_def)

lemma kill_letter_step:
  assumes "delivered (word_letter dest SYSCALL_KILL_THREAD tid) m"
  shows "loop_step n E stop m s =
    (let s = s\<lparr>k_l4 := stop tid (k_l4 s)\<rparr>
     in bindo (sys_thread_lookup tid s) (\<lambda>th.
        bindo (if th = 0 then Fault else sys_thread_delete n E th s) (\<lambda>s. Ret (No_reply, [], s))))"
proof -
  have l: "L4_Label (msg_tag m) = SYSCALL_KILL_THREAD" "msg_words m 0 = tid"
    using assms by (simp_all add: delivered_def word_letter_def label_of_tag SYSCALL_KILL_THREAD_def)
  then have "L4_Label (msg_tag m) < 2 ^ 40" by (simp add: SYSCALL_KILL_THREAD_def)
  then have "msg_tag m AND L4_REQUEST_MASK \<noteq> L4_PAGEFAULT" using request_label by blast
  then show ?thesis using l by (simp add: loop_step_def syscall_defs)
qed

lemma program_exit:
  assumes "end_message p = f" "fs_trim f \<noteq> 0" "rtl_sprint F 1024 (fs_trim f) (fs_chars f) [] = Ret str"
  shows "\<exists>l1 l2 l3. exit_letters F me ptr p v = Ret [l1, l2, l3] \<and> lt_words l1 = [scast v] \<and>
    (\<forall>m1 m2 m3. delivered l1 m1 \<longrightarrow> delivered l2 m2 \<longrightarrow> delivered l3 m3 \<longrightarrow>
      sys_loop n E stop [m1, m2, m3] s =
        (let s' = s\<lparr>k_l4 := stop me (k_l4 s)\<rparr>
         in bindo (sys_thread_lookup me s') (\<lambda>th.
            bindo (if th = 0 then Fault else sys_thread_delete n E th s') (\<lambda>s2.
              Ret ([(Word_reply 0, []), (Word_reply 0, c_text (map char_byte str)), (No_reply, [])], s2)))))"
proof -
  let ?l1 = "word_letter (parent_tid p) SYSCALL_EXIT_VALUE (scast v)" and ?l3 = "word_letter (roottask_tid p) SYSCALL_KILL_THREAD me"
  let ?l2 = "string_letter (roottask_tid p) SYSCALL_PRINT ptr str"
  have len: "length str \<le> 1024" by (rule sprint_length [OF assms(3)])
  have e: "exit_letters F me ptr p v = Ret [?l1, ?l2, ?l3]"
    using assms rtl_print_sends [OF assms(3) len] by (simp add: exit_letters_def)
  have "length str \<le> MAX_STRINGITEM_LENGTH" using len by (simp add: MAX_STRINGITEM_LENGTH_def)
  then have "delivered ?l1 m1 \<Longrightarrow> delivered ?l2 m2 \<Longrightarrow> delivered ?l3 m3 \<Longrightarrow> sys_loop n E stop [m1, m2, m3] s =
        (let s' = s\<lparr>k_l4 := stop me (k_l4 s)\<rparr>
         in bindo (sys_thread_lookup me s') (\<lambda>th.
            bindo (if th = 0 then Fault else sys_thread_delete n E th s') (\<lambda>s2.
              Ret ([(Word_reply 0, []), (Word_reply 0, c_text (map char_byte str)), (No_reply, [])], s2))))" for m1 m2 m3
    using print_letter_plain [of "roottask_tid p" ptr str m2] exit_value_plain [of "parent_tid p" "scast v" m1]
    by (simp add: loop_step_plain kill_letter_step Let_def bindo_assoc cong: bindo_cong)
  then show ?thesis using e by (intro exI [of _ ?l1] exI [of _ ?l2] exI [of _ ?l3]) (simp add: word_letter_def)
qed

end
