(* ===== verification/Vms_Time.thy ===== *)
theory Vms_Time
  imports Prelude "HOL-Library.Signed_Division"
begin

unbundle bit_operations_syntax

text \<open>
  The date and time routines of the user library, \<open>userland/rtl\<close>: \<open>lib_addx.c\<close>, \<open>lib_subx.c\<close>,
  \<open>lib_add_times.c\<close>, \<open>lib_sub_times.c\<close>, \<open>lib_mult_delta_time.c\<close>, \<open>sys__combine_date_time.c\<close>,
  \<open>sys_gettim.c\<close>, \<open>lib_day.c\<close>, \<open>lib_day_of_week.c\<close>, \<open>sys_numtim.c\<close> and \<open>lib_cvt_vectim.c\<close>.

  A time is a quadword of eight bytes, the lowest first, that counts units of 100 nanoseconds since
  17-NOV-1858; a delta time is the negative of its length. The routines work byte by byte in an
  \<open>unsigned\<close> (32 bits) or \<open>unsigned long\<close> (64 bits) accumulator. The overflow of an \<open>int\<close> is
  undefined, a fault.
\<close>

section \<open>Status values\<close>

definition SS_NORMAL :: u64 where "SS_NORMAL = 1"
definition SS_IVTIME :: u64 where "SS_IVTIME = 0x184"
definition SS_INTOVF :: u64 where "SS_INTOVF = 0x47C"
definition LIB_ONEDELTIM :: u64 where "LIB_ONEDELTIM = 0x1583E4"

lemmas status_defs = SS_NORMAL_def SS_IVTIME_def SS_INTOVF_def LIB_ONEDELTIM_def

type_synonym quadword = "u8 list"

text \<open>The number of bytes of an operand: the argument counts longwords; without one it is a quadword.\<close>

definition operand_count :: "int option \<Rightarrow> int" where
  "operand_count lenadd = (case lenadd of None \<Rightarrow> 8 | Some n \<Rightarrow> n * 4)"

section \<open>Addition, subtraction, multiplication\<close>

fun addx_loop :: "u8 list \<Rightarrow> u8 list \<Rightarrow> u64 \<Rightarrow> u8 list" where
  "addx_loop (x # a) (y # b) carry =
     (let carry = ucast x + (carry + ucast y) in ucast carry # addx_loop a b (drop_bit 8 carry))"
| "addx_loop _ _ carry = []"

text \<open>Bytes outside the operands are not read: with a count that is not positive, or beyond the
  operands, the routine reads other memory.\<close>

definition operands_fit :: "int \<Rightarrow> u8 list \<Rightarrow> u8 list \<Rightarrow> bool" where
  "operands_fit count a b \<longleftrightarrow> 0 < count \<and> count \<le> int (length a) \<and> count \<le> int (length b)"

definition lib_addx :: "u8 list \<Rightarrow> u8 list \<Rightarrow> int option \<Rightarrow> (u64 \<times> u8 list) outcome" where
  "lib_addx a b lenadd =
     (let count = operand_count lenadd
      in fault_if (\<not> operands_fit count a b)
           (let n = nat count;
                sign_a = drop_bit 7 (a ! (n - 1));
                sign_b = drop_bit 7 (b ! (n - 1));
                c = addx_loop (take n a) (take n b) 0;
                sign_result = drop_bit 7 (c ! (n - 1))
            in Ret (if sign_a = 1 \<and> sign_b = 1 \<and> sign_result = 0 then SS_INTOVF
                    else if sign_b = 0 \<and> sign_b = 0 \<and> sign_result = 1 then SS_INTOVF
                    else SS_NORMAL, c)))"

fun subx_loop :: "u8 list \<Rightarrow> u8 list \<Rightarrow> u64 \<Rightarrow> u8 list" where
  "subx_loop (x # a) (y # b) carry =
     (let carry = ucast x - (carry + ucast y) in ucast carry # subx_loop a b (drop_bit 8 carry AND 1))"
| "subx_loop _ _ carry = []"

definition lib_subx :: "u8 list \<Rightarrow> u8 list \<Rightarrow> int option \<Rightarrow> (u64 \<times> u8 list) outcome" where
  "lib_subx ant ee lenadd =
     (let count = operand_count lenadd
      in if count \<le> 0 then Ret (SS_NORMAL, [])
         else fault_if (\<not> operands_fit count ant ee) (Ret (SS_NORMAL, subx_loop (take (nat count) ant) (take (nat count) ee) 0)))"

definition is_delta :: "quadword \<Rightarrow> bool" where
  "is_delta q \<longleftrightarrow> q ! 7 AND 0x80 \<noteq> 0"

text \<open>The sum of two times, one of them a delta time at least. The result is written only when it is
  computed; \<open>r\<close> is what the result holds before.\<close>

definition lib_add_times :: "quadword \<Rightarrow> quadword \<Rightarrow> quadword \<Rightarrow> (u64 \<times> quadword) outcome" where
  "lib_add_times time1 time2 r =
     (if is_delta time1
      then if is_delta time2 then lib_addx time1 time2 None else lib_subx time2 time1 None
      else if is_delta time2 then lib_subx time1 time2 None else Ret (LIB_ONEDELTIM, r))"

text \<open>The comparison from the highest byte down; the value of the last difference that is looked at.\<close>

fun cmp_loop :: "u8 list \<Rightarrow> u8 list \<Rightarrow> int" where
  "cmp_loop (x # a) (y # b) = (if x \<noteq> y \<or> a = [] \<or> b = [] then uint x - uint y else cmp_loop a b)"
| "cmp_loop _ _ = 0"

definition lib_sub_times :: "quadword \<Rightarrow> quadword \<Rightarrow> (u64 \<times> quadword) outcome" where
  "lib_sub_times time1 time2 =
     (if is_delta time1 \<noteq> is_delta time2 then lib_addx time1 time2 None
      else if cmp_loop (rev time1) (rev time2) < 0 then lib_subx time1 time2 None
      else lib_subx time2 time1 None)"

text \<open>The product of a byte and the factor is a \<open>long\<close>; the accumulator keeps its 32 low bits.\<close>

fun mult_loop :: "int \<Rightarrow> u32 \<Rightarrow> u8 list \<Rightarrow> u8 list outcome" where
  "mult_loop factor carry [] = Ret []"
| "mult_loop factor carry (b # bs) =
     fault_if (2 ^ 63 \<le> uint carry + uint b * factor)
       (let carry = carry + word_of_int (uint b * factor)
        in bindo (mult_loop factor (drop_bit 8 carry) bs) (\<lambda>r. Ret (ucast carry # r)))"

definition lib_mult_delta_time :: "u64 \<Rightarrow> quadword \<Rightarrow> (u64 \<times> quadword) outcome" where
  "lib_mult_delta_time multiple q =
     (if is_delta q
      then fault_if (sint multiple = - (2 ^ 63)) (bindo (mult_loop \<bar>sint multiple\<bar> 0 q) (\<lambda>q. Ret (SS_NORMAL, q)))
      else Ret (SS_IVTIME, q))"

section \<open>Days and hundredths\<close>

fun store_bytes :: "nat \<Rightarrow> u64 \<Rightarrow> u8 list" where
  "store_bytes 0 t = []"
| "store_bytes (Suc n) t = ucast t # store_bytes n (drop_bit 8 t)"

text \<open>The loops that multiply in place: the product \<open>*ptr * TIMESIZE\<close> is an \<open>int\<close>.\<close>

fun scale_loop :: "int \<Rightarrow> u64 \<Rightarrow> u8 list \<Rightarrow> u8 list outcome" where
  "scale_loop f time [] = Ret []"
| "scale_loop f time (b # bs) =
     fault_if (\<not> int_range (uint b * f))
       (let time = time + word_of_int (uint b * f)
        in bindo (scale_loop f (drop_bit 8 time) bs) (\<lambda>r. Ret (ucast time # r)))"

definition TIMEBASE :: int where "TIMEBASE = 100000"
definition TIMESIZE :: int where "TIMESIZE = 8640000"

text \<open>\<open>days\<close> and \<open>day_time\<close> are values of \<open>int\<close>; \<open>q\<close> is what the quadword holds before.\<close>

definition combine_date_time :: "int \<Rightarrow> quadword \<Rightarrow> int \<Rightarrow> (u64 \<times> quadword) outcome" where
  "combine_date_time days q day_time =
     (if TIMESIZE \<le> day_time then Ret (SS_IVTIME, q)
      else bindo (scale_loop TIMESIZE (word_of_int day_time) (store_bytes 8 (word_of_int days))) (\<lambda>q.
           bindo (scale_loop TIMEBASE 0 q) (\<lambda>q. Ret (SS_NORMAL, q))))"

text \<open>The current time: \<open>curtim\<close> is what \<open>time\<close> returns less the time zone, in seconds since 1970. The
  division of C rounds towards zero.\<close>

definition sys_gettim :: "int \<Rightarrow> quadword \<Rightarrow> (u64 \<times> quadword) outcome" where
  "sys_gettim curtim q =
     combine_date_time (sint (word_of_int (40587 + curtim sdiv 86400) :: u32)) q
       (sint (word_of_int ((curtim smod 86400) * 100) :: u32))"

fun negate_loop :: "u32 \<Rightarrow> u8 list \<Rightarrow> u8 list" where
  "negate_loop time [] = []"
| "negate_loop time (b # bs) =
     (let time = time + (NOT (ucast b) AND 0xFF) in ucast time # negate_loop (drop_bit 8 time) bs)"

text \<open>The divisions, from the highest byte down.\<close>

fun cut_loop :: "u32 \<Rightarrow> u8 list \<Rightarrow> u8 list" where
  "cut_loop time [] = []"
| "cut_loop time (b # bs) =
     (let time = push_bit 8 time OR ucast b in ucast (time div 100000) # cut_loop (time mod 100000) bs)"

fun days_loop :: "u32 \<Rightarrow> u32 \<Rightarrow> u8 list \<Rightarrow> u32 \<times> u32" where
  "days_loop date time [] = (date, time)"
| "days_loop date time (b # bs) =
     (let time = push_bit 8 time OR ucast b
      in days_loop (push_bit 8 date OR (time div 8640000)) (time mod 8640000) bs)"

definition crack :: "quadword \<Rightarrow> int \<times> int" where
  "crack q =
     (let delta = is_delta q;
          wrktim = (if delta then negate_loop 1 q else q);
          (date, time) = days_loop 0 0 (cut_loop 0 (rev wrktim))
      in if delta then (- sint date, - sint time) else (uint date, sint time))"

text \<open>\<open>lib$day\<close>: day number and hundredths of seconds, negative for a delta time. Without a time the
  current one is taken; its sign is not looked at.\<close>

definition lib_day :: "int \<Rightarrow> quadword option \<Rightarrow> (u64 \<times> (int \<times> int) option) outcome" where
  "lib_day curtim timadr =
     (case timadr of
        None \<Rightarrow>
          bindo (sys_gettim curtim (replicate 8 0)) (\<lambda>(sts, wrktim).
            if sts AND 1 = 0 then Ret (sts, None)
            else let (date, time) = days_loop 0 0 (cut_loop 0 (rev wrktim)) in Ret (SS_NORMAL, Some (uint date, sint time)))
      | Some q \<Rightarrow> Ret (SS_NORMAL, Some (crack q)))"

definition lib_day_of_week :: "int \<Rightarrow> quadword option \<Rightarrow> (u64 \<times> int option) outcome" where
  "lib_day_of_week curtim timadr =
     bindo (lib_day curtim timadr) (\<lambda>(sts, r).
       Ret (sts, case r of None \<Rightarrow> None | Some (days, _) \<Rightarrow> Some ((days + 2) smod 7 + 1)))"

section \<open>The calendar\<close>

definition month_days :: "int list" where
  "month_days = [31, 29, 31, 30, 31, 30, 31, 31, 30, 31, 30, 31]"

fun month_loop :: "int \<Rightarrow> int \<Rightarrow> int list \<Rightarrow> (int \<times> int) outcome" where
  "month_loop date month [] = Fault"
| "month_loop date month (d # ds) = (if date > d then month_loop (date - d) (month + 1) ds else Ret (month, date))"

definition OFFSET_DAYS :: int where "OFFSET_DAYS = 94187"

text \<open>The branch for dates: year, month and day. All values are small and not negative.\<close>

definition calendar :: "int \<Rightarrow> (int \<times> int \<times> int) outcome" where
  "calendar date =
     (let date = date + OFFSET_DAYS;
          year = 1601 + (date div 146097) * 400;
          date = date mod 146097;
          month = date div 36524;
          month = (if month = 4 then 3 else month);
          date = date - month * 36524;
          year = year + month * 100;
          year = year + (date div 1461) * 4;
          date = date mod 1461;
          month = date div 365;
          month = (if month = 4 then 3 else month);
          date = date - month * 365;
          year = year + month;
          late = date > 58;
          date = date + 1;
          date = (if late then if month \<noteq> 3 then date + 1
                               else if year mod 100 = 0 \<and> year mod 400 \<noteq> 0 then date + 1 else date
                  else date)
      in bindo (month_loop date 1 month_days) (\<lambda>(month, date). Ret (year, month, date)))"

text \<open>The seven words: year, month, day, hour, minute, second, hundredth.\<close>

definition numtim_fields :: "int \<Rightarrow> int \<Rightarrow> u16 list outcome" where
  "numtim_fields date time =
     bindo (if date < 0 \<or> time < 0 then Ret (0, 0, - date) else calendar date) (\<lambda>(year, month, day).
       let time = (if date < 0 \<or> time < 0 then - time else time)
       in Ret (map word_of_int [year, month, day, time div 100 div 60 div 60, time div 100 div 60 mod 60, time div 100 mod 60,
            time mod 100]))"

text \<open>\<open>sys$numtim\<close>. The variable that \<open>lib$day\<close> stores the days into is an \<open>int\<close>: what it holds are the
  low 32 bits.\<close>

definition sys_numtim :: "int \<Rightarrow> u16 list \<Rightarrow> quadword option \<Rightarrow> (u64 \<times> u16 list) outcome" where
  "sys_numtim curtim timbuf timadr =
     bindo (lib_day curtim timadr) (\<lambda>(sts, r).
       case r of
         None \<Rightarrow> Ret (sts, timbuf)
       | Some (days, day_time) \<Rightarrow>
           bindo (numtim_fields (sint (word_of_int days :: u32)) day_time) (\<lambda>t. Ret (SS_NORMAL, t)))"

definition month_end :: "int list" where
  "month_end = [0, 31, 59, 90, 120, 151, 181, 212, 243, 273, 304, 334, 365]"

definition leap_day :: "int \<Rightarrow> int \<Rightarrow> int" where
  "leap_day year month =
     (if month \<ge> 2 \<and> year mod 4 = 0 \<and> (year mod 100 = 0 \<longrightarrow> year mod 400 = 0) then 1 else 0)"

text \<open>The day number of a date, or \<open>None\<close> for the status \<open>SS$_IVTIME\<close>. The variable is \<open>unsigned\<close>.\<close>

definition vectim_days :: "int \<Rightarrow> int \<Rightarrow> int \<Rightarrow> u32 option" where
  "vectim_days year month day =
     (let leap = leap_day year month
      in if year \<ge> 1858 \<and> year \<le> 9999 \<and> month \<ge> 1 \<and> month \<le> 12 \<and> day \<ge> 1
         then let days = day + month_end ! nat (month - 1) + (if month > 2 then leap else 0)
              in if days \<le> month_end ! nat month + leap
                 then let year = year - 1601
                      in Some (word_of_int (days + (year * 365 + year div 4 - year div 100 + year div 400 - OFFSET_DAYS - 1)))
                 else None
         else None)"

definition lib_cvt_vectim :: "u16 list \<Rightarrow> quadword \<Rightarrow> (u64 \<times> quadword) outcome" where
  "lib_cvt_vectim timbuf q =
     (let f = (\<lambda>i. uint (timbuf ! i));
          delta = (f 0 = 0 \<and> f 1 = 0);
          days = (if delta then Some (word_of_int (f 2)) else vectim_days (f 0) (f 1) (f 2))
      in if f 3 > 23 \<or> f 4 > 59 \<or> f 5 > 59 \<or> f 6 > 99 \<or> days = None then Ret (SS_IVTIME, q)
         else bindo (combine_date_time (sint (the days)) q (f 3 * 360000 + f 4 * 6000 + f 5 * 100 + f 6)) (\<lambda>(sts, q).
                Ret (sts, if delta then negate_loop 1 q else q)))"

end
