(* ===== verification/Time_Props.thy ===== *)
theory Time_Props
  imports Vms_Time
begin

unbundle bit_operations_syntax

text \<open>
  What the byte loops of the time routines compute, as numbers: sums, differences, products, and the
  splitting of a quadword into days and hundredths of seconds.
\<close>

section \<open>The value of bytes\<close>

primrec quadval :: "u8 list \<Rightarrow> int" where
  "quadval [] = 0"
| "quadval (b # bs) = uint b + 256 * quadval bs"

lemma byte_bounds: "0 \<le> uint (b :: u8)" "uint (b :: u8) < 256"
  using uint_lt2p [of b] by simp_all

lemma quad_bounds: "0 \<le> quadval q" "quadval q < 256 ^ length q"
proof (induction q)
  case (Cons b q)
  case 1 show ?case using Cons(1) byte_bounds [of b] by simp
  case 2 show ?case using Cons(2) byte_bounds [of b] by simp
qed simp_all

lemma carry_step: "0 < m \<Longrightarrow> (x :: int) mod 256 + 256 * ((x div 256 + y) mod m) = (x + 256 * y) mod (256 * m)"
  using zmod_zmult2_eq [of m "x + 256 * y" 256] by (simp add: add.commute)

lemma uint_low_byte: "uint (ucast (t :: u64) :: u8) = uint t mod 256" "uint (ucast (u :: u32) :: u8) = uint u mod 256"
  by (simp_all add: unsigned_ucast_eq take_bit_eq_mod)

lemma uint_high: "uint (drop_bit 8 (t :: u64)) = uint t div 256" "uint (drop_bit 8 (u :: u32)) = uint u div 256"
  using uint_lt2p [of t] uint_lt2p [of u]
  by (simp_all only: unsigned_drop_bit_eq) (simp_all add: drop_bit_eq_div take_bit_eq_mod)

lemma uint_byte: "uint (ucast (b :: u8) :: u64) = uint b" "uint (ucast (b :: u8) :: u32) = uint b"
  using byte_bounds [of b] by (simp_all add: unsigned_ucast_eq take_bit_eq_mod)

section \<open>Addition and subtraction\<close>

lemma addx_loop_value:
  "length a = length b \<Longrightarrow> uint c < 256 \<Longrightarrow>
   quadval (addx_loop a b c) = (uint c + quadval a + quadval b) mod 256 ^ length a \<and> length (addx_loop a b c) = length a"
proof (induction a b c rule: addx_loop.induct)
  case (1 x a y b c)
  define t :: u64 where "t = ucast x + (c + ucast y)"
  have t: "uint t = uint x + uint y + uint c"
    using "1.prems"(2) byte_bounds [of x] byte_bounds [of y] by (simp add: t_def uint_word_ariths uint_byte)
  have "uint (drop_bit 8 t) < 256" using t byte_bounds [of x] byte_bounds [of y] "1.prems"(2) by (simp add: uint_high)
  then have "quadval (addx_loop a b (drop_bit 8 t)) = (uint t div 256 + (quadval a + quadval b)) mod 256 ^ length a"
    "length (addx_loop a b (drop_bit 8 t)) = length a"
    using "1.IH" [OF t_def] "1.prems"(1) by (simp_all add: uint_high add.assoc)
  then show ?case
    using carry_step [of "256 ^ length a" "uint t" "quadval a + quadval b"]
    by (simp add: Let_def uint_low_byte t_def [symmetric]) (simp add: t algebra_simps)
qed simp_all

lemma uint_borrow: "uint (drop_bit 8 (t :: u64) AND 1) = uint t div 256 mod 2"
  by (simp only: and_one_eq uint_mod uint_high) simp

lemma borrow_value: "- 256 \<le> i \<Longrightarrow> i < 256 \<Longrightarrow> (i :: int) mod 2 ^ 64 div 256 mod 2 = - (i div 256)"
proof -
  assume b: "- 256 \<le> i" "i < 256"
  show ?thesis
  proof (cases "i < 0")
    case True
    then have d: "i div 256 = - 1" using b by (simp add: div_pos_neg_trivial)
    have "i mod 2 ^ 64 = (i + 2 ^ 64) mod 2 ^ 64" by simp
    also have "\<dots> = i + 2 ^ 64" using True b by (intro mod_pos_pos_trivial) simp_all
    finally have m: "i mod 2 ^ 64 = i + 2 ^ 64" .
    have "(i + 2 ^ 64) div 256 = i div 256 + 2 ^ 56" by simp
    then show ?thesis using d by (simp only: m) simp
  qed (use b in simp)
qed

lemma subx_loop_value:
  "length a = length b \<Longrightarrow> uint c < 2 \<Longrightarrow>
   quadval (subx_loop a b c) = (quadval a - quadval b - uint c) mod 256 ^ length a \<and> length (subx_loop a b c) = length a"
proof (induction a b c rule: subx_loop.induct)
  case (1 x a y b c)
  define t :: u64 where "t = ucast x - (c + ucast y)"
  let ?i = "uint x - uint y - uint c"
  have b: "- 256 \<le> ?i" "?i < 256" using "1.prems"(2) byte_bounds [of x] byte_bounds [of y] uint_ge_0 [of c] by linarith+
  have t: "uint t = ?i mod 2 ^ 64"
  proof -
    have "t = word_of_int ?i" unfolding t_def by (simp add: uint_byte diff_diff_eq add.commute)
    then have "uint t = uint (word_of_int ?i :: u64)" by (rule arg_cong)
    then show ?thesis by (simp only: uint_word_of_int) simp
  qed
  have l: "uint t mod 256 = ?i mod 256" unfolding t by (rule mod_mod_cancel) simp
  have h: "uint (drop_bit 8 t AND 1) = - (?i div 256)" unfolding uint_borrow t by (rule borrow_value [OF b])
  then have "uint (drop_bit 8 t AND 1) < 2" using b by simp
  then have "quadval (subx_loop a b (drop_bit 8 t AND 1)) = (?i div 256 + (quadval a - quadval b)) mod 256 ^ length a"
    "length (subx_loop a b (drop_bit 8 t AND 1)) = length a"
    using "1.IH" [OF t_def] "1.prems"(1) by (simp_all add: h algebra_simps)
  then show ?case
    using carry_step [of "256 ^ length a" ?i "quadval a - quadval b"]
    by (simp add: Let_def uint_low_byte l t_def [symmetric]) (simp add: algebra_simps)
qed simp_all

lemma take_all: "length a = 8 \<Longrightarrow> take 8 a = a"
  by simp

lemma quadword_addx:
  assumes "length a = 8" "length b = 8"
  shows "\<exists>sts c. lib_addx a b None = Ret (sts, c) \<and> length c = 8 \<and> quadval c = (quadval a + quadval b) mod 2 ^ 64"
  using addx_loop_value [of a b 0] assms by (simp add: lib_addx_def operand_count_def operands_fit_def Let_def)

lemma quadword_subx:
  assumes "length a = 8" "length b = 8"
  shows "\<exists>c. lib_subx a b None = Ret (SS_NORMAL, c) \<and> length c = 8 \<and> quadval c = (quadval a - quadval b) mod 2 ^ 64"
  using subx_loop_value [of a b 0] assms by (simp add: lib_subx_def operand_count_def operands_fit_def Let_def)

text \<open>\<open>lib$addx\<close> and \<open>lib$subx\<close> add and subtract numbers of any count of longwords modulo their size.\<close>

theorem addx_subx_value:
  assumes "0 < n" "length a = 4 * n" "length b = 4 * n"
  shows "\<exists>sts c d. lib_addx a b (Some (int n)) = Ret (sts, c) \<and> lib_subx a b (Some (int n)) = Ret (SS_NORMAL, d) \<and>
    length c = 4 * n \<and> length d = 4 * n \<and>
    quadval c = (quadval a + quadval b) mod 2 ^ (32 * n) \<and> quadval d = (quadval a - quadval b) mod 2 ^ (32 * n)"
proof -
  have p: "(256 :: int) ^ (4 * n) = 2 ^ (32 * n)" using power_mult [of "2 :: int" 8 "4 * n"] by simp
  have "nat (int n * 4) = 4 * n" by simp
  then show ?thesis
    using addx_loop_value [of a b 0] subx_loop_value [of a b 0] assms
    by (simp add: lib_addx_def lib_subx_def operand_count_def operands_fit_def Let_def p)
qed

theorem addx_subx_value_witness:
  "\<exists>sts c d. lib_addx [255, 255, 255, 255] [2, 0, 0, 0] (Some 1) = Ret (sts, c) \<and>
     lib_subx [255, 255, 255, 255] [2, 0, 0, 0] (Some 1) = Ret (SS_NORMAL, d) \<and> quadval c = 1 \<and> quadval d = 4294967293"
  using addx_subx_value [of 1 "[255, 255, 255, 255]" "[2, 0, 0, 0]"] by auto

text \<open>The overflow test of \<open>lib$addx\<close> looks twice at the second sign: minus two and one is no overflow,
  but is reported as one.\<close>

lemma addx_false_overflow: "lib_addx [254, 255, 255, 255] [1, 0, 0, 0] (Some 1) = Ret (SS_INTOVF, [255, 255, 255, 255])"
  by (simp add: lib_addx_def operand_count_def operands_fit_def Let_def)

section \<open>Sums and differences of times\<close>

lemma quad_snoc: "quadval (a @ [b]) = quadval a + 256 ^ length a * uint b"
  by (induction a) (simp_all add: algebra_simps)

lemma is_delta_iff:
  assumes "length q = 8"
  shows "is_delta q \<longleftrightarrow> 2 ^ 63 \<le> quadval q"
proof -
  obtain a b where q: "q = a @ [b]" "length a = 7" using assms by (cases q rule: rev_cases) auto
  have v: "quadval q = quadval a + 2 ^ 56 * uint b" using q by (simp add: quad_snoc)
  have a: "0 \<le> quadval a" "quadval a < 2 ^ 56" using quad_bounds [of a] q(2) by simp_all
  have "is_delta q \<longleftrightarrow> b AND 0x80 \<noteq> 0" using q by (simp add: is_delta_def nth_append)
  also have "\<dots> \<longleftrightarrow> bit b 7" using bit_iff_and_push_bit_not_eq_0 [of b 7] by simp
  also have "\<dots> \<longleftrightarrow> 128 \<le> uint b"
  proof -
    have "bit b 7 \<longleftrightarrow> bit (uint b) 7" by (simp only: bit_unsigned_iff) simp
    then have "bit b 7 \<longleftrightarrow> odd (uint b div 128)" unfolding bit_iff_odd [of "uint b"] by simp
    moreover have "uint b div 128 = (if 128 \<le> uint b then 1 else 0)"
      using byte_bounds [of b] int_div_pos_eq [of "uint b" 128 1 "uint b - 128"] by auto
    ultimately show ?thesis by simp
  qed
  also have "\<dots> \<longleftrightarrow> 2 ^ 63 \<le> quadval q" by (intro iffI) (use v a in simp_all)
  finally show ?thesis .
qed

text \<open>The length of time that a quadword stands for: a delta time is negative.\<close>

definition tval :: "quadword \<Rightarrow> int" where
  "tval q = (if is_delta q then quadval q - 2 ^ 64 else quadval q)"

lemma tval_cases:
  assumes "length q = 8"
  shows "is_delta q \<Longrightarrow> tval q = quadval q - 2 ^ 64 \<and> tval q < 0" "\<not> is_delta q \<Longrightarrow> tval q = quadval q \<and> 0 \<le> tval q"
  using quad_bounds [of q] assms by (simp_all add: tval_def)

lemma tval_mod: "tval q mod 2 ^ 64 = quadval q mod 2 ^ 64"
  by (simp add: tval_def)

text \<open>\<open>lib$add_times\<close> adds the lengths of two delta times, or a delta time to a date; two dates are
  refused with a status and nothing is stored.\<close>

theorem add_times_value:
  assumes "length t1 = 8" "length t2 = 8"
  shows "if is_delta t1 \<or> is_delta t2
    then \<exists>sts c. lib_add_times t1 t2 r = Ret (sts, c) \<and> length c = 8 \<and>
      quadval c = (if is_delta t1 \<and> is_delta t2 then tval t1 + tval t2 else \<bar>tval t1\<bar> + \<bar>tval t2\<bar>) mod 2 ^ 64
    else lib_add_times t1 t2 r = Ret (LIB_ONEDELTIM, r)"
proof -
  note v1 = tval_cases [OF assms(1)] and v2 = tval_cases [OF assms(2)]
  consider "is_delta t1" "is_delta t2" | "is_delta t1" "\<not> is_delta t2" | "\<not> is_delta t1" "is_delta t2"
    | "\<not> is_delta t1" "\<not> is_delta t2" by blast
  then show ?thesis
  proof cases
    case 1
    have "(tval t1 + tval t2) mod 2 ^ 64 = (quadval t1 + quadval t2) mod 2 ^ 64"
      by (metis mod_add_eq tval_mod)
    then show ?thesis using quadword_addx [OF assms] 1 by (simp add: lib_add_times_def)
  next
    case 2
    have "(\<bar>tval t1\<bar> + \<bar>tval t2\<bar>) mod 2 ^ 64 = (quadval t2 - quadval t1) mod 2 ^ 64"
    proof -
      have "\<bar>tval t1\<bar> + \<bar>tval t2\<bar> = tval t2 - tval t1" using v1(1) [OF 2(1)] v2(2) [OF 2(2)] by linarith
      then show ?thesis by (metis mod_diff_eq tval_mod)
    qed
    then show ?thesis using quadword_subx [OF assms(2,1)] 2 by (auto simp: lib_add_times_def)
  next
    case 3
    have "(\<bar>tval t1\<bar> + \<bar>tval t2\<bar>) mod 2 ^ 64 = (quadval t1 - quadval t2) mod 2 ^ 64"
    proof -
      have "\<bar>tval t1\<bar> + \<bar>tval t2\<bar> = tval t1 - tval t2" using v1(2) [OF 3(1)] v2(1) [OF 3(2)] by linarith
      then show ?thesis by (metis mod_diff_eq tval_mod)
    qed
    then show ?thesis using quadword_subx [OF assms] 3 by (auto simp: lib_add_times_def)
  next
    case 4
    then show ?thesis by (simp add: lib_add_times_def)
  qed
qed

lemma high_byte_decides:
  assumes "x < y" "a < m" "0 \<le> b" "0 < (m :: int)"
  shows "a + m * x < b + m * y"
proof -
  have "m * (x + 1) \<le> m * y" using assms by (intro mult_left_mono) simp_all
  then show ?thesis using assms by (simp add: algebra_simps)
qed

lemma cmp_loop_less:
  "length a = length b \<Longrightarrow> cmp_loop a b < 0 \<longleftrightarrow> quadval (rev a) < quadval (rev b)"
proof (induction a b rule: cmp_loop.induct)
  case (1 x a y b)
  have q: "quadval (rev a) < 256 ^ length a" "quadval (rev b) < 256 ^ length a" "0 \<le> quadval (rev a)" "0 \<le> quadval (rev b)"
    using quad_bounds [of "rev a"] quad_bounds [of "rev b"] "1.prems" by simp_all
  consider "uint x < uint y" | "uint y < uint x" | "x = y" by (metis linorder_less_linear word_uint_eq_iff)
  then show ?case
  proof cases
    case 1
    from high_byte_decides [OF this q(1,4)] 1 show ?thesis using "1.prems" by (auto simp: quad_snoc)
  next
    case 2
    from high_byte_decides [OF this q(2,3)] 2 show ?thesis using "1.prems" by (auto simp: quad_snoc)
  next
    case 3
    then show ?thesis using "1.IH" "1.prems" by (auto simp: quad_snoc)
  qed
qed simp_all

text \<open>\<open>lib$sub_times\<close> of two dates, or of two delta times, gives the delta time of their distance; the
  difference of a date and a delta time is the date before it.\<close>

theorem sub_times_value:
  assumes "length t1 = 8" "length t2 = 8"
  shows "\<exists>sts c. lib_sub_times t1 t2 = Ret (sts, c) \<and> length c = 8 \<and>
    quadval c = (if is_delta t1 = is_delta t2 then - \<bar>tval t1 - tval t2\<bar> else tval t1 + tval t2) mod 2 ^ 64"
proof (cases "is_delta t1 = is_delta t2")
  case True
  have d: "tval t1 - tval t2 = quadval t1 - quadval t2" using True by (simp add: tval_def)
  have c: "cmp_loop (rev t1) (rev t2) < 0 \<longleftrightarrow> quadval t1 < quadval t2" using cmp_loop_less [of "rev t1" "rev t2"] assms by simp
  show ?thesis
    using True c d quadword_subx [OF assms] quadword_subx [OF assms(2,1)] by (cases "quadval t1 < quadval t2") (auto simp: lib_sub_times_def)
next
  case False
  have "(tval t1 + tval t2) mod 2 ^ 64 = (quadval t1 + quadval t2) mod 2 ^ 64"
    by (metis mod_add_eq tval_mod)
  then show ?thesis using False quadword_addx [OF assms] by (simp add: lib_sub_times_def)
qed

theorem add_times_value_witness:
  "\<exists>sts c. lib_add_times [251, 255, 255, 255, 255, 255, 255, 255] [16, 0, 0, 0, 0, 0, 0, 0] [] = Ret (sts, c) \<and> quadval c = 21"
proof -
  let ?d = "[251, 255, 255, 255, 255, 255, 255, 255] :: u8 list" and ?a = "[16, 0, 0, 0, 0, 0, 0, 0] :: u8 list"
  have "is_delta ?d" "\<not> is_delta ?a" "tval ?d = - 5" "tval ?a = 16" by (simp_all add: is_delta_def tval_def)
  then show ?thesis using add_times_value [of ?d ?a "[]"] by (auto simp del: One_nat_def)
qed

theorem sub_times_value_witness:
  "\<exists>sts c. lib_sub_times [16, 0, 0, 0, 0, 0, 0, 0] [0, 1, 0, 0, 0, 0, 0, 0] = Ret (sts, c) \<and> quadval c = 2 ^ 64 - 240"
proof -
  let ?b = "[0, 1, 0, 0, 0, 0, 0, 0] :: u8 list" and ?a = "[16, 0, 0, 0, 0, 0, 0, 0] :: u8 list"
  have "\<not> is_delta ?b" "\<not> is_delta ?a" "tval ?b = 256" "tval ?a = 16" by (simp_all add: is_delta_def tval_def)
  then show ?thesis using sub_times_value [of ?a ?b] by auto
qed

section \<open>Multiplication\<close>

lemma word_sum_32: "0 \<le> v \<Longrightarrow> uint (c :: u32) + v < 2 ^ 32 \<Longrightarrow> uint (c + word_of_int v) = uint c + v"
proof -
  assume "0 \<le> v" "uint c + v < 2 ^ 32"
  moreover have "c + word_of_int v = word_of_int (uint c + v)" by simp
  ultimately show ?thesis using uint_ge_0 [of c] by (simp only: uint_word_of_int) simp
qed

lemma word_sum_64: "0 \<le> v \<Longrightarrow> uint (c :: u64) + v < 2 ^ 64 \<Longrightarrow> uint (c + word_of_int v) = uint c + v"
proof -
  assume "0 \<le> v" "uint c + v < 2 ^ 64"
  moreover have "c + word_of_int v = word_of_int (uint c + v)" by simp
  ultimately show ?thesis using uint_ge_0 [of c] by (simp only: uint_word_of_int) simp
qed

lemma byte_product: "0 \<le> f \<Longrightarrow> 0 \<le> uint (b :: u8) * f \<and> uint b * f \<le> 255 * f"
  using byte_bounds [of b] by (auto intro: mult_right_mono)

lemma mult_loop_value:
  assumes "0 \<le> f" "f < 2 ^ 24"
  shows "uint c \<le> f \<Longrightarrow> \<exists>r. mult_loop f c q = Ret r \<and> length r = length q \<and> quadval r = (uint c + f * quadval q) mod 256 ^ length q"
proof (induction q arbitrary: c)
  case (Cons b q)
  define t where "t = c + word_of_int (uint b * f)"
  have p: "0 \<le> uint b * f" "uint b * f \<le> 255 * f" using byte_product [OF assms(1)] by simp_all
  have s: "uint c + uint b * f < 2 ^ 32" using p Cons.prems assms(2) by simp
  then have t: "uint t = uint c + uint b * f" unfolding t_def by (intro word_sum_32 p)
  have "uint (drop_bit 8 t) \<le> f" using t p Cons.prems by (simp add: uint_high)
  from Cons.IH [OF this] obtain r where r: "mult_loop f (drop_bit 8 t) q = Ret r" "length r = length q"
    "quadval r = (uint t div 256 + f * quadval q) mod 256 ^ length q" by (auto simp: uint_high)
  have "mult_loop f c (b # q) = Ret (ucast t # r)" using r(1) s by (simp add: t_def Let_def)
  moreover have "quadval (ucast t # r) = (uint c + f * quadval (b # q)) mod 256 ^ length (b # q)"
    using carry_step [of "256 ^ length q" "uint t" "f * quadval q"] r(3) by (simp add: uint_low_byte) (simp add: t algebra_simps)
  ultimately show ?case using r(2) by auto
qed simp

text \<open>\<open>lib$mult_delta_time\<close> multiplies the length of a delta time by the absolute value of a factor
  below \<open>2\<^sup>2\<^sup>4\<close>, and refuses a date.\<close>

theorem mult_delta_time_value:
  assumes "length q = 8" "\<bar>sint k\<bar> < 2 ^ 24"
  shows "if is_delta q
    then \<exists>r. lib_mult_delta_time k q = Ret (SS_NORMAL, r) \<and> length r = 8 \<and> quadval r = (\<bar>sint k\<bar> * tval q) mod 2 ^ 64
    else lib_mult_delta_time k q = Ret (SS_IVTIME, q)"
proof (cases "is_delta q")
  case True
  have "sint k \<noteq> - (2 ^ 63)" using assms(2) by auto
  moreover have "(\<bar>sint k\<bar> * quadval q) mod 2 ^ 64 = (\<bar>sint k\<bar> * tval q) mod 2 ^ 64" by (metis mod_mult_right_eq tval_mod)
  ultimately show ?thesis
    using mult_loop_value [OF _ assms(2), of 0 q] True assms(1) by (auto simp: lib_mult_delta_time_def)
qed (simp add: lib_mult_delta_time_def)

theorem mult_delta_time_value_witness:
  "\<exists>r. lib_mult_delta_time 3 [251, 255, 255, 255, 255, 255, 255, 255] = Ret (SS_NORMAL, r) \<and> quadval r = 2 ^ 64 - 15"
proof -
  let ?d = "[251, 255, 255, 255, 255, 255, 255, 255] :: u8 list"
  have "is_delta ?d" "tval ?d = - 5" by (simp_all add: is_delta_def tval_def)
  then show ?thesis using mult_delta_time_value [of ?d 3] by auto
qed

text \<open>With a larger factor the accumulator loses its high bits: \<open>2\<^sup>2\<^sup>5\<close> times 250 units.\<close>

lemma mult_delta_time_loses_bits:
  "lib_mult_delta_time 0x2000000 [6, 255, 255, 255, 255, 255, 255, 255] = Ret (SS_NORMAL, [0, 0, 0, 12, 254, 254, 254, 254])"
  by (simp add: lib_mult_delta_time_def is_delta_def Let_def)

section \<open>Days and hundredths\<close>

lemma store_bytes_value: "n \<le> 8 \<Longrightarrow> quadval (store_bytes n t) = uint t mod 256 ^ n \<and> length (store_bytes n t) = n"
proof (induction n arbitrary: t)
  case (Suc n)
  then show ?case using carry_step [of "256 ^ n" "uint t" 0] by (simp add: uint_low_byte uint_high)
qed simp

lemma scale_loop_value:
  assumes "0 \<le> f" "f < 2 ^ 24" "\<forall>b \<in> set q. uint b * f \<le> 2147483647"
  shows "uint c < 2 ^ 32 \<Longrightarrow>
    \<exists>r. scale_loop f c q = Ret r \<and> length r = length q \<and> quadval r = (uint c + f * quadval q) mod 256 ^ length q"
  using assms(3)
proof (induction q arbitrary: c)
  case (Cons b q)
  define t where "t = c + word_of_int (uint b * f)"
  have p: "0 \<le> uint b * f" "uint b * f \<le> 2147483647" using byte_product [OF assms(1)] Cons.prems(2) by simp_all
  then have t: "uint t = uint c + uint b * f" unfolding t_def using Cons.prems(1) by (intro word_sum_64) simp_all
  have "uint t < 2 ^ 33" using t p Cons.prems(1) by simp
  then have "uint (drop_bit 8 t) < 2 ^ 32" by (simp add: uint_high)
  from Cons.IH [OF this] Cons.prems(2) obtain r where r: "scale_loop f (drop_bit 8 t) q = Ret r" "length r = length q"
    "quadval r = (uint t div 256 + f * quadval q) mod 256 ^ length q" by (auto simp: uint_high)
  have "scale_loop f c (b # q) = Ret (ucast t # r)" using r(1) p by (simp add: t_def Let_def int_range_def)
  moreover have "quadval (ucast t # r) = (uint c + f * quadval (b # q)) mod 256 ^ length (b # q)"
    using carry_step [of "256 ^ length q" "uint t" "f * quadval q"] r(3) by (simp add: uint_low_byte) (simp add: t algebra_simps)
  ultimately show ?case using r(2) by auto
qed simp

text \<open>The day numbers for which \<open>combine_date_time\<close> stays within the \<open>int\<close>: every byte is below 249.\<close>

definition safe_days :: "int \<Rightarrow> bool" where
  "safe_days d \<longleftrightarrow> (\<forall>b \<in> set (store_bytes 8 (word_of_int d)). uint b < 249)"

lemma combine_value:
  assumes "0 \<le> d" "d < 2 ^ 31" "safe_days d" "0 \<le> t" "t < TIMESIZE" 
  shows "\<exists>r. combine_date_time d q t = Ret (SS_NORMAL, r) \<and> length r = 8 \<and> quadval r = (d * TIMESIZE + t) * TIMEBASE mod 2 ^ 64"
proof -
  let ?d = "store_bytes 8 (word_of_int d)"
  have ut: "uint (word_of_int t :: u64) = t" using assms(4,5) by (simp only: uint_word_of_int) (simp add: TIMESIZE_def)
  have ud: "uint (word_of_int d :: u64) = d" using assms(1,2) by (simp only: uint_word_of_int) simp
  have b: "\<forall>b \<in> set ?d. uint b * TIMESIZE \<le> 2147483647" 
  proof
    fix b assume "b \<in> set ?d"
    then have "uint b < 249" using assms(3) by (auto simp: safe_days_def)
    then show "uint b * TIMESIZE \<le> 2147483647" by (simp add: TIMESIZE_def)
  qed
  have "uint (word_of_int t :: u64) < 2 ^ 32" unfolding ut using assms(5) by (simp add: TIMESIZE_def)
  from scale_loop_value [OF _ _ b this] obtain r where r: "scale_loop TIMESIZE (word_of_int t) ?d = Ret r" "length r = 8"
    "quadval r = (t + TIMESIZE * d) mod 2 ^ 64"
    using store_bytes_value [of 8 "word_of_int d"] assms(1,2) by (auto simp: ut ud TIMESIZE_def)
  have "\<forall>b \<in> set r. uint b * TIMEBASE \<le> 2147483647"
  proof
    fix b :: u8 show "uint b * TIMEBASE \<le> 2147483647" using byte_bounds [of b] by (simp add: TIMEBASE_def)
  qed
  from scale_loop_value [OF _ _ this, of 0] obtain s where s: "scale_loop TIMEBASE 0 r = Ret s" "length s = 8"
    "quadval s = TIMEBASE * quadval r mod 2 ^ 64" using r(2) by (auto simp: TIMEBASE_def)
  have "quadval s = (d * TIMESIZE + t) * TIMEBASE mod 2 ^ 64"
    unfolding s(3) r(3) by (simp only: mod_mult_right_eq) (simp add: algebra_simps)
  then show ?thesis using r(1) s assms(5) by (simp add: combine_date_time_def)
qed

lemma uint_shift_in:
  assumes "uint (x :: u32) < 256"
  shows "uint (push_bit 8 t OR x) = (256 * uint t + uint x) mod 2 ^ 32"
proof -
  have "take_bit 8 x = x" using assms by (simp add: word_uint_eq_iff unsigned_take_bit_eq take_bit_int_eq_self)
  then have "bit x n \<Longrightarrow> n < 8" for n by (metis bit_take_bit_iff)
  then have "\<not> bit (push_bit 8 t) n \<or> \<not> bit x n" for n by (metis bit_push_bit_iff not_less)
  then have "push_bit 8 t OR x = push_bit 8 t + x" by (intro disjunctive_add [symmetric])
  also have "\<dots> = word_of_int (256 * uint t + uint x)" by (simp add: push_bit_eq_mult)
  finally show ?thesis by (simp only: uint_word_of_int) simp
qed

lemma uint_shift_in_byte:
  assumes "uint t < 2 ^ 24"
  shows "uint (push_bit 8 (t :: u32) OR ucast (b :: u8)) = 256 * uint t + uint b"
proof -
  have "256 * uint t + uint b < 2 ^ 32" using assms byte_bounds [of b] by simp
  then show ?thesis using uint_shift_in [of "ucast b" t] byte_bounds [of b] by (simp add: uint_byte)
qed

lemma split_value: "x * m + v = (x mod k * m + v) + k * (x div k * m)" for x m v k :: int
proof -
  have "x * m = (k * (x div k) + x mod k) * m" by simp
  then show ?thesis by (simp only: distrib_right)
qed

lemma cut_loop_value:
  "uint t < 100000 \<Longrightarrow>
   quadval (rev (cut_loop t q)) = (uint t * 256 ^ length q + quadval (rev q)) div 100000 \<and> length (cut_loop t q) = length q"
proof (induction q arbitrary: t)
  case (Cons b q)
  define x where "x = push_bit 8 t OR ucast b"
  have x: "uint x = 256 * uint t + uint b" unfolding x_def using Cons.prems by (intro uint_shift_in_byte) simp
  then have "uint x < 25600000" using Cons.prems byte_bounds [of b] by linarith
  then have "uint x div 100000 < 256" "0 \<le> uint x div 100000" by (simp_all add: pos_imp_zdiv_nonneg_iff)
  then have k: "uint (ucast (x div 100000) :: u8) = uint x div 100000" by (simp add: uint_low_byte uint_div)
  have IH: "quadval (rev (cut_loop (x mod 100000) q)) = (uint x mod 100000 * 256 ^ length q + quadval (rev q)) div 100000"
    "length (cut_loop (x mod 100000) q) = length q"
    using Cons.IH [of "x mod 100000"] by (simp_all add: uint_mod)
  have "uint t * 256 ^ length (b # q) + quadval (rev (b # q)) = uint x * 256 ^ length q + quadval (rev q)"
    by (simp add: quad_snoc x algebra_simps)
  also have "\<dots> = (uint x mod 100000 * 256 ^ length q + quadval (rev q)) + 100000 * (uint x div 100000 * 256 ^ length q)"
    by (rule split_value)
  finally have v: "uint t * 256 ^ length (b # q) + quadval (rev (b # q)) =
    (uint x mod 100000 * 256 ^ length q + quadval (rev q)) + 100000 * (uint x div 100000 * 256 ^ length q)" .
  show ?case unfolding v using IH k by (simp add: x_def [symmetric] Let_def quad_snoc)
qed simp

lemma days_loop_value:
  "uint t < 8640000 \<Longrightarrow> days_loop d t q = (d', t') \<Longrightarrow>
   uint t' = (uint t * 256 ^ length q + quadval (rev q)) mod 8640000 \<and>
   uint d' = (uint d * 256 ^ length q + (uint t * 256 ^ length q + quadval (rev q)) div 8640000) mod 2 ^ 32"
proof (induction q arbitrary: d t)
  case (Cons b q)
  define x where "x = push_bit 8 t OR ucast b"
  define e where "e = push_bit 8 d OR (x div 8640000)"
  have x: "uint x = 256 * uint t + uint b" unfolding x_def using Cons.prems(1) by (intro uint_shift_in_byte) simp
  then have "uint x < 2211840000" using Cons.prems byte_bounds [of b] by linarith
  then have e: "uint e = (256 * uint d + uint x div 8640000) mod 2 ^ 32"
    unfolding e_def by (subst uint_shift_in) (simp_all add: uint_div)
  have "days_loop e (x mod 8640000) q = (d', t')" using Cons.prems(2) by (simp add: x_def e_def Let_def)
  note IH = Cons.IH [OF _ this]
  let ?V = "uint x mod 8640000 * 256 ^ length q + quadval (rev q)"
  have IH: "uint t' = ?V mod 8640000" "uint d' = (uint e * 256 ^ length q + ?V div 8640000) mod 2 ^ 32"
    using IH by (simp_all add: uint_mod)
  have v: "uint t * 256 ^ length (b # q) + quadval (rev (b # q)) = ?V + 8640000 * (uint x div 8640000 * 256 ^ length q)"
  proof -
    have "uint t * 256 ^ length (b # q) + quadval (rev (b # q)) = uint x * 256 ^ length q + quadval (rev q)"
      by (simp add: quad_snoc x algebra_simps)
    also have "\<dots> = ?V + 8640000 * (uint x div 8640000 * 256 ^ length q)"
      by (rule split_value)
    finally show ?thesis .
  qed
  have d: "uint d * 256 ^ length (b # q) + (?V + 8640000 * (uint x div 8640000 * 256 ^ length q)) div 8640000 =
      (256 * uint d + uint x div 8640000) * 256 ^ length q + ?V div 8640000"
    by (simp add: distrib_right)
  have e': "(uint e * m + w) mod 2 ^ 32 = ((256 * uint d + uint x div 8640000) * m + w) mod 2 ^ 32" for m w
    unfolding e by (metis mod_add_left_eq mod_mult_left_eq)
  show ?case unfolding v IH d e' by simp
qed (use uint_lt2p [of d'] in auto)

lemma uint_not_byte: "uint (NOT (ucast (b :: u8)) AND 0xFF :: u32) = 255 - uint b"
proof -
  have "(0xFF :: u32) = mask 8" by (simp add: mask_eq_exp_minus_1)
  then have "NOT (ucast b) AND 0xFF = take_bit 8 (NOT (ucast b :: u32))" by (simp only: take_bit_eq_mask)
  also have "\<dots> = mask 8 - ucast b"
  proof -
    have "take_bit 8 (ucast b :: u32) = ucast b"
      by (intro bit_eqI) (auto simp: bit_take_bit_iff bit_ucast_iff dest: bit_imp_le_length)
    then show ?thesis by (simp only: take_bit_not_eq_mask_diff)
  qed
  also have "\<dots> = word_of_int (255 - uint b)" by (simp add: mask_eq_exp_minus_1)
  finally have "uint (NOT (ucast b) AND 0xFF :: u32) = (255 - uint b) mod 2 ^ 32" by (simp only: uint_word_of_int) simp
  moreover have "0 \<le> 255 - uint b" "255 - uint b < 4294967296" using byte_bounds [of b] by linarith+
  ultimately show ?thesis by simp
qed

lemma negate_loop_value:
  "uint c < 256 \<Longrightarrow>
   quadval (negate_loop c q) = (uint c - 1 - quadval q) mod 256 ^ length q \<and> length (negate_loop c q) = length q"
proof (induction q arbitrary: c)
  case (Cons b q)
  define t where "t = c + (NOT (ucast b) AND 0xFF)"
  have t: "uint t = uint c + (255 - uint b)"
  proof -
    have "0 \<le> uint c + (255 - uint b)" "uint c + (255 - uint b) < 4294967296"
      using Cons.prems byte_bounds [of b] uint_ge_0 [of c] by linarith+
    then show ?thesis unfolding t_def by (simp add: uint_word_ariths uint_not_byte)
  qed
  then have "uint t < 512" using Cons.prems byte_bounds [of b] by linarith
  then have "uint (drop_bit 8 t) < 256" by (simp add: uint_high)
  note IH = Cons.IH [OF this]
  have "uint t div 256 - 1 - quadval q = uint t div 256 + (- 1 - quadval q)" by simp
  then show ?case
    using IH carry_step [of "256 ^ length q" "uint t" "- 1 - quadval q"]
    by (simp add: t_def [symmetric] Let_def uint_low_byte uint_high) (simp add: t algebra_simps)
qed simp

lemma sint_small: "uint (w :: u32) < 2 ^ 31 \<Longrightarrow> sint w = uint w"
proof -
  have "- (2 ^ 31) \<le> uint w" by (rule order.trans [of _ 0]) simp_all
  then show "uint w < 2 ^ 31 \<Longrightarrow> ?thesis" by (simp add: sint_uint signed_take_bit_int_eq_self)
qed

lemma date_of_quad:
  assumes "length q = 8" "quadval q \<le> 2 ^ 63" "days_loop 0 0 (cut_loop 0 (rev q)) = (d, t)"
  shows "uint d = quadval q div 864000000000" "uint t = quadval q div 100000 mod 8640000"
    "sint d = uint d" "sint t = uint t"
proof -
  have c: "quadval (rev (cut_loop 0 (rev q))) = quadval q div 100000" using cut_loop_value [of 0 "rev q"] by simp
  have t: "uint t = quadval q div 100000 mod 8640000" and d: "uint d = quadval q div 100000 div 8640000 mod 2 ^ 32"
    using days_loop_value [OF _ assms(3)] by (simp_all add: c)
  have "quadval q div 100000 div 8640000 = quadval q div 864000000000" by (simp add: zdiv_zmult2_eq [symmetric])
  moreover have "quadval q div 864000000000 \<le> 2 ^ 63 div 864000000000" using assms(2) by (rule zdiv_mono1) simp
  ultimately have "uint d = quadval q div 864000000000" "uint d < 2 ^ 31"
    using d quad_bounds(1) [of q] by (simp_all add: pos_imp_zdiv_nonneg_iff)
  then show "uint d = quadval q div 864000000000" "sint d = uint d" by (simp_all add: sint_small)
  have "uint t < 2 ^ 31" using t by (simp add: order.strict_trans1)
  then show "sint t = uint t" by (rule sint_small)
  show "uint t = quadval q div 100000 mod 8640000" by (rule t)
qed

lemma crack_value:
  assumes "length q = 8"
  shows "crack q = (sgn (tval q) * (\<bar>tval q\<bar> div 864000000000), sgn (tval q) * (\<bar>tval q\<bar> div 100000 mod 8640000))"
proof (cases "is_delta q")
  case True
  let ?n = "negate_loop 1 q"
  have q: "2 ^ 63 \<le> quadval q" "quadval q < 2 ^ 64" using True is_delta_iff [OF assms] quad_bounds(2) [of q] assms by simp_all
  have "(- quadval q) mod 2 ^ 64 = (2 ^ 64 - quadval q) mod 2 ^ 64" by simp
  also have "\<dots> = 2 ^ 64 - quadval q" using q by (intro mod_pos_pos_trivial) simp_all
  finally have n: "length ?n = 8" "quadval ?n = 2 ^ 64 - quadval q" using negate_loop_value [of 1 q] assms by simp_all
  obtain d t where s: "days_loop 0 0 (cut_loop 0 (rev ?n)) = (d, t)" by (cases "days_loop 0 0 (cut_loop 0 (rev ?n))")
  have v: "\<bar>tval q\<bar> = quadval ?n" "sgn (tval q) = - 1" using True q n by (simp_all add: tval_def)
  have "quadval ?n \<le> 2 ^ 63" using q(1) n(2) by simp
  then show ?thesis unfolding v using date_of_quad [OF n(1) _ s] True s by (simp add: crack_def)
next
  case False
  then have q: "quadval q \<le> 2 ^ 63" "tval q = quadval q" using is_delta_iff [OF assms] by (simp_all add: tval_def)
  obtain d t where s: "days_loop 0 0 (cut_loop 0 (rev q)) = (d, t)" by (cases "days_loop 0 0 (cut_loop 0 (rev q))")
  show ?thesis using date_of_quad [OF assms q(1) s] False q s quad_bounds(1) [of q] by (auto simp: crack_def sgn_if)
qed

end
