(* ===== verification/Calendar_Props.thy ===== *)
theory Calendar_Props
  imports Time_Props
begin

unbundle bit_operations_syntax

text \<open>
  The calendar of the time routines: \<open>sys$numtim\<close> breaks a time into the fields of the Gregorian calendar
  and \<open>lib$cvt_vectim\<close> puts them together again.
\<close>

section \<open>Years\<close>

text \<open>The days from 1-JAN-1601 to the first day of the year \<open>1601 + n\<close>, and the leap years.\<close>

definition year_start :: "int \<Rightarrow> int" where
  "year_start n = n * 365 + n div 4 - n div 100 + n div 400"

definition leap_year :: "int \<Rightarrow> bool" where
  "leap_year y \<longleftrightarrow> y mod 4 = 0 \<and> (y mod 100 = 0 \<longrightarrow> y mod 400 = 0)"

lemma cycle_cut:
  assumes "r = (e :: int) mod 146097" "c = (if r div 36524 = 4 then 3 else r div 36524)" "r2 = r - c * 36524"
  shows "0 \<le> c" "c \<le> 3" "0 \<le> r2" "r2 \<le> 36524" "c < 3 \<Longrightarrow> r2 < 36524"
proof -
  have r: "0 \<le> r" "r < 146097" using assms(1) by simp_all
  then have "r div 36524 \<le> 4" "0 \<le> r div 36524" by (simp_all add: pos_imp_zdiv_nonneg_iff)
  then show "0 \<le> c" "c \<le> 3" using assms(2) by auto
  show "0 \<le> r2" "r2 \<le> 36524" "c < 3 \<Longrightarrow> r2 < 36524" using assms(2,3) r by (simp_all split: if_split_asm)
qed

lemma quad_cut:
  assumes "0 \<le> r2" "r2 \<le> 36524" "r3 = (r2 :: int) mod 1461" "k = (if r3 div 365 = 4 then 3 else r3 div 365)" "r4 = r3 - k * 365"
  shows "0 \<le> k" "k \<le> 3" "0 \<le> r4" "r4 \<le> 365" "k < 3 \<Longrightarrow> r4 < 365" "0 \<le> r2 div 1461" "r2 div 1461 \<le> 24"
    "r2 < 36524 \<Longrightarrow> r2 div 1461 = 24 \<Longrightarrow> r4 < 365"
proof -
  have r: "0 \<le> r3" "r3 < 1461" using assms(3) by simp_all
  then have "r3 div 365 \<le> 4" "0 \<le> r3 div 365" by (simp_all add: pos_imp_zdiv_nonneg_iff)
  then show "0 \<le> k" "k \<le> 3" using assms(4) by auto
  show "0 \<le> r4" "r4 \<le> 365" "k < 3 \<Longrightarrow> r4 < 365" using assms(4,5) r by (simp_all split: if_split_asm)
  show "0 \<le> r2 div 1461" "r2 div 1461 \<le> 24" using assms(1,2) by (simp_all add: pos_imp_zdiv_nonneg_iff)
  assume "r2 < 36524" "r2 div 1461 = 24"
  then have "r3 < 1460" using assms(3) by (simp add: minus_div_mult_eq_mod [symmetric])
  then show "r4 < 365" using assms(4,5) r by (simp split: if_split_asm)
qed

lemma multiple_iff: "0 < x \<Longrightarrow> x \<le> m \<Longrightarrow> (m * a + x) mod m = 0 \<longleftrightarrow> x = m" for x m a :: int
  by (cases "x = m") simp_all

lemma year_sum:
  assumes "0 \<le> c" "c \<le> 3" "0 \<le> v" "v \<le> 24" "0 \<le> k" "k \<le> (3 :: int)"
  shows "year_start (400 * q + 100 * c + 4 * v + k) = q * 146097 + c * 36524 + v * 1461 + k * 365"
    "leap_year (1601 + (400 * q + 100 * c + 4 * v + k)) \<longleftrightarrow> k = 3 \<and> (v = 24 \<longrightarrow> c = 3)"
    "(1601 + (400 * q + 100 * c + 4 * v + k)) mod 4 = 0 \<longleftrightarrow> k = 3"
proof -
  let ?n = "400 * q + 100 * c + 4 * v + k"
  have "?n div 4 = 100 * q + 25 * c + v" "?n div 100 = 4 * q + c" "?n div 400 = q" using assms by linarith+
  then show "year_start ?n = q * 146097 + c * 36524 + v * 1461 + k * 365" by (simp add: year_start_def)
  have e: "1601 + ?n = 4 * (400 + 100 * q + 25 * c + v) + (k + 1)" "1601 + ?n = 100 * (16 + 4 * q + c) + (4 * v + k + 1)"
    "1601 + ?n = 400 * (4 + q) + (100 * c + 4 * v + k + 1)" by simp_all
  have "(1601 + ?n) mod 4 = 0 \<longleftrightarrow> k + 1 = 4" unfolding e(1) by (rule multiple_iff) (use assms in simp_all)
  moreover have "(1601 + ?n) mod 100 = 0 \<longleftrightarrow> 4 * v + k + 1 = 100" unfolding e(2) by (rule multiple_iff) (use assms in simp_all)
  moreover have "(1601 + ?n) mod 400 = 0 \<longleftrightarrow> 100 * c + 4 * v + k + 1 = 400"
    unfolding e(3) by (rule multiple_iff) (use assms in simp_all)
  moreover have h: "4 * v + k + 1 = 100 \<longleftrightarrow> v = 24 \<and> k = 3"
  proof
    assume e: "4 * v + k + 1 = 100"
    then have "v = 24" using assms(4,6) by linarith
    then show "v = 24 \<and> k = 3" using e by simp
  qed simp
  moreover have "100 * c + 4 * v + k + 1 = 400 \<longleftrightarrow> c = 3 \<and> v = 24 \<and> k = 3"
  proof
    assume e: "100 * c + 4 * v + k + 1 = 400"
    then have "c = 3" using assms(2,4,6) by linarith
    then show "c = 3 \<and> v = 24 \<and> k = 3" using e h by simp
  qed simp
  ultimately have "(1601 + ?n) mod 4 = 0 \<longleftrightarrow> k = 3" "(1601 + ?n) mod 100 = 0 \<longleftrightarrow> v = 24 \<and> k = 3"
    "(1601 + ?n) mod 400 = 0 \<longleftrightarrow> c = 3 \<and> v = 24 \<and> k = 3" by simp_all
  then show "leap_year (1601 + ?n) \<longleftrightarrow> k = 3 \<and> (v = 24 \<longrightarrow> c = 3)" "(1601 + ?n) mod 4 = 0 \<longleftrightarrow> k = 3"
    by (auto simp: leap_year_def)
qed

section \<open>Months\<close>

lemma month_loop_ok:
  assumes "1 \<le> x" "x \<le> 366"
  shows "\<exists>m d. month_loop x 1 month_days = Ret (m, d) \<and> 1 \<le> m \<and> m \<le> 12 \<and> 1 \<le> d \<and> d \<le> 31 \<and>
    x = d + month_end ! nat (m - 1) + (if m > 2 then 1 else 0) \<and>
    x \<le> month_end ! nat m + (if m \<ge> 2 then 1 else 0)"
  using assms by (auto simp: month_days_def month_end_def)

section \<open>Days to dates and back\<close>

text \<open>What \<open>sys$numtim\<close> finds for a day number: a date of the calendar with that number.\<close>

definition date_of :: "int \<Rightarrow> int \<Rightarrow> int \<Rightarrow> int \<Rightarrow> bool" where
  "date_of day y m d \<longleftrightarrow> 1858 \<le> y \<and> 1 \<le> m \<and> m \<le> 12 \<and> 1 \<le> d \<and> d \<le> 31 \<and>
     (let leap = (if leap_year y \<and> m \<ge> 2 then 1 else 0); n = d + month_end ! nat (m - 1) + (if m > 2 then leap else 0)
      in n \<le> month_end ! nat m + leap \<and> day = year_start (y - 1601) + n - 1 - OFFSET_DAYS)"

lemma year_start_1858:
  assumes "year_start n + r = day + 94187" "0 \<le> day" "r \<le> 365"
  shows "257 \<le> n"
proof (rule ccontr)
  assume "\<not> 257 \<le> n"
  then show False using assms unfolding year_start_def by linarith
qed

lemma month_end_bounds:
  assumes "1 \<le> m" "m \<le> 12"
  shows "m > 2 \<Longrightarrow> 59 \<le> month_end ! nat (m - 1)" "m \<le> 2 \<Longrightarrow> month_end ! nat m \<le> 59" "m = 2 \<Longrightarrow> month_end ! nat m = 59"
proof -
  have "\<forall>i \<in> set [2..<12]. 59 \<le> month_end ! i" by (simp add: month_end_def upt_rec)
  moreover assume "m > 2"
  then have "2 \<le> nat (m - 1)" "nat (m - 1) < 12" using assms by auto
  then have "nat (m - 1) \<in> set [2..<12]" by (simp only: set_upt atLeastLessThan_iff)
  ultimately show "59 \<le> month_end ! nat (m - 1)" by blast
next
  assume "m \<le> 2"
  then have "m = 1 \<or> m = 2" using assms by auto
  then show "month_end ! nat m \<le> 59" by (auto simp: month_end_def)
qed (simp add: month_end_def)

lemma date_in_year:
  assumes "1 \<le> m" "m \<le> 12" "1 \<le> d" "r \<le> 365"
    and x: "(if r > 58 then if leap then r + 1 else r + 2 else r + 1) = d + month_end ! nat (m - 1) + (if m > 2 then 1 else 0)"
    and b: "(if r > 58 then if leap then r + 1 else r + 2 else r + 1) \<le> month_end ! nat m + (if m \<ge> 2 then 1 else 0)"
  shows "d + month_end ! nat (m - 1) + (if m > 2 then if leap \<and> m \<ge> 2 then 1 else 0 else 0) = r + 1 \<and>
    r + 1 \<le> month_end ! nat m + (if leap \<and> m \<ge> 2 then 1 else 0)"
proof -
  note e = month_end_bounds [OF assms(1,2)]
  show ?thesis
  proof (cases "m > 2")
    case True
    then have "r > 58" using x e(1) assms(3) by (auto split: if_split_asm)
    then show ?thesis using True x b by (auto split: if_split_asm)
  next
    case False
    have "leap \<or> r \<le> 58" using False b e(2) by (auto split: if_split_asm)
    then show ?thesis using False x b e(3) by (auto split: if_split_asm)
  qed
qed

lemma calendar_ok:
  assumes "0 \<le> day"
  shows "\<exists>y m d. calendar day = Ret (y, m, d) \<and> date_of day y m d"
proof -
  define e where "e = day + OFFSET_DAYS"
  define q where "q = e div 146097"
  define r where "r = e mod 146097"
  define c where "c = (if r div 36524 = 4 then 3 else r div 36524)"
  define r2 where "r2 = r - c * 36524"
  define v where "v = r2 div 1461"
  define r3 where "r3 = r2 mod 1461"
  define k where "k = (if r3 div 365 = 4 then 3 else r3 div 365)"
  define r4 where "r4 = r3 - k * 365"
  let ?n = "400 * q + 100 * c + 4 * v + k"
  let ?leap = "leap_year (1601 + ?n)"
  let ?x = "if r4 > 58 then if ?leap then r4 + 1 else r4 + 2 else r4 + 1"
  note c = cycle_cut [OF r_def c_def r2_def]
  note k = quad_cut [OF c(3,4) r3_def k_def r4_def, folded v_def]
  note s = year_sum [OF c(1,2) k(6,7,1,2), of q]
  have l: "?leap \<longleftrightarrow> \<not> (k \<noteq> 3 \<or> (1601 + ?n) mod 100 = 0 \<and> (1601 + ?n) mod 400 \<noteq> 0)"
    using s(3) by (auto simp: leap_year_def)
  have cal: "calendar day = bindo (month_loop ?x 1 month_days) (\<lambda>(month, date). Ret (1601 + ?n, month, date))"
    unfolding calendar_def Let_def e_def [symmetric] q_def [symmetric] r_def [symmetric] c_def [symmetric] r2_def [symmetric]
      v_def [symmetric] r3_def [symmetric] k_def [symmetric] r4_def [symmetric] l
    by (simp add: algebra_simps)
  have end365: "r4 = 365 \<Longrightarrow> ?leap" using s(2) c k by (cases "v = 24") auto
  have sum: "year_start ?n + r4 = day + 94187"
  proof -
    have "r2 = 1461 * v + r3" "e = 146097 * q + r" unfolding v_def r3_def q_def r_def by simp_all
    then show ?thesis using s(1) by (simp add: r4_def r2_def e_def OFFSET_DAYS_def)
  qed
  have x: "1 \<le> ?x" "?x \<le> 366" using k(3,4) end365 by (cases "r4 = 365"; auto)+
  obtain m d where m: "month_loop ?x 1 month_days = Ret (m, d)" "1 \<le> m" "m \<le> 12" "1 \<le> d" "d \<le> 31"
    "?x = d + month_end ! nat (m - 1) + (if m > 2 then 1 else 0)" "?x \<le> month_end ! nat m + (if m \<ge> 2 then 1 else 0)"
    using month_loop_ok [OF x] by blast
  have "year_start ?n + (r4 + 1) - 1 - OFFSET_DAYS = day" using sum by (simp add: OFFSET_DAYS_def)
  then have "date_of day (1601 + ?n) m d"
    unfolding date_of_def
    using date_in_year [OF m(2,3,4) k(4) m(6,7)] m(2-5) year_start_1858 [OF sum assms k(4)] by (auto simp: Let_def)
  then show ?thesis using cal m(1) by simp
qed

lemma leap_day_eq: "leap_day y m = (if leap_year y \<and> m \<ge> 2 then 1 else 0)"
  by (simp add: leap_day_def leap_year_def)

lemma vectim_days_eq:
  "vectim_days y m d =
     (let leap = (if leap_year y \<and> m \<ge> 2 then 1 else 0); n = d + month_end ! nat (m - 1) + (if m > 2 then leap else 0)
      in if y \<ge> 1858 \<and> y \<le> 9999 \<and> m \<ge> 1 \<and> m \<le> 12 \<and> d \<ge> 1
         then if n \<le> month_end ! nat m + leap then Some (word_of_int (year_start (y - 1601) + n - 1 - OFFSET_DAYS)) else None
         else None)"
proof -
  have "x + (z - OFFSET_DAYS - 1) = z + x - 1 - OFFSET_DAYS" for x z by simp
  then show ?thesis unfolding vectim_days_def leap_day_eq Let_def year_start_def by presburger
qed

lemma vectim_days_some: "date_of day y m d \<Longrightarrow> y \<le> 9999 \<Longrightarrow> vectim_days y m d = Some (word_of_int day)"
  unfolding date_of_def vectim_days_eq Let_def by presburger

lemma month_lengths:
  assumes "1 \<le> m" "m \<le> 12"
  shows "month_end ! nat m \<le> month_end ! nat (m - 1) + 31" "m = 2 \<Longrightarrow> month_end ! nat m \<le> month_end ! nat (m - 1) + 28"
proof -
  have "\<forall>i \<in> set [0..<12]. month_end ! Suc i \<le> month_end ! i + 31" by (simp add: month_end_def upt_rec)
  moreover have "nat (m - 1) < 12" "nat m = Suc (nat (m - 1))" using assms by auto
  ultimately show "month_end ! nat m \<le> month_end ! nat (m - 1) + 31" by simp
qed (simp add: month_end_def)

lemma vectim_days_date:
  assumes "vectim_days y m d = Some w"
  shows "y \<le> 9999 \<and> (\<exists>day. date_of day y m d \<and> w = word_of_int day)"
proof -
  let ?leap = "if leap_year y \<and> m \<ge> 2 then 1 else 0"
  let ?n = "d + month_end ! nat (m - 1) + (if m > 2 then ?leap else 0)"
  have v: "y \<ge> 1858" "y \<le> 9999" "1 \<le> m" "m \<le> 12" "1 \<le> d" "?n \<le> month_end ! nat m + ?leap"
    "w = word_of_int (year_start (y - 1601) + ?n - 1 - OFFSET_DAYS)"
    using assms unfolding vectim_days_eq Let_def by (metis option.distinct(1) option.inject)+
  have "d \<le> 31" using v(6) month_lengths [OF v(3,4)] by (cases "m = 2") (auto split: if_split_asm)
  then have "date_of (year_start (y - 1601) + ?n - 1 - OFFSET_DAYS) y m d" using v by (simp add: date_of_def Let_def)
  then show ?thesis using v by blast
qed

text \<open>A day has only one date.\<close>

lemma div_step: "0 < k \<Longrightarrow> (n + 1) div k = n div k + (if k dvd n + 1 then 1 else 0)" for n k :: int
proof -
  assume k: "0 < k"
  define q r where "q = (n + 1) div k" and "r = (n + 1) mod k"
  have n: "n + 1 = k * q + r" "0 \<le> r" "r < k" using k by (simp_all add: q_def r_def)
  show ?thesis
  proof (cases "r = 0")
    case True
    then have "n div k = q - 1" using n k by (intro int_div_pos_eq [of _ _ _ "k - 1"]) (simp_all add: algebra_simps)
    then show ?thesis using True by (simp add: q_def r_def dvd_eq_mod_eq_0)
  next
    case False
    then have "n div k = q" using n k by (intro int_div_pos_eq [of _ _ _ "r - 1"]) (simp_all add: algebra_simps)
    then show ?thesis using False by (simp add: q_def r_def dvd_eq_mod_eq_0)
  qed
qed

lemma step_sum:
  assumes "x4 = y4 + (if A then 1 else 0)" "x100 = y100 + (if B then 1 else 0)" "x400 = y400 + (if C then 1 else 0)"
    "C \<Longrightarrow> B" "B \<Longrightarrow> A"
  shows "(n + 1) * 365 + x4 - x100 + x400 = n * 365 + y4 - y100 + y400 + 365 + (if A \<and> (B \<longrightarrow> C) then 1 else 0 :: int)"
  using assms by (cases A; cases B; cases C) simp_all

lemma year_start_step: "year_start (n + 1) = year_start n + 365 + (if leap_year (1601 + n) then 1 else 0)"
proof -
  have "k dvd 1600 \<Longrightarrow> k dvd 1601 + n \<longleftrightarrow> k dvd n + 1" for k using dvd_add_left_iff [of k 1600 "n + 1"] by (simp add: add.commute)
  then have l: "leap_year (1601 + n) \<longleftrightarrow> 4 dvd n + 1 \<and> (100 dvd n + 1 \<longrightarrow> 400 dvd n + 1)"
    by (simp add: leap_year_def flip: dvd_eq_mod_eq_0)
  show ?thesis unfolding l year_start_def
  proof (rule step_sum)
    show "(100 :: int) dvd n + 1" if "400 dvd n + 1" using that dvd_trans [of 100 400 "n + 1"] by simp
    show "(4 :: int) dvd n + 1" if "100 dvd n + 1" using that dvd_trans [of 4 100 "n + 1"] by simp
  qed (rule div_step; simp)+
qed

lemma year_start_mono: "a \<le> b \<Longrightarrow> year_start a \<le> year_start b"
proof -
  assume "a \<le> b"
  then have "a div 4 \<le> b div 4" "a div 400 \<le> b div 400" by (simp_all add: zdiv_mono1)
  moreover have "b div 100 - a div 100 \<le> b - a" using \<open>a \<le> b\<close> by linarith
  ultimately show ?thesis using \<open>a \<le> b\<close> by (simp add: year_start_def)
qed

lemma year_unique:
  assumes "year_start a \<le> x" "x < year_start (a + 1)" "year_start b \<le> x" "x < year_start (b + 1)"
  shows "a = b"
  using assms year_start_mono [of "a + 1" b] year_start_mono [of "b + 1" a] by linarith

lemma month_unique:
  assumes "1 \<le> m" "m \<le> 12" "1 \<le> m'" "m' \<le> 12" "L \<in> {0, 1}"
    and "month_end ! nat (m - 1) + (if m > 2 then L else 0) < n" "n \<le> month_end ! nat m + (if m \<ge> 2 then L else 0)"
    and "month_end ! nat (m' - 1) + (if m' > 2 then L else 0) < n" "n \<le> month_end ! nat m' + (if m' \<ge> 2 then L else 0)"
  shows "m = m'"
proof -
  have mono: "a < b \<Longrightarrow> 1 \<le> a \<Longrightarrow> b \<le> 12 \<Longrightarrow>
      month_end ! nat a + (if a \<ge> 2 then L else 0) \<le> month_end ! nat (b - 1) + (if b > 2 then L else 0)" for a b
  proof -
    assume "a < b" "1 \<le> a" "b \<le> 12"
    then have "month_end ! nat a \<le> month_end ! nat (b - 1)" by (intro sorted_nth_mono) (auto simp: month_end_def)
    then show ?thesis using \<open>a < b\<close> assms(5) by auto
  qed
  show ?thesis using mono [of m m'] mono [of m' m] assms by linarith
qed

lemma date_of_year:
  assumes "date_of day y m d"
  obtains n where "n = d + month_end ! nat (m - 1) + (if m > 2 then if leap_year y then 1 else 0 else 0)"
    "n \<le> month_end ! nat m + (if m \<ge> 2 then if leap_year y then 1 else 0 else 0)"
    "day = year_start (y - 1601) + n - 1 - OFFSET_DAYS" "1 \<le> m" "m \<le> 12" "1 \<le> d"
    "year_start (y - 1601) \<le> day + OFFSET_DAYS" "day + OFFSET_DAYS < year_start (y - 1601 + 1)"
proof -
  let ?n = "d + month_end ! nat (m - 1) + (if m > 2 then if leap_year y then 1 else 0 else 0)"
  have m: "1 \<le> m" "m \<le> 12" "1 \<le> d" using assms by (simp_all add: date_of_def)
  have n: "?n \<le> month_end ! nat m + (if m \<ge> 2 then if leap_year y then 1 else 0 else 0)"
    "day = year_start (y - 1601) + ?n - 1 - OFFSET_DAYS"
    using assms by (auto simp: date_of_def Let_def split: if_split_asm)
  have "\<forall>i \<in> set [0..<13]. 0 \<le> month_end ! i \<and> month_end ! i \<le> 365" by (simp add: month_end_def upt_rec)
  then have "0 \<le> month_end ! nat (m - 1)" "month_end ! nat m \<le> 365" using m by auto
  then have "year_start (y - 1601) \<le> day + OFFSET_DAYS" "day + OFFSET_DAYS < year_start (y - 1601 + 1)"
    using n m year_start_step [of "y - 1601"] by (auto split: if_split_asm)
  then show thesis using that [OF refl n m] by blast
qed

lemma date_of_unique:
  assumes "date_of day y m d" "date_of day y' m' d'"
  shows "y = y' \<and> m = m' \<and> d = d'"
proof -
  let ?L = "if leap_year y then 1 else 0 :: int"
  obtain n where n: "n = d + month_end ! nat (m - 1) + (if m > 2 then ?L else 0)" "n \<le> month_end ! nat m + (if m \<ge> 2 then ?L else 0)"
    "day = year_start (y - 1601) + n - 1 - OFFSET_DAYS" "1 \<le> m" "m \<le> 12" "1 \<le> d"
    "year_start (y - 1601) \<le> day + OFFSET_DAYS" "day + OFFSET_DAYS < year_start (y - 1601 + 1)"
    by (rule date_of_year [OF assms(1)])
  obtain k where k: "k = d' + month_end ! nat (m' - 1) + (if m' > 2 then if leap_year y' then 1 else 0 else 0)"
    "k \<le> month_end ! nat m' + (if m' \<ge> 2 then if leap_year y' then 1 else 0 else 0)"
    "day = year_start (y' - 1601) + k - 1 - OFFSET_DAYS" "1 \<le> m'" "m' \<le> 12" "1 \<le> d'"
    "year_start (y' - 1601) \<le> day + OFFSET_DAYS" "day + OFFSET_DAYS < year_start (y' - 1601 + 1)"
    by (rule date_of_year [OF assms(2)])
  have y: "y = y'" using year_unique [OF n(7,8) k(7,8)] by simp
  then have nk: "n = k" using n(3) k(3) by simp
  have "m = m'"
  proof (rule month_unique [OF n(4,5) k(4,5), of ?L n])
    show "month_end ! nat (m - 1) + (if m > 2 then ?L else 0) < n" using n(1,6) by linarith
    show "month_end ! nat (m' - 1) + (if m' > 2 then ?L else 0) < n" using k(1,6) nk unfolding y by linarith
    show "n \<le> month_end ! nat m' + (if m' \<ge> 2 then ?L else 0)" using k(2) nk unfolding y by simp
  qed (use n(2) in simp_all)
  then show ?thesis using nk n(1) k(1) y by auto
qed

section \<open>Fields\<close>

lemma time_fields:
  assumes "0 \<le> t" "t < (8640000 :: int)"
  shows "t div 100 div 60 div 60 * 360000 + t div 100 div 60 mod 60 * 6000 + t div 100 mod 60 * 100 + t mod 100 = t"
    "0 \<le> t div 100 div 60 div 60" "t div 100 div 60 div 60 \<le> 23"
proof -
  have "t = 100 * (t div 100) + t mod 100" "t div 100 = 60 * (t div 100 div 60) + t div 100 mod 60"
    "t div 100 div 60 = 60 * (t div 100 div 60 div 60) + t div 100 div 60 mod 60" by simp_all
  then show "t div 100 div 60 div 60 * 360000 + t div 100 div 60 mod 60 * 6000 + t div 100 mod 60 * 100 + t mod 100 = t"
    by linarith
  show "0 \<le> t div 100 div 60 div 60" using assms(1) by (simp add: pos_imp_zdiv_nonneg_iff)
  show "t div 100 div 60 div 60 \<le> 23" using assms(2) by linarith
qed

lemma uint_field: "0 \<le> v \<Longrightarrow> v < 65536 \<Longrightarrow> uint (word_of_int v :: u16) = v"
  by (simp only: uint_word_of_int) simp

text \<open>The seven words of a date or a delta time, and the words of its time of day.\<close>

definition fields :: "int \<Rightarrow> int \<Rightarrow> int \<Rightarrow> int \<Rightarrow> u16 list" where
  "fields y m d t = map word_of_int [y, m, d, t div 100 div 60 div 60, t div 100 div 60 mod 60, t div 100 mod 60, t mod 100]"

lemma cvt_fields:
  assumes "0 \<le> y" "y < 65536" "0 \<le> m" "m < 65536" "0 \<le> d" "d < 65536" "0 \<le> t" "t < TIMESIZE"
  shows "lib_cvt_vectim (fields y m d t) q =
    (let delta = (y = 0 \<and> m = 0); days = (if delta then Some (word_of_int d) else vectim_days y m d)
     in if days = None then Ret (SS_IVTIME, q)
        else bindo (combine_date_time (sint (the days)) q t) (\<lambda>(sts, q). Ret (sts, if delta then negate_loop 1 q else q)))"
proof -
  let ?h = "t div 100 div 60 div 60" and ?min = "t div 100 div 60 mod 60" and ?s = "t div 100 mod 60" and ?c = "t mod 100"
  have t: "t < 8640000" using assms(8) by (simp add: TIMESIZE_def)
  note f = time_fields [OF assms(7) t]
  have b: "0 \<le> ?min" "?min < 60" "0 \<le> ?s" "?s < 60" "0 \<le> ?c" "?c < 100" by simp_all
  have u: "uint (word_of_int y :: u16) = y" "uint (word_of_int m :: u16) = m" "uint (word_of_int d :: u16) = d"
    "uint (word_of_int ?h :: u16) = ?h" "uint (word_of_int ?min :: u16) = ?min" "uint (word_of_int ?s :: u16) = ?s"
    "uint (word_of_int ?c :: u16) = ?c"
    by (rule uint_field; use assms f(2,3) b in linarith)+
  have n: "\<not> 23 < ?h" "\<not> 59 < ?min" "\<not> 59 < ?s" "\<not> 99 < ?c" using f(3) b by linarith+
  show ?thesis unfolding lib_cvt_vectim_def fields_def Let_def by (auto simp: u f(1) n)
qed

lemma date_of_bounds:
  assumes "date_of day y m d" "day \<le> 10675199"
  shows "0 \<le> y" "y < 65536" "0 < y"
proof -
  obtain n where n: "year_start (y - 1601) \<le> day + OFFSET_DAYS" by (rule date_of_year [OF assms(1)])
  have "365 * k - k \<le> year_start k" if "0 \<le> k" for k
  proof -
    have "0 \<le> k div 4" "0 \<le> k div 400" using that by (simp_all add: pos_imp_zdiv_nonneg_iff)
    moreover have "k div 100 \<le> k" using that by linarith
    ultimately show ?thesis by (simp add: year_start_def)
  qed
  from this [of "y - 1601"] n assms(2) show "y < 65536" by (cases "1601 \<le> y") (simp_all add: OFFSET_DAYS_def)
  show "0 \<le> y" "0 < y" using assms(1) by (simp_all add: date_of_def)
qed

lemma sint_day: "0 \<le> d \<Longrightarrow> d < 2 ^ 31 \<Longrightarrow> sint (word_of_int d :: u32) = d"
proof -
  assume d: "0 \<le> d" "d < 2 ^ 31"
  then have "uint (word_of_int d :: u32) = d" by (simp only: uint_word_of_int) simp
  then show ?thesis using sint_small [of "word_of_int d"] d(2) by simp
qed

lemma numtim_date:
  assumes "length q = 8" "\<not> is_delta q"
  defines "day \<equiv> quadval q div 864000000000" and "t \<equiv> quadval q div 100000 mod 8640000"
  shows "\<exists>y m d. sys_numtim cur buf (Some q) = Ret (SS_NORMAL, fields y m d t) \<and> date_of day y m d \<and> 0 < y \<and> y < 65536"
proof -
  have v: "0 \<le> quadval q" "quadval q < 2 ^ 63" "tval q = quadval q"
    using quad_bounds(1) [of q] is_delta_iff [OF assms(1)] assms(2) by (simp_all add: tval_def)
  have d: "0 \<le> day" "day \<le> 10675199"
    using zdiv_mono1 [of "quadval q" "2 ^ 63 - 1" 864000000000] v by (simp_all add: day_def pos_imp_zdiv_nonneg_iff)
  have t: "0 \<le> t" by (simp add: t_def)
  have "crack q = (day, t)" using crack_value [OF assms(1)] v by (auto simp: day_def t_def sgn_if)
  moreover have "sint (word_of_int day :: u32) = day" by (rule sint_day [OF d(1)]) (use d(2) in simp)
  moreover obtain y m dd where c: "calendar day = Ret (y, m, dd)" "date_of day y m dd" using calendar_ok [OF d(1)] by blast
  ultimately have "sys_numtim cur buf (Some q) = Ret (SS_NORMAL, fields y m dd t)"
    using d t by (simp add: sys_numtim_def lib_day_def numtim_fields_def fields_def)
  then show ?thesis using c(2) date_of_bounds [OF c(2) d(2)] by blast
qed

lemma year_9999:
  assumes "date_of day y m d" "day \<le> 2973483"
  shows "y \<le> 9999"
proof (rule ccontr)
  assume "\<not> y \<le> 9999"
  then have "8399 \<le> y - 1601" by simp
  then have "year_start 8399 \<le> year_start (y - 1601)" by (rule year_start_mono)
  moreover have "year_start (y - 1601) \<le> day + OFFSET_DAYS" by (rule date_of_year [OF assms(1)])
  ultimately show False using assms(2) by (simp add: year_start_def OFFSET_DAYS_def)
qed

lemma day_9999:
  assumes "date_of day y m d" "y \<le> 9999"
  shows "day \<le> 2973483"
proof -
  have "day + OFFSET_DAYS < year_start (y - 1601 + 1)" by (rule date_of_year [OF assms(1)])
  moreover have "year_start (y - 1601 + 1) \<le> year_start 8399" using assms(2) by (intro year_start_mono) simp
  ultimately show ?thesis by (simp add: year_start_def OFFSET_DAYS_def)
qed

lemma quad_inject: "length a = length b \<Longrightarrow> quadval a = quadval b \<Longrightarrow> a = b"
proof (induction a b rule: list_induct2)
  case (Cons x a y b)
  have "uint x = quadval (x # a) mod 256" "uint y = quadval (y # b) mod 256" using byte_bounds [of x] byte_bounds [of y] by simp_all
  then have "uint x = uint y" using Cons.prems by metis
  then show ?case using Cons by (simp add: word_uint_eq_iff)
qed simp

lemma split_quad: "v mod 100000 = 0 \<Longrightarrow> (v div 864000000000 * 8640000 + v div 100000 mod 8640000) * 100000 = v" for v :: int
proof -
  assume "v mod 100000 = 0"
  then have v: "v = v div 100000 * 100000" by auto
  have "v div 864000000000 = v div 100000 div 8640000" by (simp add: zdiv_zmult2_eq [symmetric])
  then have "v div 864000000000 * 8640000 + v div 100000 mod 8640000 = v div 100000" by simp
  then show ?thesis using v by simp
qed

lemma date_there_and_back:
  assumes "length q = 8" "\<not> is_delta q" "quadval q mod 100000 = 0" "quadval q div 864000000000 \<le> 2973483"
    and "safe_days (quadval q div 864000000000)"
  shows "\<exists>y m d. sys_numtim cur buf (Some q) = Ret (SS_NORMAL, fields y m d (quadval q div 100000 mod 8640000)) \<and>
    date_of (quadval q div 864000000000) y m d \<and> y \<le> 9999 \<and>
    lib_cvt_vectim (fields y m d (quadval q div 100000 mod 8640000)) r = Ret (SS_NORMAL, q)"
proof -
  let ?day = "quadval q div 864000000000" and ?t = "quadval q div 100000 mod 8640000"
  obtain y m d where n: "sys_numtim cur buf (Some q) = Ret (SS_NORMAL, fields y m d ?t)" "date_of ?day y m d" "0 < y" "y < 65536"
    using numtim_date [OF assms(1,2)] by blast
  have day: "0 \<le> ?day" using quad_bounds(1) [of q] by (simp add: pos_imp_zdiv_nonneg_iff)
  have y: "y \<le> 9999" by (rule year_9999 [OF n(2) assms(4)])
  have md: "1 \<le> m" "m \<le> 12" "1 \<le> d" "d \<le> 31" using n(2) by (simp_all add: date_of_def)
  have s: "sint (word_of_int ?day :: u32) = ?day" by (rule sint_day [OF day]) (use assms(4) in simp)
  obtain r' where r': "combine_date_time ?day r ?t = Ret (SS_NORMAL, r')" "length r' = 8"
    "quadval r' = (?day * TIMESIZE + ?t) * TIMEBASE mod 2 ^ 64"
    using combine_value [OF day _ assms(5), of ?t r] assms(4) by (auto simp: TIMESIZE_def)
  have "quadval r' = quadval q"
    using r'(3) split_quad [OF assms(3)] quad_bounds [of q] assms(1) by (simp add: TIMESIZE_def TIMEBASE_def)
  then have "r' = q" using r'(2) assms(1) by (intro quad_inject) simp_all
  then have "lib_cvt_vectim (fields y m d ?t) r = Ret (SS_NORMAL, q)"
    using cvt_fields [of y m d ?t r] n(3,4) md r'(1) vectim_days_some [OF n(2) y] s by (simp add: TIMESIZE_def Let_def)
  then show ?thesis using n(1,2) y by blast
qed

text \<open>C16: a date survives the way into the seven fields and back: for a time in whole hundredths of
  seconds up to the end of the year 9999, \<open>sys$numtim\<close> gives the fields of its date in the calendar and
  \<open>lib$cvt_vectim\<close> makes the same quadword of them. (The day number must be one whose bytes
  \<open>combine_date_time\<close> can multiply.)\<close>

theorem date_roundtrip:
  assumes "length q = 8" "\<not> is_delta q" "quadval q mod 100000 = 0" "quadval q div 864000000000 \<le> 2973483"
    and "safe_days (quadval q div 864000000000)"
  shows "\<exists>y m d t. sys_numtim cur buf (Some q) = Ret (SS_NORMAL, fields y m d t) \<and>
    date_of (quadval q div 864000000000) y m d \<and> lib_cvt_vectim (fields y m d t) r = Ret (SS_NORMAL, q)"
  using date_there_and_back [OF assms] by blast

lemma store_bytes_8:
  "store_bytes 8 t = [ucast t, ucast (drop_bit 8 t), ucast (drop_bit 8 (drop_bit 8 t)),
     ucast (drop_bit 8 (drop_bit 8 (drop_bit 8 t))), ucast (drop_bit 8 (drop_bit 8 (drop_bit 8 (drop_bit 8 t)))),
     ucast (drop_bit 8 (drop_bit 8 (drop_bit 8 (drop_bit 8 (drop_bit 8 t))))),
     ucast (drop_bit 8 (drop_bit 8 (drop_bit 8 (drop_bit 8 (drop_bit 8 (drop_bit 8 t)))))),
     ucast (drop_bit 8 (drop_bit 8 (drop_bit 8 (drop_bit 8 (drop_bit 8 (drop_bit 8 (drop_bit 8 t)))))))]"
proof -
  have "(8 :: nat) = Suc (Suc (Suc (Suc (Suc (Suc (Suc (Suc 0)))))))" by simp
  then have "store_bytes 8 t = store_bytes (Suc (Suc (Suc (Suc (Suc (Suc (Suc (Suc 0)))))))) t" by (rule arg_cong)
  then show ?thesis by (simp only: store_bytes.simps)
qed

theorem date_roundtrip_witness:
  "\<exists>y m d t. sys_numtim 0 [] (Some [0, 0xC0, 0x69, 0x2A, 0xC9, 0, 0, 0]) = Ret (SS_NORMAL, fields y m d t) \<and>
    date_of 1 y m d \<and> lib_cvt_vectim (fields y m d t) [] = Ret (SS_NORMAL, [0, 0xC0, 0x69, 0x2A, 0xC9, 0, 0, 0])"
proof -
  let ?q = "[0, 0xC0, 0x69, 0x2A, 0xC9, 0, 0, 0] :: u8 list"
  have "length ?q = 8" "\<not> is_delta ?q" "quadval ?q = 864000000000" by (simp_all add: is_delta_def)
  moreover have "safe_days 1" by (simp add: safe_days_def store_bytes_8)
  ultimately show ?thesis using date_roundtrip [of ?q 0 "[]" "[]"] by simp
qed

text \<open>C17: every day number of a date has exactly one date of the Gregorian calendar, and
  \<open>sys$numtim\<close> finds it.\<close>

theorem calendar_unique:
  assumes "0 \<le> day"
  shows "\<exists>y m d. calendar day = Ret (y, m, d) \<and> date_of day y m d \<and>
    (\<forall>y' m' d'. date_of day y' m' d' \<longrightarrow> (y', m', d') = (y, m, d))"
  using calendar_ok [OF assms] date_of_unique by blast

theorem calendar_unique_witness: "\<exists>y m d. calendar 51544 = Ret (y, m, d) \<and> date_of 51544 2000 1 1 \<and> (2000, 1, 1) = (y, m, d)"
proof -
  have "date_of 51544 2000 1 1"
    by (simp add: date_of_def year_start_def month_end_def OFFSET_DAYS_def leap_year_def)
  then show ?thesis using calendar_unique [of 51544] by auto
qed

text \<open>C33: \<open>lib$cvt_vectim\<close> refuses exactly the fields that are no date of the years 1858 to 9999, no
  delta time, or no time of day; the quadword is not touched then.\<close>

theorem vectim_refuses:
  "lib_cvt_vectim b q = Ret (SS_IVTIME, r) \<longleftrightarrow> r = q \<and>
    (uint (b ! 3) > 23 \<or> uint (b ! 4) > 59 \<or> uint (b ! 5) > 59 \<or> uint (b ! 6) > 99 \<or>
     \<not> (uint (b ! 0) = 0 \<and> uint (b ! 1) = 0) \<and>
     \<not> (uint (b ! 0) \<le> 9999 \<and> (\<exists>day. date_of day (uint (b ! 0)) (uint (b ! 1)) (uint (b ! 2)))))"
proof -
  let ?y = "uint (b ! 0)" and ?m = "uint (b ! 1)" and ?d = "uint (b ! 2)"
  let ?t = "uint (b ! 3) * 360000 + uint (b ! 4) * 6000 + uint (b ! 5) * 100 + uint (b ! 6)"
  let ?late = "uint (b ! 3) > 23 \<or> uint (b ! 4) > 59 \<or> uint (b ! 5) > 59 \<or> uint (b ! 6) > 99"
  have v: "vectim_days ?y ?m ?d = None \<longleftrightarrow> \<not> (?y \<le> 9999 \<and> (\<exists>day. date_of day ?y ?m ?d))"
    using vectim_days_some vectim_days_date by (metis not_None_eq)
  have "\<not> ?late \<Longrightarrow> ?t < TIMESIZE" by (simp add: TIMESIZE_def)
  then have c: "\<not> ?late \<Longrightarrow> combine_date_time x q ?t = Ret (sts, r') \<Longrightarrow> sts \<noteq> SS_IVTIME" for x sts r'
    by (auto simp: combine_date_time_def status_defs)
  show ?thesis
  proof (cases "?late \<or> \<not> (?y = 0 \<and> ?m = 0) \<and> vectim_days ?y ?m ?d = None")
    case True
    then have "lib_cvt_vectim b q = Ret (SS_IVTIME, q)" by (auto simp: lib_cvt_vectim_def Let_def)
    then show ?thesis using True v by auto
  next
    case False
    then have "lib_cvt_vectim b q \<noteq> Ret (SS_IVTIME, r)" using c by (auto simp: lib_cvt_vectim_def Let_def)
    then show ?thesis using False v by auto
  qed
qed

text \<open>The fields of a valid date, from 17-NOV-1858 on, survive the way into a quadword and back.\<close>

theorem fields_roundtrip:
  assumes "date_of day y m d" "0 \<le> day" "y \<le> 9999" "safe_days day" "0 \<le> t" "t < TIMESIZE"
  shows "\<exists>q. lib_cvt_vectim (fields y m d t) r = Ret (SS_NORMAL, q) \<and> quadval q = (day * TIMESIZE + t) * TIMEBASE \<and>
    sys_numtim cur buf (Some q) = Ret (SS_NORMAL, fields y m d t)"
proof -
  have y: "0 < y" "y < 65536" "1 \<le> m" "m \<le> 12" "1 \<le> d" "d \<le> 31" using assms(1,3) by (simp_all add: date_of_def)
  have day: "day \<le> 2973483" by (rule day_9999 [OF assms(1,3)])
  have s: "sint (word_of_int day :: u32) = day" by (rule sint_day [OF assms(2)]) (use day in simp)
  obtain q where q: "combine_date_time day r t = Ret (SS_NORMAL, q)" "length q = 8"
    "quadval q = (day * TIMESIZE + t) * TIMEBASE mod 2 ^ 64"
    using combine_value [OF assms(2) _ assms(4-6), of r] day by auto
  let ?v = "(day * TIMESIZE + t) * TIMEBASE"
  have v: "0 \<le> ?v" "?v < 2 ^ 63" using assms(2,5,6) day by (simp_all add: TIMESIZE_def TIMEBASE_def)
  then have qv: "quadval q = ?v" using q(3) by simp
  have "?v div 864000000000 = day" "?v div 100000 mod 8640000 = t"
  proof -
    have e: "?v = (day * 8640000 + t) * 100000" by (simp add: TIMESIZE_def TIMEBASE_def)
    have h: "?v div 100000 = day * 8640000 + t" unfolding e by simp
    then show "?v div 100000 mod 8640000 = t" using assms(5,6) by (simp add: TIMESIZE_def)
    have "?v div 864000000000 = ?v div 100000 div 8640000" by (simp add: zdiv_zmult2_eq [symmetric])
    then show "?v div 864000000000 = day" unfolding h using assms(5,6) by (simp add: TIMESIZE_def)
  qed
  moreover have "\<not> is_delta q" using is_delta_iff [OF q(2)] qv v by simp
  ultimately obtain y' m' d' where n: "sys_numtim cur buf (Some q) = Ret (SS_NORMAL, fields y' m' d' t)" "date_of day y' m' d'"
    using numtim_date [OF q(2)] qv by metis
  then have "sys_numtim cur buf (Some q) = Ret (SS_NORMAL, fields y m d t)" using date_of_unique [OF n(2) assms(1)] by simp
  moreover have "lib_cvt_vectim (fields y m d t) r = Ret (SS_NORMAL, q)"
    using cvt_fields [of y m d t r] y assms(5,6) q(1) vectim_days_some [OF assms(1,3)] s by (simp add: Let_def)
  ultimately show ?thesis using qv by blast
qed

theorem fields_roundtrip_witness:
  "\<exists>q. lib_cvt_vectim (fields 2000 1 1 360000) [] = Ret (SS_NORMAL, q) \<and> quadval q = (51544 * 8640000 + 360000) * 100000 \<and>
    sys_numtim 0 [] (Some q) = Ret (SS_NORMAL, fields 2000 1 1 360000)"
proof -
  have "date_of 51544 2000 1 1"
    by (simp add: date_of_def year_start_def month_end_def OFFSET_DAYS_def leap_year_def)
  moreover have "safe_days 51544" by (simp add: safe_days_def store_bytes_8)
  ultimately show ?thesis
    using fields_roundtrip [of 51544 2000 1 1 360000 "[]" 0 "[]"] by (simp add: TIMESIZE_def TIMEBASE_def)
qed

lemma numtim_delta: "d < 0 \<or> t < 0 \<Longrightarrow> numtim_fields d t = Ret (fields 0 0 (- d) (- t))"
  by (simp add: numtim_fields_def fields_def Let_def)

text \<open>A delta time in whole hundredths of seconds of up to 65535 days survives the way into the seven
  fields and back; its fields have no year and no month.\<close>

theorem delta_roundtrip:
  assumes "length q = 8" "is_delta q" "tval q mod 100000 = 0" "- tval q div 864000000000 \<le> 65535"
    and "safe_days (- tval q div 864000000000)"
  shows "\<exists>t. sys_numtim cur buf (Some q) = Ret (SS_NORMAL, fields 0 0 (- tval q div 864000000000) t) \<and>
    lib_cvt_vectim (fields 0 0 (- tval q div 864000000000) t) r = Ret (SS_NORMAL, q)"
proof -
  let ?v = "- tval q"
  let ?day = "?v div 864000000000" and ?t = "?v div 100000 mod 8640000"
  have q: "2 ^ 63 \<le> quadval q" "quadval q < 2 ^ 64" using assms(2) is_delta_iff [OF assms(1)] quad_bounds(2) [of q] assms(1) by simp_all
  have v: "0 < ?v" "?v \<le> 2 ^ 63" "quadval q = 2 ^ 64 - ?v" using q assms(2) by (simp_all add: tval_def)
  have m: "?v mod 100000 = 0" using assms(3) by (simp add: zmod_zminus1_eq_if)
  have day: "0 \<le> ?day" using v by (simp add: pos_imp_zdiv_nonneg_iff)
  have s: "sint (word_of_int x :: u32) = x" if "\<bar>x\<bar> \<le> 65535" for x
    using that by (simp add: signed_of_int signed_take_bit_int_eq_self)
  have c: "crack q = (- ?day, - ?t)" using crack_value [OF assms(1)] v by (simp add: sgn_if)
  have h: "- ?day < 0 \<or> - ?t < 0"
  proof (rule ccontr)
    assume "\<not> ?thesis"
    then have "?day = 0" "?t = 0" using day pos_mod_sign [of 8640000 "?v div 100000"] by linarith+
    then show False using split_quad [OF m] v(1) by simp
  qed
  then have "numtim_fields (- ?day) (- ?t) = Ret (fields 0 0 ?day ?t)" using numtim_delta [OF h] by simp
  moreover have "\<bar>- ?day\<bar> \<le> 65535" using day assms(4) by linarith
  ultimately have n: "sys_numtim cur buf (Some q) = Ret (SS_NORMAL, fields 0 0 ?day ?t)"
    unfolding sys_numtim_def lib_day_def option.case c bindo.simps prod.case by (simp only: s bindo.simps)
  obtain r' where r': "combine_date_time ?day r ?t = Ret (SS_NORMAL, r')" "length r' = 8"
    "quadval r' = (?day * TIMESIZE + ?t) * TIMEBASE mod 2 ^ 64"
    using combine_value [OF day _ assms(5), of ?t r] assms(4) by (auto simp: TIMESIZE_def)
  have "quadval r' = ?v" using r'(3) split_quad [OF m] v by (simp add: TIMESIZE_def TIMEBASE_def)
  then have "quadval (negate_loop 1 r') = quadval q" "length (negate_loop 1 r') = 8"
    using negate_loop_value [of 1 r'] r'(2) tval_mod [of q] q(2) quad_bounds(1) [of q] by simp_all
  then have "negate_loop 1 r' = q" using assms(1) by (intro quad_inject) simp_all
  then have "lib_cvt_vectim (fields 0 0 ?day ?t) r = Ret (SS_NORMAL, q)"
    using cvt_fields [of 0 0 ?day ?t r] day assms(4) r'(1) s [of ?day] by (simp add: TIMESIZE_def Let_def)
  then show ?thesis using n by blast
qed

theorem delta_roundtrip_witness:
  "\<exists>t. sys_numtim 0 [] (Some [0, 0x40, 0x96, 0xD5, 0x36, 0xFF, 0xFF, 0xFF]) = Ret (SS_NORMAL, fields 0 0 1 t) \<and>
     lib_cvt_vectim (fields 0 0 1 t) [] = Ret (SS_NORMAL, [0, 0x40, 0x96, 0xD5, 0x36, 0xFF, 0xFF, 0xFF])"
proof -
  let ?q = "[0, 0x40, 0x96, 0xD5, 0x36, 0xFF, 0xFF, 0xFF] :: u8 list"
  have d: "is_delta ?q" by (simp add: is_delta_def)
  then have "tval ?q = - 864000000000" by (simp add: tval_def)
  moreover have "safe_days 1" by (simp add: safe_days_def store_bytes_8)
  ultimately show ?thesis using delta_roundtrip [of ?q 0 "[]" "[]"] d by simp
qed

section \<open>The current time and the day of the week\<close>

text \<open>\<open>lib$day\<close> gives the number of days and the hundredths of seconds of a time; both are negative
  for a delta time.\<close>

theorem day_value:
  assumes "length q = 8"
  shows "lib_day cur (Some q) = Ret (SS_NORMAL, Some (sgn (tval q) * (\<bar>tval q\<bar> div 864000000000),
    sgn (tval q) * (\<bar>tval q\<bar> div 100000 mod 8640000)))"
  using crack_value [OF assms] by (simp add: lib_day_def)

theorem day_value_witness: "lib_day 0 (Some [0, 0xC0, 0x69, 0x2A, 0xC9, 0, 0, 0]) = Ret (SS_NORMAL, Some (1, 0))"
  using day_value [of "[0, 0xC0, 0x69, 0x2A, 0xC9, 0, 0, 0]" 0] by (simp add: tval_def is_delta_def)

text \<open>The seconds since 1970 become units since 17-NOV-1858.\<close>

lemma gettim_value:
  assumes "0 \<le> cur" "cur < 2 ^ 32" "safe_days (40587 + cur div 86400)"
  shows "\<exists>r. sys_gettim cur q = Ret (SS_NORMAL, r) \<and> length r = 8 \<and> quadval r = (40587 * 86400 + cur) * 10000000"
proof -
  let ?d = "40587 + cur div 86400" and ?t = "cur mod 86400 * 100"
  have d: "0 \<le> ?d" "?d < 2 ^ 31" using assms(1,2) by (simp_all add: pos_imp_zdiv_nonneg_iff)
  have t: "0 \<le> ?t" "?t < 8640000" by (simp_all add: pos_mod_bound)
  have "cur sdiv 86400 = cur div 86400" "cur smod 86400 = cur mod 86400"
    using assms(1) by (simp_all add: signed_divide_int_def signed_modulo_int_def sgn_if)
  moreover have "sint (word_of_int ?d :: u32) = ?d" "sint (word_of_int ?t :: u32) = ?t"
    by (rule sint_day; use d t in simp)+
  moreover obtain r where r: "combine_date_time ?d q ?t = Ret (SS_NORMAL, r)" "length r = 8"
    "quadval r = (?d * TIMESIZE + ?t) * TIMEBASE mod 2 ^ 64"
    using combine_value [OF d assms(3) t(1), of q] t(2) by (auto simp: TIMESIZE_def)
  moreover have "(?d * TIMESIZE + ?t) * TIMEBASE = (40587 * 86400 + cur) * 10000000"
  proof -
    have e: "cur = 86400 * a + b \<Longrightarrow> ((40587 + a) * 8640000 + b * 100) * 100000 = (40587 * 86400 + cur) * 10000000" for a b
      by simp
    show ?thesis unfolding TIMESIZE_def TIMEBASE_def by (rule e) simp
  qed
  ultimately show ?thesis using assms(1,2) by (simp add: sys_gettim_def)
qed

lemma unix_epoch: "date_of 40587 1970 1 1"
  by (simp add: date_of_def year_start_def month_end_def OFFSET_DAYS_def leap_year_def)

text \<open>Monday is day 1: 1-JAN-2000 was a Saturday.\<close>

lemma day_of_week_value:
  assumes "length q = 8" "\<not> is_delta q"
  shows "lib_day_of_week cur (Some q) = Ret (SS_NORMAL, Some ((quadval q div 864000000000 + 2) mod 7 + 1))"
proof -
  have "0 \<le> quadval q div 864000000000" using quad_bounds(1) [of q] by (simp add: pos_imp_zdiv_nonneg_iff)
  then have "(quadval q div 864000000000 + 2) smod 7 = (quadval q div 864000000000 + 2) mod 7"
    by (simp add: signed_modulo_int_def sgn_if)
  moreover have "fst (crack q) = quadval q div 864000000000"
    using crack_value [OF assms(1)] quad_bounds(1) [of q] assms(2) by (auto simp: tval_def sgn_if)
  ultimately show ?thesis by (cases "crack q") (simp add: lib_day_of_week_def lib_day_def)
qed

section \<open>Times that are not handled\<close>

text \<open>\<open>combine_date_time\<close> multiplies the bytes of the day number as \<open>int\<close>: a byte from 249 on overflows, as
  for every day from 27-MAY-2033 to 22-APR-2038 (63744 to 65535).\<close>

lemma combine_overflow: "combine_date_time 63744 q 0 = Fault" "combine_date_time 65535 q 0 = Fault"
  by (simp_all add: combine_date_time_def TIMESIZE_def store_bytes_8 int_range_def Let_def)

text \<open>\<open>sys$numtim\<close> tells a delta time by the sign of what \<open>lib$day\<close> gives: a delta time below a hundredth of
  a second counts as the date 17-NOV-1858.\<close>

lemma short_delta_is_date:
  "sys_numtim cur buf (Some [255, 255, 255, 255, 255, 255, 255, 255]) = Ret (SS_NORMAL, fields 1858 11 17 0)"
proof -
  let ?q = "[255, 255, 255, 255, 255, 255, 255, 255] :: u8 list"
  have "tval ?q = - 1" by (simp add: tval_def is_delta_def)
  then have "crack ?q = (0, 0)" using crack_value [of ?q] by simp
  moreover have "date_of 0 1858 11 17"
    by (simp add: date_of_def year_start_def month_end_def OFFSET_DAYS_def leap_year_def)
  then have "calendar 0 = Ret (1858, 11, 17)" using calendar_ok [of 0] date_of_unique by blast
  ultimately show ?thesis by (simp add: sys_numtim_def lib_day_def numtim_fields_def fields_def)
qed

text \<open>\<open>lib$cvt_vectim\<close> takes the whole year 1858, also the days before the first one; their number is
  negative, and the multiplication overflows.\<close>

lemma before_first_day: "vectim_days 1858 1 1 = Some (word_of_int (- 320))" "combine_date_time (- 320) q 0 = Fault"
  by (simp_all add: vectim_days_def leap_day_def month_end_def OFFSET_DAYS_def combine_date_time_def TIMESIZE_def
      store_bytes_8 int_range_def Let_def)

end
