(* ===== verification/Time_Text.thy ===== *)
theory Time_Text
  imports Calendar_Props
begin

text \<open>
  Times as text: \<open>sys$asctim\<close> (\<open>userland/rtl/sys_asctim.c\<close>) writes a date as \<open>17-NOV-1858 00:00:00.00\<close> or a
  delta time as its days and the time of day, and \<open>sys$bintim\<close> (\<open>userland/rtl/sys_bintim.c\<close>) reads them.

  The output is the list of the characters written so far with the number of characters for which there
  is room. The input is the list of the characters that are left, so that \<open>length\<close> is its length.
\<close>

section \<open>Writing\<close>

type_synonym field_out = "nat \<times> string"

fun put_char :: "char \<Rightarrow> field_out \<Rightarrow> field_out" where
  "put_char c (0, out) = (0, out)"
| "put_char c (Suc n, out) = (n, out @ [c])"

definition dig :: "int \<Rightarrow> char" where
  "dig v = char_of (nat (48 + v))"

definition month_names :: string where
  "month_names = ''-JAN-FEB-MAR-APR-MAY-JUN-JUL-AUG-SEP-OCT-NOV-DEC-''"

fun put_chars :: "string \<Rightarrow> field_out \<Rightarrow> field_out" where
  "put_chars [] o1 = o1"
| "put_chars (c # cs) o1 = put_chars cs (put_char c o1)"

text \<open>The loops for the year number and the delta days: leading spaces, and the digits.\<close>

function pad_loop :: "int \<Rightarrow> int \<Rightarrow> field_out \<Rightarrow> int \<times> field_out" where
  "pad_loop timval count o1 =
     (if 0 < fst o1 \<and> timval < count \<and> count > 1 then pad_loop timval (count div 10) (put_char (CHR '' '') o1) else (count, o1))"
  by pat_completeness auto
termination
  by (relation "measure (\<lambda>(t, c, o1). nat c)") auto

function number_loop :: "int \<Rightarrow> int \<Rightarrow> field_out \<Rightarrow> field_out" where
  "number_loop timval count o1 =
     (if 0 < fst o1 \<and> count > 0
      then number_loop (timval mod count) (count div 10) (put_char (dig (timval div count)) o1) else o1)"
  by pat_completeness auto
termination
  by (relation "measure (\<lambda>(t, c, o1). nat c)") auto

declare pad_loop.simps [simp del] number_loop.simps [simp del]

definition put_days :: "int \<Rightarrow> field_out \<Rightarrow> field_out" where
  "put_days timval o1 =
     (let (count, o2) = (if timval < 10000 then pad_loop timval 1000 o1 else (10000, o1)) in number_loop timval count o2)"

definition put_two :: "int \<Rightarrow> field_out \<Rightarrow> field_out" where
  "put_two v o1 = put_char (dig (v mod 10)) (put_char (dig (v div 10)) o1)"

text \<open>The part in front of the time of day; day and month are left out of a delta time.\<close>

definition put_date :: "(nat \<Rightarrow> int) \<Rightarrow> field_out \<Rightarrow> field_out" where
  "put_date w o1 =
     (let o2 = (if w 0 \<noteq> 0
                then put_days (w 0) (put_chars (take 5 (drop (nat (w 1 * 4 - 4)) month_names))
                       (put_char (dig (w 2 mod 10)) (put_char (if w 2 div 10 = 0 then CHR '' '' else dig (w 2 div 10)) o1)))
                else put_days (w 2) o1)
      in put_char (CHR '' '') o2)"

text \<open>\<open>sys$asctim\<close>: status, characters written into a buffer of \<open>n\<close> characters; their number is the length
  that is returned.\<close>

definition asctim_text :: "nat \<Rightarrow> (nat \<Rightarrow> int) \<Rightarrow> bool \<Rightarrow> string" where
  "asctim_text n w time_only =
     (let o1 = (if time_only then (n, []) else put_date w (n, []));
          o2 = put_char (CHR '':'') (put_two (w 3) o1);
          o3 = put_char (CHR '':'') (put_two (w 4) o2);
          o4 = put_char (CHR ''.'') (put_two (w 5) o3)
      in snd (put_two (w 6) o4))"

definition sys_asctim :: "int \<Rightarrow> nat \<Rightarrow> quadword option \<Rightarrow> u64 \<Rightarrow> (u64 \<times> string) outcome" where
  "sys_asctim curtim n timadr cvtflg =
     bindo (sys_numtim curtim (replicate 7 0) timadr) (\<lambda>(sts, wrktim).
       Ret (if even sts then (sts, []) else (SS_NORMAL, asctim_text n (\<lambda>i. uint (wrktim ! i)) (cvtflg \<noteq> 0))))"

section \<open>Reading\<close>

definition digit_char :: "char \<Rightarrow> bool" where
  "digit_char c \<longleftrightarrow> 48 \<le> (of_char c :: nat) \<and> (of_char c :: nat) \<le> 57"

fun skip_spaces :: "string \<Rightarrow> string" where
  "skip_spaces [] = []"
| "skip_spaces (c # cs) = (if c = CHR '' '' then skip_spaces cs else c # cs)"

text \<open>The loops over digits; the overflow of the \<open>int\<close> is undefined.\<close>

fun num_loop :: "int \<Rightarrow> string \<Rightarrow> (int \<times> string) outcome" where
  "num_loop num [] = Ret (num, [])"
| "num_loop num (c # cs) =
     (if digit_char c
      then let num = num * 10 + (of_char c - 48) in fault_if (\<not> int_range num) (num_loop num cs)
      else Ret (num, c # cs))"

text \<open>A number if there is one.\<close>

definition read_num :: "string \<Rightarrow> (int option \<times> string) outcome" where
  "read_num s =
     (case s of
        [] \<Rightarrow> Ret (None, s)
      | c # cs \<Rightarrow> if digit_char c then bindo (num_loop 0 s) (\<lambda>(v, s). Ret (Some v, s)) else Ret (None, s))"

definition set_field :: "nat \<Rightarrow> int option \<Rightarrow> u16 list \<Rightarrow> u16 list" where
  "set_field i v w = (case v of None \<Rightarrow> w | Some v \<Rightarrow> w[i := word_of_int v])"

text \<open>The number of the month whose name is at the beginning, or 13.\<close>

fun month_search :: "string \<Rightarrow> nat \<Rightarrow> string \<Rightarrow> nat" where
  "month_search names 0 s = 13"
| "month_search names (Suc k) s = (if take 3 s = take 3 names then 12 - k else month_search (drop 4 names) k s)"

definition read_month :: "u16 list \<Rightarrow> string \<Rightarrow> u16 list \<times> string" where
  "read_month w s =
     (if length s \<ge> 3 \<and> hd s \<noteq> CHR ''-'' then (w[1 := of_nat (month_search (drop 1 month_names) 12 s)], drop 3 s) else (w, s))"

definition read_year :: "u16 list \<Rightarrow> string \<Rightarrow> (u16 list \<times> string) outcome" where
  "read_year w s =
     (case s of
        c # cs \<Rightarrow> if c = CHR ''-'' then bindo (read_num cs) (\<lambda>(v, s). Ret (set_field 0 v w, s)) else Ret (w, s)
      | [] \<Rightarrow> Ret (w, s))"

text \<open>The day and what follows it: a minus sign begins the month of a date, whose missing parts are those
  of the current time; everything else is a delta time. Without a number the days are minus one.\<close>

definition read_date :: "int \<Rightarrow> u16 list \<Rightarrow> string \<Rightarrow> (u16 list \<times> string) outcome" where
  "read_date curtim w0 s =
     bindo (read_num s) (\<lambda>(v, s).
       case s of
         c # cs \<Rightarrow>
           if c = CHR ''-'' then
             bindo (sys_numtim curtim w0 None) (\<lambda>(_, w).
               let (w, s) = read_month (set_field 2 v w) cs in read_year w s)
           else Ret ([0, 0, word_of_int (case v of None \<Rightarrow> - 1 | Some v \<Rightarrow> v), 0, 0, 0, 0], s)
       | [] \<Rightarrow> Ret ([0, 0, word_of_int (case v of None \<Rightarrow> - 1 | Some v \<Rightarrow> v), 0, 0, 0, 0], s))"

text \<open>Hours, minutes and seconds with their separators.\<close>

fun read_clock :: "nat \<Rightarrow> string \<Rightarrow> u16 list \<Rightarrow> string \<Rightarrow> (u16 list \<times> string) outcome" where
  "read_clock tf [] w s = Ret (w, s)"
| "read_clock tf (sep # seps) w s =
     bindo (read_num s) (\<lambda>(v, s).
       let w = set_field (3 + tf) v w; w = (case v of Some v \<Rightarrow> if v > 59 then w[1 := 13] else w | None \<Rightarrow> w)
       in case s of
            c # cs \<Rightarrow> if c = sep then read_clock (tf + 1) seps w cs else Ret (w, s)
          | [] \<Rightarrow> Ret (w, s))"

fun hundredth_loop :: "int \<Rightarrow> int \<Rightarrow> string \<Rightarrow> int \<times> string" where
  "hundredth_loop tf num [] = (num, [])"
| "hundredth_loop tf num (c # cs) =
     (if digit_char c then hundredth_loop (tf div 10) (num + tf * (of_char c - 48)) cs else (num, c # cs))"

definition read_hundredths :: "u16 list \<Rightarrow> string \<Rightarrow> u16 list \<times> string" where
  "read_hundredths w s =
     (if s \<noteq> [] \<and> digit_char (hd s) then let (v, s) = hundredth_loop 10 0 s in (w[6 := word_of_int v], s) else (w, s))"

definition bintim_fields :: "int \<Rightarrow> u16 list \<Rightarrow> string \<Rightarrow> u16 list option outcome" where
  "bintim_fields curtim w0 s =
     bindo (read_date curtim w0 (skip_spaces s)) (\<lambda>(w, s).
     bindo (read_clock 0 ''::.'' w (skip_spaces s)) (\<lambda>(w, s).
       let (w, s) = read_hundredths w s in Ret (if skip_spaces s = [] then Some w else None)))"

text \<open>\<open>sys$bintim\<close>: \<open>w0\<close> is what the array of the fields holds before, \<open>q\<close> the quadword.\<close>

definition sys_bintim :: "int \<Rightarrow> u16 list \<Rightarrow> string \<Rightarrow> quadword \<Rightarrow> (u64 \<times> quadword) outcome" where
  "sys_bintim curtim w0 s q =
     bindo (bintim_fields curtim w0 s) (\<lambda>r. case r of None \<Rightarrow> Ret (SS_IVTIME, q) | Some w \<Rightarrow> lib_cvt_vectim w q)"

end
