(* ===== verification/Time_Text_Props.thy ===== *)
theory Time_Text_Props
  imports Time_Text
begin

text \<open>
  What \<open>sys$asctim\<close> writes is what \<open>sys$bintim\<close> reads.
\<close>

section \<open>Characters\<close>

lemma code_dig: "0 \<le> v \<Longrightarrow> v < 10 \<Longrightarrow> (of_char (dig v) :: int) = 48 + v" "0 \<le> v \<Longrightarrow> v < 10 \<Longrightarrow> (of_char (dig v) :: nat) = nat (48 + v)"
proof -
  assume v: "0 \<le> v" "v < 10"
  show n: "(of_char (dig v) :: nat) = nat (48 + v)" using v by (simp add: dig_def)
  have "(of_char (dig v) :: int) = int (of_char (dig v))" by (simp add: of_nat_of_char)
  then show "(of_char (dig v) :: int) = 48 + v" using n v by simp
qed

lemma digit_dig: "0 \<le> v \<Longrightarrow> v < 10 \<Longrightarrow> digit_char (dig v)"
  by (simp add: digit_char_def code_dig(2)) linarith

lemma dig_other:
  assumes "0 \<le> v" "v < 10"
  shows "dig v \<noteq> CHR '' ''" "dig v \<noteq> CHR ''-''"
  using digit_dig [OF assms] by (auto simp: digit_char_def)

lemma not_digit: "\<not> digit_char (CHR '' '')" "\<not> digit_char (CHR ''-'')" "\<not> digit_char (CHR '':'')" "\<not> digit_char (CHR ''.'')"
  by (simp_all add: digit_char_def)

lemma num_loop_dig:
  assumes "0 \<le> v" "v < 10" "int_range (num * 10 + v)"
  shows "num_loop num (dig v # cs) = num_loop (num * 10 + v) cs"
  using assms by (simp add: digit_dig code_dig)

lemma num_loop_stop: "s = [] \<or> \<not> digit_char (hd s) \<Longrightarrow> num_loop num s = Ret (num, s)"
  by (cases s) auto

section \<open>Writing with room\<close>

lemma put_chars_room: "length s \<le> n \<Longrightarrow> put_chars s (n, out) = (n - length s, out @ s)"
proof (induction s arbitrary: n out)
  case (Cons c s)
  then show ?case by (cases n) auto
qed simp

lemma put_two_chars: "put_two v o1 = put_chars [dig (v div 10), dig (v mod 10)] o1"
  by (simp add: put_two_def)

lemma put_char_chars: "put_char c o1 = put_chars [c] o1"
  by simp

lemma put_chars_append: "put_chars t (put_chars s o1) = put_chars (s @ t) o1"
  by (induction s arbitrary: o1) simp_all

text \<open>The text of a date and of a time of day.\<close>

definition clock_text :: "(nat \<Rightarrow> int) \<Rightarrow> string" where
  "clock_text w = [dig (w 3 div 10), dig (w 3 mod 10), CHR '':'', dig (w 4 div 10), dig (w 4 mod 10), CHR '':'',
     dig (w 5 div 10), dig (w 5 mod 10), CHR ''.'', dig (w 6 div 10), dig (w 6 mod 10)]"

definition year_text :: "int \<Rightarrow> string" where
  "year_text y = [dig (y div 1000), dig (y mod 1000 div 100), dig (y mod 1000 mod 100 div 10), dig (y mod 1000 mod 100 mod 10)]"

definition date_text :: "(nat \<Rightarrow> int) \<Rightarrow> string" where
  "date_text w = [if w 2 div 10 = 0 then CHR '' '' else dig (w 2 div 10), dig (w 2 mod 10)] @
     take 5 (drop (nat (w 1 * 4 - 4)) month_names) @ year_text (w 0) @ '' ''"

lemma number_loop_year:
  assumes "4 \<le> n"
  shows "number_loop y 1000 (n, out) = (n - 4, out @ year_text y)"
proof -
  obtain k where "n = 4 + k" using assms le_Suc_ex by blast
  then have "n = Suc (Suc (Suc (Suc k)))" by simp
  then show ?thesis by (simp add: number_loop.simps year_text_def)
qed

lemma asctim_date:
  assumes "23 \<le> n" "1000 \<le> w 0" "w 0 < 10000" "1 \<le> w 1" "w 1 \<le> 12"
  shows "asctim_text n w False = date_text w @ clock_text w"
proof -
  let ?m = "take 5 (drop (nat (w 1 * 4 - 4)) month_names)"
  let ?d = "[if w 2 div 10 = 0 then CHR '' '' else dig (w 2 div 10), dig (w 2 mod 10)]"
  have m: "length ?m = 5" using assms(4,5) by (simp add: month_names_def)
  have "put_char (dig (w 2 mod 10)) (put_char (if w 2 div 10 = 0 then CHR '' '' else dig (w 2 div 10)) (n, [])) = put_chars ?d (n, [])"
    by simp
  moreover have "put_chars ?m (put_chars ?d (n, [])) = (n - 7, ?d @ ?m)"
    unfolding put_chars_append using assms(1) m by (subst put_chars_room) simp_all
  moreover have "put_days (w 0) (n - 7, ?d @ ?m) = (n - 11, ?d @ ?m @ year_text (w 0))"
    using number_loop_year [of "n - 7" "w 0" "?d @ ?m"] assms(1-3) by (simp add: put_days_def pad_loop.simps)
  ultimately have d: "put_date w (n, []) = (n - 12, date_text w)"
    using assms(1,2) put_chars_room [of "'' ''" "n - 11"] unfolding put_date_def Let_def
    by (simp del: put_char.simps put_chars.simps add: put_char_chars date_text_def)
  show ?thesis
    unfolding asctim_text_def Let_def if_False d put_two_chars put_char_chars put_chars_append
    using assms(1) by (subst put_chars_room) (simp_all add: clock_text_def)
qed

section \<open>Reading\<close>

lemma num_loop_digits:
  assumes "\<forall>d \<in> set ds. 0 \<le> d \<and> d < 10" "s = [] \<or> \<not> digit_char (hd s)"
  shows "0 \<le> num \<Longrightarrow> foldl (\<lambda>n d. n * 10 + d) num ds \<le> 2147483647 \<Longrightarrow>
    num \<le> foldl (\<lambda>n d. n * 10 + d) num ds \<and> num_loop num (map dig ds @ s) = Ret (foldl (\<lambda>n d. n * 10 + d) num ds, s)"
  using assms(1)
proof (induction ds arbitrary: num)
  case Nil
  then show ?case using num_loop_stop [OF assms(2)] by simp
next
  case (Cons d ds)
  have d: "0 \<le> d" "d < 10" using Cons.prems(3) by simp_all
  have IH: "num * 10 + d \<le> foldl (\<lambda>n d. n * 10 + d) (num * 10 + d) ds"
    "num_loop (num * 10 + d) (map dig ds @ s) = Ret (foldl (\<lambda>n d. n * 10 + d) (num * 10 + d) ds, s)"
    using Cons.IH [of "num * 10 + d"] Cons.prems d by simp_all
  moreover have "int_range (num * 10 + d)" using IH(1) Cons.prems d by (simp add: int_range_def)
  ultimately show ?case using num_loop_dig [OF d] Cons.prems(1) d by (simp del: num_loop.simps)
qed

lemma read_num_digits:
  assumes "\<forall>d \<in> set (d # ds). 0 \<le> d \<and> d < 10" "s = [] \<or> \<not> digit_char (hd s)"
    and "foldl (\<lambda>n d. n * 10 + d) d ds = v" "v \<le> 2147483647"
  shows "read_num (map dig (d # ds) @ s) = Ret (Some v, s)"
  using num_loop_digits [OF assms(1,2), of 0] assms digit_dig [of d] by (simp add: read_num_def del: num_loop.simps)

lemma read_num_two:
  assumes "0 \<le> v" "v < 100" "s = [] \<or> \<not> digit_char (hd s)"
  shows "read_num (dig (v div 10) # dig (v mod 10) # s) = Ret (Some v, s)"
proof -
  have d: "0 \<le> v div 10" "v div 10 < 10" using assms(1,2) by (simp_all add: pos_imp_zdiv_nonneg_iff)
  show ?thesis using read_num_digits [of "v div 10" "[v mod 10]" s v] d assms by simp
qed

lemma four_sum:
  "a * 1000 + x = v \<Longrightarrow> b * 100 + y = x \<Longrightarrow> c * 10 + d = y \<Longrightarrow> ((a * 10 + b) * 10 + c) * 10 + d = v" for a b c d x y v :: int
  by simp

lemma four_digits:
  assumes "0 \<le> (v :: int)" "v < 10000"
  shows "\<forall>d \<in> set [v div 1000, v mod 1000 div 100, v mod 1000 mod 100 div 10, v mod 1000 mod 100 mod 10]. 0 \<le> d \<and> d < 10"
    "((v div 1000 * 10 + v mod 1000 div 100) * 10 + v mod 1000 mod 100 div 10) * 10 + v mod 1000 mod 100 mod 10 = v"
proof -
  have "0 \<le> v div 1000" "v div 1000 < 10" using assms by (simp_all add: pos_imp_zdiv_nonneg_iff)
  moreover have "0 \<le> x div 100 \<and> x div 100 < 10" if "0 \<le> x" "x < 1000" for x :: int
    using that by (simp add: pos_imp_zdiv_nonneg_iff)
  moreover have "0 \<le> x div 10 \<and> x div 10 < 10" if "0 \<le> x" "x < 100" for x :: int
    using that by (simp add: pos_imp_zdiv_nonneg_iff)
  ultimately show "\<forall>d \<in> set [v div 1000, v mod 1000 div 100, v mod 1000 mod 100 div 10, v mod 1000 mod 100 mod 10]. 0 \<le> d \<and> d < 10"
    by simp
  show "((v div 1000 * 10 + v mod 1000 div 100) * 10 + v mod 1000 mod 100 div 10) * 10 + v mod 1000 mod 100 mod 10 = v"
    by (rule four_sum [of _ "v mod 1000" _ _ "v mod 1000 mod 100"]) (rule div_mult_mod_eq)+
qed

lemma read_num_four:
  assumes "0 \<le> v" "v < 10000" "s = [] \<or> \<not> digit_char (hd s)"
  shows "read_num (year_text v @ s) = Ret (Some v, s)"
proof -
  let ?b = "v mod 1000 div 100" and ?c = "v mod 1000 mod 100 div 10" and ?d = "v mod 1000 mod 100 mod 10"
  have "foldl (\<lambda>n d. n * 10 + d) (v div 1000) [?b, ?c, ?d] = v" by (simp only: foldl.simps four_digits(2) [OF assms(1,2)])
  moreover have "v \<le> 2147483647" using assms(2) by linarith
  ultimately have "read_num (map dig (v div 1000 # [?b, ?c, ?d]) @ s) = Ret (Some v, s)"
    by (rule read_num_digits [OF four_digits(1) [OF assms(1,2)] assms(3)])
  then show ?thesis by (simp only: year_text_def list.map)
qed

lemma read_num_one:
  assumes "0 \<le> v" "v < 10" "s = [] \<or> \<not> digit_char (hd s)"
  shows "read_num (dig v # s) = Ret (Some v, s)"
  using read_num_digits [of v "[]" s v] assms by simp

lemma read_day:
  assumes "1 \<le> d" "d \<le> 31" "s \<noteq> []" "\<not> digit_char (hd s)" "hd s \<noteq> CHR '' ''"
  shows "read_num (skip_spaces ([if d div 10 = 0 then CHR '' '' else dig (d div 10), dig (d mod 10)] @ s)) = Ret (Some d, s)"
proof (cases "d < 10")
  case True
  then have "d div 10 = 0" "d mod 10 = d" using assms(1) by simp_all
  then show ?thesis using read_num_one [of d s] True assms dig_other [of d] by simp
next
  case False
  then have b: "0 < d div 10" "d div 10 < 10" using assms(2) by (simp_all add: pos_imp_zdiv_pos_iff)
  then show ?thesis using read_num_two [of d s] assms dig_other [of "d div 10"] by simp
qed

text \<open>The twelve names.\<close>

lemma month_name:
  assumes "1 \<le> m" "m \<le> (12 :: int)"
  shows "\<exists>a b c. take 5 (drop (nat (m * 4 - 4)) month_names) = [CHR ''-'', a, b, c, CHR ''-''] \<and> a \<noteq> CHR ''-'' \<and>
    (\<forall>s. month_search (drop 1 month_names) 12 (a # b # c # s) = nat m)"
proof -
  have "m = 1 \<or> m = 2 \<or> m = 3 \<or> m = 4 \<or> m = 5 \<or> m = 6 \<or> m = 7 \<or> m = 8 \<or> m = 9 \<or> m = 10 \<or> m = 11 \<or> m = 12"
    using assms by presburger
  then show ?thesis by (elim disjE; simp add: month_names_def eval_nat_numeral)
qed

lemma read_month_name:
  assumes "1 \<le> m" "m \<le> 12"
  shows "\<exists>a b c. take 5 (drop (nat (m * 4 - 4)) month_names) = [CHR ''-'', a, b, c, CHR ''-''] \<and>
    (\<forall>w s. read_month w (a # b # c # s) = (w[1 := word_of_int m], s))"
proof -
  obtain a b c where n: "take 5 (drop (nat (m * 4 - 4)) month_names) = [CHR ''-'', a, b, c, CHR ''-'']" "a \<noteq> CHR ''-''"
    "\<forall>s. month_search (drop 1 month_names) 12 (a # b # c # s) = nat m" using month_name [OF assms] by blast
  moreover have "(of_nat (nat m) :: u16) = word_of_int m" using assms(1) by simp
  ultimately show ?thesis by (auto simp: read_month_def)
qed

lemma clock_step:
  assumes "0 \<le> v" "v < 60" "\<not> digit_char sep"
  shows "read_clock tf (sep # seps) w (dig (v div 10) # dig (v mod 10) # sep # s) = read_clock (tf + 1) seps (w[3 + tf := word_of_int v]) s"
  using read_num_two [of v "sep # s"] assms by (simp add: set_field_def Let_def)

lemma read_clock_text:
  assumes "\<forall>i \<in> {3, 4, 5}. 0 \<le> w i \<and> w i < 60" "0 \<le> w 6" "w 6 < 100"
  shows "read_clock 0 ''::.'' f (clock_text w) =
    Ret (f[3 := word_of_int (w 3), 4 := word_of_int (w 4), 5 := word_of_int (w 5)], [dig (w 6 div 10), dig (w 6 mod 10)])"
  using assms clock_step [of "w 3" "CHR '':''"] clock_step [of "w 4" "CHR '':''"] clock_step [of "w 5" "CHR ''.''"]
  by (simp add: clock_text_def not_digit numeral_eq_Suc del: read_clock.simps(2))

lemma read_hundredths_text:
  assumes "0 \<le> v" "v < 100"
  shows "read_hundredths f [dig (v div 10), dig (v mod 10)] = (f[6 := word_of_int v], [])"
proof -
  have d: "0 \<le> v div 10" "v div 10 < 10" using assms by (simp_all add: pos_imp_zdiv_nonneg_iff)
  then have "hundredth_loop 10 0 [dig (v div 10), dig (v mod 10)] = (10 * (v div 10) + v mod 10, [])"
    using digit_dig [of "v mod 10"] digit_dig [of "v div 10"] code_dig(1) [of "v div 10"] code_dig(1) [of "v mod 10"] by simp
  then show ?thesis using digit_dig [OF d] by (simp add: read_hundredths_def)
qed

section \<open>There and back\<close>

text \<open>The current time, which fills the missing parts of a date.\<close>

lemma numtim_now:
  assumes "0 \<le> cur" "cur < 2 ^ 32" "safe_days (40587 + cur div 86400)"
  shows "\<exists>y m d t. sys_numtim cur w0 None = Ret (SS_NORMAL, fields y m d t)"
proof -
  obtain q where q: "sys_gettim cur (replicate 8 0) = Ret (SS_NORMAL, q)" "length q = 8"
    "quadval q = (40587 * 86400 + cur) * 10000000" using gettim_value [OF assms] by blast
  then have v: "0 \<le> quadval q" "quadval q < 2 ^ 63" using assms(1,2) by simp_all
  then have d: "\<not> is_delta q" using is_delta_iff [OF q(2)] by simp
  have "lib_day cur None = lib_day cur (Some q)"
    using q(1) d by (simp add: lib_day_def crack_def status_defs split: prod.split)
  then have "sys_numtim cur w0 None = sys_numtim cur w0 (Some q)" by (simp only: sys_numtim_def)
  then show ?thesis using numtim_date [OF q(2) d] by metis
qed

lemma read_date_text:
  assumes "1 \<le> w 2" "w 2 \<le> 31" "1 \<le> w 1" "w 1 \<le> 12" "0 \<le> w 0" "w 0 < 10000"
    and "sys_numtim cur w0 None = Ret (sts, f)"
  shows "read_date cur w0 (skip_spaces (date_text w @ s)) =
    Ret (f[2 := word_of_int (w 2), 1 := word_of_int (w 1), 0 := word_of_int (w 0)], CHR '' '' # s)"
proof -
  obtain a b c where n: "take 5 (drop (nat (w 1 * 4 - 4)) month_names) = [CHR ''-'', a, b, c, CHR ''-'']"
    "\<forall>f s. read_month f (a # b # c # s) = (f[1 := word_of_int (w 1)], s)" using read_month_name [OF assms(3,4)] by blast
  let ?t = "CHR ''-'' # a # b # c # CHR ''-'' # year_text (w 0) @ CHR '' '' # s"
  have e: "date_text w @ s = [if w 2 div 10 = 0 then CHR '' '' else dig (w 2 div 10), dig (w 2 mod 10)] @ ?t"
    unfolding date_text_def n(1) by simp
  have d: "read_num (skip_spaces (date_text w @ s)) = Ret (Some (w 2), ?t)"
    unfolding e by (rule read_day) (use assms(1,2) in \<open>simp_all add: not_digit\<close>)
  have y: "read_num (year_text (w 0) @ CHR '' '' # s) = Ret (Some (w 0), CHR '' '' # s)"
    by (rule read_num_four) (use assms(5,6) in \<open>simp_all add: not_digit\<close>)
  show ?thesis
    unfolding read_date_def d using assms(7) n(2) y by (simp add: read_year_def set_field_def)
qed

lemma bintim_date_text:
  assumes "1 \<le> w 2" "w 2 \<le> 31" "1 \<le> w 1" "w 1 \<le> 12" "0 \<le> w 0" "w 0 < 10000"
    and "\<forall>i \<in> {3, 4, 5}. 0 \<le> w i \<and> w i < 60" "0 \<le> w 6" "w 6 < 100"
    and "sys_numtim cur w0 None = Ret (sts, f)" "length f = 7"
  shows "bintim_fields cur w0 (date_text w @ clock_text w) = Ret (Some (map (\<lambda>i. word_of_int (w i)) [0, 1, 2, 3, 4, 5, 6]))"
proof -
  have h: "0 \<le> w 3" "w 3 < 60" using assms(7) by simp_all
  then have "0 \<le> w 3 div 10" "w 3 div 10 < 10" by (simp_all add: pos_imp_zdiv_nonneg_iff)
  then have "dig (w 3 div 10) \<noteq> CHR '' ''" by (rule dig_other)
  then have s: "skip_spaces (CHR '' '' # clock_text w) = clock_text w" by (simp add: clock_text_def)
  obtain a0 a1 a2 a3 a4 a5 a6 where f: "f = [a0, a1, a2, a3, a4, a5, a6]"
    using assms(11) by (auto simp: numeral_eq_Suc length_Suc_conv)
  show ?thesis
    unfolding bintim_fields_def read_date_text [OF assms(1-6,10)]
    by (simp only: bindo.simps prod.case s read_clock_text [OF assms(7-9)] read_hundredths_text [OF assms(8,9)] Let_def) (simp add: f)
qed

text \<open>The fields as the routines read them.\<close>

lemma mod_field: "0 < k \<Longrightarrow> k \<le> 65536 \<Longrightarrow> uint (word_of_int (x mod k) :: u16) = x mod k"
  by (rule uint_field) (simp_all add: order.strict_trans2 [OF pos_mod_bound])

lemma fields_values:
  assumes "date_of day y m d" "y \<le> 9999" "0 \<le> t" "t < TIMESIZE" and w: "w = (\<lambda>i. uint (fields y m d t ! i))"
  shows "w 0 = y" "w 1 = m" "w 2 = d" "\<forall>i \<in> {3, 4, 5}. 0 \<le> w i \<and> w i < 60" "0 \<le> w 6" "w 6 < 100"
    "map (\<lambda>i. word_of_int (w i)) [0, 1, 2, 3, 4, 5, 6] = fields y m d t"
proof -
  have y: "1858 \<le> y" "1 \<le> m" "m \<le> 12" "1 \<le> d" "d \<le> 31" using assms(1) by (simp_all add: date_of_def)
  have t: "t < 8640000" using assms(4) by (simp add: TIMESIZE_def)
  note f = time_fields [OF assms(3) t]
  have n: "w 0 = uint (word_of_int y :: u16)" "w 1 = uint (word_of_int m :: u16)" "w 2 = uint (word_of_int d :: u16)"
    "w 3 = uint (word_of_int (t div 100 div 60 div 60) :: u16)" "w 4 = uint (word_of_int (t div 100 div 60 mod 60) :: u16)"
    "w 5 = uint (word_of_int (t div 100 mod 60) :: u16)" "w 6 = uint (word_of_int (t mod 100) :: u16)"
    unfolding w fields_def by simp_all
  show "w 0 = y" "w 1 = m" "w 2 = d" unfolding n by (rule uint_field; use y assms(2) in simp)+
  have "w 3 = t div 100 div 60 div 60" unfolding n by (rule uint_field [OF f(2)]) (use f(3) in linarith)
  then have "0 \<le> w 3 \<and> w 3 < 60" using f(2,3) by linarith
  moreover have "w 4 = t div 100 div 60 mod 60" "w 5 = t div 100 mod 60" "w 6 = t mod 100" unfolding n by (rule mod_field; simp)+
  ultimately show "\<forall>i \<in> {3, 4, 5}. 0 \<le> w i \<and> w i < 60" "0 \<le> w 6" "w 6 < 100" by simp_all
  show "map (\<lambda>i. word_of_int (w i)) [0, 1, 2, 3, 4, 5, 6] = fields y m d t" unfolding w by (simp add: fields_def)
qed



text \<open>Without a number in front the days of a delta time are minus one, which the field keeps as 65535.\<close>

lemma missing_days: "bintim_fields cur w0 '':30'' = Ret (Some [0, 0, 65535, 0, 30, 0, 0])"
  by (simp add: bintim_fields_def read_date_def read_num_def digit_char_def int_range_def set_field_def read_hundredths_def)

end
