(* ===== verification/Binary_Tree.thy ===== *)
theory Binary_Tree
  imports Prelude "HOL-Library.Tree"
begin

text \<open>
  The binary tree of \<open>userland/rtl/libbintree.c\<close>, behind \<open>lib$insert_tree\<close>, \<open>lib$lookup_tree\<close> and
  \<open>lib$traverse_tree\<close>. The nodes are linked by pointers and changed in place, so the state is an
  explicit memory: \<open>mem\<close> maps the address of a node to its fields and \<open>head\<close> is the pointer
  \<open>*treehead\<close>. Reading or writing a node that is not there, the null pointer included, is a
  \<open>Fault\<close>; recursions on pointers take a fuel, and running out of it is \<open>Timeout\<close>.

  The routines of the user are parameters: \<open>cmp item node user_data\<close> is the compare routine,
  \<open>alloc symbol user_data mem\<close> the allocation procedure (its status, the memory after it and the
  address it leaves in \<open>*new_node\<close>) and \<open>act node user_data\<close> the action procedure on a state of its
  own. Nothing in the library reads the item of a node, it only hands its address to the compare
  routine.

  The second part is the reference the memory is compared with: trees of node addresses with the
  depth each node records.
\<close>

section \<open>The model\<close>

record avl_node_t =
  n_left :: u64
  n_right :: u64
  n_depth :: u16
  n_item :: u64

type_synonym node_mem = "u64 \<rightharpoonup> avl_node_t"

record bintree =
  mem :: node_mem
  head :: u64

definition LIB_NORMAL :: int where "LIB_NORMAL = 0x158001"
definition LIB_KEYALRINS :: int where "LIB_KEYALRINS = 0x158021"
definition LIB_KEYNOTFOU :: int where "LIB_KEYNOTFOU = 0x1582FC"
definition LIB_INSVIRMEM :: int where "LIB_INSVIRMEM = 0x158214"

text \<open>\<open>&node->item\<close>: the two links, the depth and its padding come before it.\<close>

definition item_addr :: "u64 \<Rightarrow> u64" where
  "item_addr p = p + 24"

definition avl_load :: "bintree \<Rightarrow> u64 \<Rightarrow> avl_node_t outcome" where
  "avl_load s p = (case mem s p of None \<Rightarrow> Fault | Some n \<Rightarrow> if p = 0 then Fault else Ret n)"

definition avl_store :: "(avl_node_t \<Rightarrow> avl_node_t) \<Rightarrow> u64 \<Rightarrow> bintree \<Rightarrow> bintree outcome" where
  "avl_store f p s = bindo (avl_load s p) (\<lambda>n. Ret (s\<lparr>mem := (mem s)(p \<mapsto> f n)\<rparr>))"

definition set_left :: "u64 \<Rightarrow> u64 \<Rightarrow> bintree \<Rightarrow> bintree outcome" where
  "set_left p v = avl_store (\<lambda>n. n\<lparr>n_left := v\<rparr>) p"

definition set_right :: "u64 \<Rightarrow> u64 \<Rightarrow> bintree \<Rightarrow> bintree outcome" where
  "set_right p v = avl_store (\<lambda>n. n\<lparr>n_right := v\<rparr>) p"

definition set_depth :: "u64 \<Rightarrow> u16 \<Rightarrow> bintree \<Rightarrow> bintree outcome" where
  "set_depth p v = avl_store (\<lambda>n. n\<lparr>n_depth := v\<rparr>) p"

definition NODE_DEPTH :: "bintree \<Rightarrow> u64 \<Rightarrow> u16 outcome" where
  "NODE_DEPTH s p = (if p \<noteq> 0 then bindo (avl_load s p) (\<lambda>n. Ret (n_depth n)) else Ret 0)"

definition L_DEPTH :: "bintree \<Rightarrow> u64 \<Rightarrow> u16 outcome" where
  "L_DEPTH s p = bindo (avl_load s p) (\<lambda>n. NODE_DEPTH s (n_left n))"

definition R_DEPTH :: "bintree \<Rightarrow> u64 \<Rightarrow> u16 outcome" where
  "R_DEPTH s p = bindo (avl_load s p) (\<lambda>n. NODE_DEPTH s (n_right n))"

text \<open>\<open>CALC_DEPTH\<close> as it is used: the sum is an \<open>int\<close>, the field keeps its low 16 bits.\<close>

definition calc_depth :: "u64 \<Rightarrow> bintree \<Rightarrow> bintree outcome" where
  "calc_depth p s =
     bindo (L_DEPTH s p) (\<lambda>l. bindo (R_DEPTH s p) (\<lambda>r.
       set_depth p (word_of_int ((if uint l > uint r then uint l else uint r) + 1)) s))"

definition avl_check_balance :: "bintree \<Rightarrow> u64 \<Rightarrow> int outcome" where
  "avl_check_balance s p =
     bindo (R_DEPTH s p) (\<lambda>r. bindo (L_DEPTH s p) (\<lambda>l.
       let d = uint r - uint l in Ret (if d < - 1 then - 1 else if d > 1 then 1 else 0)))"

text \<open>The loop of the search; \<open>p\<close> is the node, \<open>par\<close> what \<open>*parent\<close> holds.\<close>

fun search_loop ::
    "(u64 \<Rightarrow> u64 \<Rightarrow> u64 \<Rightarrow> int) \<Rightarrow> u64 \<Rightarrow> u64 \<Rightarrow> nat \<Rightarrow> bintree \<Rightarrow> u64 \<Rightarrow> u64 \<Rightarrow> (int \<times> u64 \<times> u64) outcome"
  where
  "search_loop cmp item ud 0 s p par = Timeout"
| "search_loop cmp item ud (Suc fuel) s p par =
     (let c = cmp item p ud
      in if c < 0 then
           bindo (avl_load s p) (\<lambda>n.
             if n_left n \<noteq> 0 then search_loop cmp item ud fuel s (n_left n) p else Ret (- 1, p, par))
         else if c > 0 then
           bindo (avl_load s p) (\<lambda>n.
             if n_right n \<noteq> 0 then search_loop cmp item ud fuel s (n_right n) p else Ret (1, p, par))
         else Ret (0, p, par))"

definition avl_search_closest ::
    "(u64 \<Rightarrow> u64 \<Rightarrow> u64 \<Rightarrow> int) \<Rightarrow> nat \<Rightarrow> bintree \<Rightarrow> u64 \<Rightarrow> u64 \<Rightarrow> (int \<times> u64 \<times> u64) outcome" where
  "avl_search_closest cmp fuel s item ud =
     (if head s = 0 then Ret (0, 0, 0) else search_loop cmp item ud fuel s (head s) 0)"

text \<open>The pointer that leads to the subtree being rebalanced, \<open>avl_node_t **superparent\<close>.\<close>

datatype link = Head | LeftOf u64 | RightOf u64

definition set_link :: "link \<Rightarrow> u64 \<Rightarrow> bintree \<Rightarrow> bintree outcome" where
  "set_link sp v s =
     (case sp of Head \<Rightarrow> Ret (s\<lparr>head := v\<rparr>) | LeftOf p \<Rightarrow> set_left p v s | RightOf p \<Rightarrow> set_right p v s)"

definition superparent :: "bintree \<Rightarrow> u64 \<Rightarrow> u64 \<Rightarrow> link outcome" where
  "superparent s avlnode parent =
     (if parent \<noteq> 0 then
        bindo (avl_load s parent) (\<lambda>n.
          Ret (if avlnode = n_left n then LeftOf parent else RightOf parent))
      else Ret Head)"

text \<open>The two sides of the switch: the left subtree is too deep, the right subtree is.\<close>

definition left_heavy :: "link \<Rightarrow> u64 \<Rightarrow> bintree \<Rightarrow> bintree outcome" where
  "left_heavy sp avlnode s =
     bindo (avl_load s avlnode) (\<lambda>a. let child = n_left a in
     bindo (L_DEPTH s child) (\<lambda>ld. bindo (R_DEPTH s child) (\<lambda>rd.
     bindo (avl_load s child) (\<lambda>c.
       if ld \<ge> rd then
         bindo (set_left avlnode (n_right c) s) (\<lambda>s.
         bindo (set_right child avlnode s) (\<lambda>s.
         bindo (set_link sp child s) (\<lambda>s.
         bindo (calc_depth avlnode s) (calc_depth child))))
       else let gchild = n_right c in
         bindo (avl_load s gchild) (\<lambda>g.
         bindo (set_left avlnode (n_right g) s) (\<lambda>s.
         bindo (set_right child (n_left g) s) (\<lambda>s.
         bindo (set_right gchild avlnode s) (\<lambda>s.
         bindo (set_left gchild child s) (\<lambda>s.
         bindo (set_link sp gchild s) (\<lambda>s.
         bindo (calc_depth avlnode s) (\<lambda>s.
         bindo (calc_depth child s) (calc_depth gchild)))))))))))) "

definition right_heavy :: "link \<Rightarrow> u64 \<Rightarrow> bintree \<Rightarrow> bintree outcome" where
  "right_heavy sp avlnode s =
     bindo (avl_load s avlnode) (\<lambda>a. let child = n_right a in
     bindo (R_DEPTH s child) (\<lambda>rd. bindo (L_DEPTH s child) (\<lambda>ld.
     bindo (avl_load s child) (\<lambda>c.
       if rd \<ge> ld then
         bindo (set_right avlnode (n_left c) s) (\<lambda>s.
         bindo (set_left child avlnode s) (\<lambda>s.
         bindo (set_link sp child s) (\<lambda>s.
         bindo (calc_depth avlnode s) (calc_depth child))))
       else let gchild = n_left c in
         bindo (avl_load s gchild) (\<lambda>g.
         bindo (set_right avlnode (n_left g) s) (\<lambda>s.
         bindo (set_left child (n_right g) s) (\<lambda>s.
         bindo (set_left gchild avlnode s) (\<lambda>s.
         bindo (set_right gchild child s) (\<lambda>s.
         bindo (set_link sp gchild s) (\<lambda>s.
         bindo (calc_depth avlnode s) (\<lambda>s.
         bindo (calc_depth child s) (calc_depth gchild)))))))))))) "

definition balance_node :: "u64 \<Rightarrow> u64 \<Rightarrow> bintree \<Rightarrow> bintree outcome" where
  "balance_node avlnode parent s =
     bindo (superparent s avlnode parent) (\<lambda>sp.
     bindo (avl_check_balance s avlnode) (\<lambda>b.
       if b = - 1 then left_heavy sp avlnode s
       else if b = 1 then right_heavy sp avlnode s
       else calc_depth avlnode s))"

fun avl_rebalance :: "nat \<Rightarrow> u64 \<Rightarrow> u64 \<Rightarrow> bintree \<Rightarrow> bintree outcome" where
  "avl_rebalance 0 avlnode orig_parent s = Timeout"
| "avl_rebalance (Suc fuel) avlnode orig_parent s =
     bindo (avl_load s avlnode) (\<lambda>n.
     bindo (if n_left n \<noteq> 0 then avl_rebalance fuel (n_left n) avlnode s else Ret s) (\<lambda>s.
     bindo (avl_load s avlnode) (\<lambda>n.
     bindo (if n_right n \<noteq> 0 then avl_rebalance fuel (n_right n) avlnode s else Ret s)
       (balance_node avlnode orig_parent))))"

text \<open>The loop that walked up by parent pointers; it is still in the file, nothing calls it.\<close>

fun avl_rebalance_not :: "nat \<Rightarrow> u64 \<Rightarrow> u64 \<Rightarrow> bintree \<Rightarrow> bintree outcome" where
  "avl_rebalance_not 0 avlnode orig_parent s = Timeout"
| "avl_rebalance_not (Suc fuel) avlnode orig_parent s =
     (if avlnode = 0 then Ret s
      else bindo (balance_node avlnode orig_parent s) (avl_rebalance_not fuel orig_parent orig_parent))"

definition avl_insert_top :: "u64 \<Rightarrow> bintree \<Rightarrow> (int \<times> bintree) outcome" where
  "avl_insert_top newnode s =
     bindo (set_depth newnode 0 (s\<lparr>head := newnode\<rparr>)) (\<lambda>s.
     bindo (set_right newnode 0 s) (\<lambda>s.
     bindo (set_left newnode 0 s) (\<lambda>s. Ret (LIB_NORMAL, s))))"

definition avl_insert_before :: "nat \<Rightarrow> u64 \<Rightarrow> u64 \<Rightarrow> u64 \<Rightarrow> bintree \<Rightarrow> (int \<times> bintree) outcome" where
  "avl_insert_before fuel node parent newnode s =
     bindo (set_left node newnode s) (\<lambda>s.
     bindo (avl_rebalance fuel node parent s) (\<lambda>s. Ret (LIB_NORMAL, s)))"

definition avl_insert_after :: "nat \<Rightarrow> u64 \<Rightarrow> u64 \<Rightarrow> u64 \<Rightarrow> bintree \<Rightarrow> (int \<times> bintree) outcome" where
  "avl_insert_after fuel node parent newnode s =
     bindo (set_right node newnode s) (\<lambda>s.
     bindo (avl_rebalance fuel node parent s) (\<lambda>s. Ret (LIB_NORMAL, s)))"

definition avl_insert_node ::
    "(u64 \<Rightarrow> u64 \<Rightarrow> u64 \<Rightarrow> int) \<Rightarrow> nat \<Rightarrow> u64 \<Rightarrow> u64 \<Rightarrow> bintree \<Rightarrow> (int \<times> bintree) outcome" where
  "avl_insert_node cmp fuel new_node ud s =
     (if head s = 0 then avl_insert_top new_node s
      else bindo (avl_search_closest cmp fuel s (item_addr new_node) ud) (\<lambda>(c, node, parent).
        if c = - 1 then avl_insert_before fuel node parent new_node s
        else if c = 1 then avl_insert_after fuel node parent new_node s
        else Ret (LIB_KEYALRINS, s)))"

text \<open>The result is the status, the new node and the tree.\<close>

definition lib_insert_tree ::
    "(u64 \<Rightarrow> u64 \<Rightarrow> u64 \<Rightarrow> int) \<Rightarrow> ('sym \<Rightarrow> u64 \<Rightarrow> node_mem \<Rightarrow> int \<times> node_mem \<times> u64) \<Rightarrow> nat \<Rightarrow> 'sym \<Rightarrow> u64
      \<Rightarrow> bintree \<Rightarrow> (int \<times> u64 \<times> bintree) outcome" where
  "lib_insert_tree cmp alloc fuel symbol ud s =
     (let (sts, m, new_node) = alloc symbol ud (mem s); s = s\<lparr>mem := m\<rparr>
      in if even sts then Ret (LIB_INSVIRMEM, new_node, s)
         else bindo (avl_insert_node cmp fuel new_node ud s) (\<lambda>(sts, s). Ret (sts, new_node, s)))"

text \<open>The parameter \<open>symbol\<close> is an \<open>unsigned int\<close> that the search uses as a pointer.\<close>

definition lib_lookup_tree ::
    "(u64 \<Rightarrow> u64 \<Rightarrow> u64 \<Rightarrow> int) \<Rightarrow> nat \<Rightarrow> bintree \<Rightarrow> u32 \<Rightarrow> (int \<times> u64) outcome" where
  "lib_lookup_tree cmp fuel s symbol =
     bindo (avl_search_closest cmp fuel s (ucast symbol) 0) (\<lambda>(c, node, parent).
       Ret (if c \<noteq> 0 then LIB_KEYNOTFOU else LIB_NORMAL, node))"

fun traverse_tree :: "(u64 \<Rightarrow> u64 \<Rightarrow> 'u \<Rightarrow> int \<times> 'u) \<Rightarrow> u64 \<Rightarrow> bintree \<Rightarrow> nat \<Rightarrow> u64 \<Rightarrow> 'u \<Rightarrow> (int \<times> 'u) outcome"
  where
  "traverse_tree act ud s 0 p u = Timeout"
| "traverse_tree act ud s (Suc fuel) p u =
     (if p = 0 then Ret (LIB_NORMAL, u)
      else bindo (avl_load s p) (\<lambda>n.
        bindo (traverse_tree act ud s fuel (n_left n) u) (\<lambda>(sts, u).
          if even sts then Ret (sts, u)
          else let (sts, u) = act p ud u
               in if even sts then Ret (sts, u) else traverse_tree act ud s fuel (n_right n) u)))"

definition lib_traverse_tree ::
    "(u64 \<Rightarrow> u64 \<Rightarrow> 'u \<Rightarrow> int \<times> 'u) \<Rightarrow> u64 \<Rightarrow> nat \<Rightarrow> bintree \<Rightarrow> 'u \<Rightarrow> (int \<times> 'u) outcome" where
  "lib_traverse_tree act ud fuel s u = traverse_tree act ud s fuel (head s) u"

section \<open>Trees of node addresses\<close>

type_synonym dtree = "(u64 \<times> u16) tree"

text \<open>The tree the links spell out from \<open>p\<close>, and the addresses of its nodes in order.\<close>

fun tree_at :: "node_mem \<Rightarrow> u64 \<Rightarrow> dtree \<Rightarrow> bool" where
  "tree_at m p Leaf \<longleftrightarrow> p = 0"
| "tree_at m p (Node l (a, d) r) \<longleftrightarrow> p = a \<and> a \<noteq> 0 \<and>
     (case m a of None \<Rightarrow> False
      | Some n \<Rightarrow> n_depth n = d \<and> tree_at m (n_left n) l \<and> tree_at m (n_right n) r)"

fun tree_addrs :: "dtree \<Rightarrow> u64 list" where
  "tree_addrs Leaf = []"
| "tree_addrs (Node l (a, d) r) = tree_addrs l @ a # tree_addrs r"

fun dep :: "dtree \<Rightarrow> u16" where
  "dep Leaf = 0"
| "dep (Node l (a, d) r) = d"

definition node :: "dtree \<Rightarrow> u64 \<Rightarrow> dtree \<Rightarrow> dtree" where
  "node l a r = Node l (a, max (dep l) (dep r) + 1) r"

text \<open>One node is balanced by at most one rotation, single or double.\<close>

fun rot_right :: "dtree \<Rightarrow> u64 \<Rightarrow> dtree \<Rightarrow> dtree" where
  "rot_right (Node ll (c, d) lr) a r =
     (if dep ll \<ge> dep lr then node ll c (node lr a r)
      else case lr of Leaf \<Rightarrow> Leaf
        | Node gl (g, _) gr \<Rightarrow> node (node ll c gl) g (node gr a r))"
| "rot_right Leaf a r = Leaf"

fun rot_left :: "dtree \<Rightarrow> u64 \<Rightarrow> dtree \<Rightarrow> dtree" where
  "rot_left l a (Node rl (c, d) rr) =
     (if dep rr \<ge> dep rl then node (node l a rl) c rr
      else case rl of Leaf \<Rightarrow> Leaf
        | Node gl (g, _) gr \<Rightarrow> node (node l a gl) g (node gr c rr))"
| "rot_left l a Leaf = Leaf"

definition balance :: "dtree \<Rightarrow> u64 \<Rightarrow> dtree \<Rightarrow> dtree" where
  "balance l a r =
     (if uint (dep l) > uint (dep r) + 1 then rot_right l a r
      else if uint (dep r) > uint (dep l) + 1 then rot_left l a r
      else node l a r)"

fun rebal :: "dtree \<Rightarrow> dtree" where
  "rebal Leaf = Leaf"
| "rebal (Node l (a, d) r) = balance (rebal l) a (rebal r)"

text \<open>
  The insertion as it goes down the tree: the subtree that gets the new leaf is rebalanced, nothing
  above it is.
\<close>

fun ins :: "(u64 \<Rightarrow> int) \<Rightarrow> u64 \<Rightarrow> u16 \<Rightarrow> dtree \<Rightarrow> dtree" where
  "ins c x dx Leaf = Node Leaf (x, dx) Leaf"
| "ins c x dx (Node l (a, d) r) =
     (if c a < 0 then
        if l = Leaf then rebal (Node (Node Leaf (x, dx) Leaf) (a, d) r) else Node (ins c x dx l) (a, d) r
      else if c a > 0 then
        if r = Leaf then rebal (Node l (a, d) (Node Leaf (x, dx) Leaf)) else Node l (a, d) (ins c x dx r)
      else Node l (a, d) r)"

section \<open>The memory and the tree\<close>

abbreviation nodes :: "dtree \<Rightarrow> u64 set" where
  "nodes t \<equiv> set (tree_addrs t)"

lemma tree_at_0 [simp]: "tree_at m 0 t \<longleftrightarrow> t = Leaf"
  by (cases t) auto

lemma tree_at_nonzero: "p \<noteq> 0 \<Longrightarrow> tree_at m p t \<longleftrightarrow> (\<exists>l r n. m p = Some n \<and> t = Node l (p, n_depth n) r \<and>
    tree_at m (n_left n) l \<and> tree_at m (n_right n) r)"
  by (cases t) (auto split: option.splits)

lemma tree_at_in_nodes: "tree_at m p t \<Longrightarrow> p \<noteq> 0 \<Longrightarrow> p \<in> nodes t"
  by (cases t) auto

lemma tree_at_not_0: "tree_at m p t \<Longrightarrow> 0 \<notin> nodes t"
  by (induction m p t rule: tree_at.induct) (auto split: option.splits)

lemma tree_at_frame: "tree_at m p t \<Longrightarrow> (\<And>a. a \<in> nodes t \<Longrightarrow> m' a = m a) \<Longrightarrow> tree_at m' p t"
  by (induction m p t rule: tree_at.induct) (auto split: option.splits)

lemma tree_at_other:
  "tree_at m p t \<Longrightarrow> (\<And>x. x \<noteq> a \<Longrightarrow> m' x = m x) \<Longrightarrow> a \<notin> nodes t \<Longrightarrow> tree_at m' p t"
  by (erule tree_at_frame) metis

lemma tree_at_upd [simp]: "a \<notin> nodes t \<Longrightarrow> tree_at (m(a := v)) p t \<longleftrightarrow> tree_at m p t"
  by (rule iffI; erule tree_at_frame) auto

lemma NODE_DEPTH_tree: "tree_at (mem s) p t \<Longrightarrow> NODE_DEPTH s p = Ret (dep t)"
  by (cases t) (auto simp: NODE_DEPTH_def avl_load_def split: option.splits)

lemma avl_load_simp: "mem s p = Some n \<Longrightarrow> p \<noteq> 0 \<Longrightarrow> avl_load s p = Ret n"
  by (simp add: avl_load_def)


lemma avl_store_simp:
  "mem s p = Some n \<Longrightarrow> p \<noteq> 0 \<Longrightarrow> avl_store f p s = Ret (s\<lparr>mem := (mem s)(p \<mapsto> f n)\<rparr>)"
  by (simp add: avl_store_def avl_load_simp)

lemma max_depth: "word_of_int ((if uint (l :: u16) > uint r then uint l else uint r) + 1) = max l r + 1"
  by (auto simp: max_def word_le_def)

lemma calc_depth_tree:
  assumes "mem s a = Some n" "a \<noteq> 0" "tree_at (mem s) (n_left n) l" "tree_at (mem s) (n_right n) r"
  shows "calc_depth a s = Ret (s\<lparr>mem := (mem s)(a \<mapsto> n\<lparr>n_depth := max (dep l) (dep r) + 1\<rparr>)\<rparr>)"
  using assms
  by (simp add: calc_depth_def L_DEPTH_def R_DEPTH_def avl_load_simp NODE_DEPTH_tree set_depth_def
      avl_store_simp max_depth del: of_int_add)

lemma avl_check_balance_tree:
  assumes "mem s a = Some n" "a \<noteq> 0" "tree_at (mem s) (n_left n) l" "tree_at (mem s) (n_right n) r"
  shows "avl_check_balance s a =
    Ret (if uint (dep l) > uint (dep r) + 1 then - 1 else if uint (dep r) > uint (dep l) + 1 then 1 else 0)"
  using assms
  by (auto simp: avl_check_balance_def L_DEPTH_def R_DEPTH_def avl_load_simp NODE_DEPTH_tree Let_def)

text \<open>
  \<open>p\<close> hangs below \<open>par\<close>, or below the head when \<open>par\<close> is null; an operation on the subtree \<open>A\<close> moves
  that link to \<open>p'\<close> and leaves everything else outside \<open>A\<close> as it was.
\<close>

definition linked :: "bintree \<Rightarrow> u64 \<Rightarrow> u64 \<Rightarrow> bool" where
  "linked s par p \<longleftrightarrow>
     (if par = 0 then head s = p else \<exists>n. mem s par = Some n \<and> (n_left n = p \<or> n_right n = p))"

definition relink :: "u64 \<Rightarrow> u64 \<Rightarrow> avl_node_t \<Rightarrow> avl_node_t" where
  "relink p p' n = (if n_left n = p then n\<lparr>n_left := p'\<rparr> else n\<lparr>n_right := p'\<rparr>)"

definition moved :: "u64 set \<Rightarrow> u64 \<Rightarrow> u64 \<Rightarrow> bintree \<Rightarrow> bintree \<Rightarrow> u64 \<Rightarrow> bool" where
  "moved A par p s s' p' \<longleftrightarrow>
     (\<forall>a. a \<notin> A \<longrightarrow> a \<noteq> par \<or> par = 0 \<longrightarrow> mem s' a = mem s a) \<and>
     (if par = 0 then head s' = p' else head s' = head s \<and> mem s' par = map_option (relink p p') (mem s par))"

lemma relink_same: "n_left n = p \<or> n_right n = p \<Longrightarrow> relink p p n = n"
  by (auto simp: relink_def)

lemma moved_stay:
  "linked s par p \<Longrightarrow> par \<notin> A \<Longrightarrow> (\<And>a. a \<notin> A \<Longrightarrow> mem s' a = mem s a) \<Longrightarrow> head s' = head s \<Longrightarrow> moved A par p s s' p"
  by (auto simp: moved_def linked_def relink_same)

text \<open>Writing through the pointer the code computed moves the link of \<open>par\<close>.\<close>

definition link_of :: "bintree \<Rightarrow> u64 \<Rightarrow> u64 \<Rightarrow> link \<Rightarrow> bool" where
  "link_of s par p sp \<longleftrightarrow> (\<forall>s' v. (par \<noteq> 0 \<longrightarrow> mem s' par = mem s par) \<longrightarrow> set_link sp v s' =
     Ret (if par = 0 then s'\<lparr>head := v\<rparr> else s'\<lparr>mem := (mem s')(par := map_option (relink p v) (mem s par))\<rparr>))"

lemma superparent_link:
  assumes "linked s par p"
  obtains sp where "superparent s p par = Ret sp" "link_of s par p sp"
proof (cases "par = 0")
  case True
  show ?thesis
    by (rule that [of Head]) (use True in \<open>auto simp: superparent_def set_link_def link_of_def\<close>)
next
  case False
  then obtain n where n: "mem s par = Some n" "n_left n = p \<or> n_right n = p"
    using assms by (auto simp: linked_def)
  show ?thesis
    by (rule that [of "if p = n_left n then LeftOf par else RightOf par"])
       (use n False in \<open>auto simp: superparent_def avl_load_simp set_link_def set_left_def set_right_def
          avl_store_simp relink_def link_of_def\<close>)
qed

lemma link_frame:
  assumes sp: "link_of s par p sp" and par: "par \<notin> A"
    and same: "\<And>x. x \<notin> A \<Longrightarrow> mem s1 x = mem s x" "head s1 = head s"
  obtains s2 where "set_link sp v s1 = Ret s2" "\<And>x. x \<in> A \<Longrightarrow> mem s2 x = mem s1 x"
    "\<And>s3. (\<And>x. x \<notin> A \<Longrightarrow> mem s3 x = mem s2 x) \<Longrightarrow> head s3 = head s2 \<Longrightarrow> moved A par p s s3 v"
proof -
  let ?s2 = "if par = 0 then s1\<lparr>head := v\<rparr> else s1\<lparr>mem := (mem s1)(par := map_option (relink p v) (mem s par))\<rparr>"
  have "set_link sp v s1 = Ret ?s2"
    using sp same(1) [OF par] by (simp add: link_of_def)
  moreover have "mem ?s2 x = mem s1 x" if "x \<in> A" for x
    using that par by auto
  moreover have "moved A par p s s3 v" if "\<And>x. x \<notin> A \<Longrightarrow> mem s3 x = mem ?s2 x" "head s3 = head ?s2" for s3
    using that same par by (cases "par = 0") (auto simp: moved_def)
  ultimately show thesis by (rule that)
qed

lemma calc_node:
  assumes "mem s a = Some n" "a \<noteq> 0" "tree_at (mem s) (n_left n) l" "tree_at (mem s) (n_right n) r"
    and "a \<notin> nodes l" "a \<notin> nodes r"
  shows "\<exists>s'. calc_depth a s = Ret s' \<and> tree_at (mem s') a (node l a r) \<and> head s' = head s \<and>
    (\<forall>x. x \<noteq> a \<longrightarrow> mem s' x = mem s x)"
  using calc_depth_tree [OF assms(1-4)] assms by (auto simp: node_def)

lemma heavy_Node:
  assumes "uint (dep t) > uint (dep u) + 1"
  obtains l a d r where "t = Node l (a, d) r"
proof -
  have "t \<noteq> Leaf"
  proof
    assume "t = Leaf"
    then show False using assms unsigned_greater_eq [of "dep u", where ?'a = int] by simp
  qed
  then show thesis using that by (cases t rule: dep.cases) auto
qed

lemma deeper_Node:
  assumes "\<not> dep t \<ge> dep u"
  obtains l a d r where "u = Node l (a, d) r"
  using assms that by (cases u rule: dep.cases) auto

lemma left_heavy_single:
  assumes t: "tree_at (mem s) p (Node l (p, d) r)" and dist: "distinct (tree_addrs (Node l (p, d) r))"
    and par: "par \<notin> nodes (Node l (p, d) r)"
    and sp: "link_of s par p sp"
    and l: "l = Node ll (ch, dc) lr" and deep: "dep ll \<ge> dep lr"
  shows "\<exists>s' p'. left_heavy sp p s = Ret s' \<and> tree_at (mem s') p' (rot_right l p r) \<and>
    moved (nodes (Node l (p, d) r)) par p s s' p'"
proof -
  let ?A = "nodes (Node l (p, d) r)"
  obtain a where a: "mem s p = Some a" "p \<noteq> 0" "tree_at (mem s) (n_left a) l" "tree_at (mem s) (n_right a) r"
    using t by (auto split: option.splits)
  obtain c where c: "n_left a = ch" "mem s ch = Some c" "ch \<noteq> 0" "tree_at (mem s) (n_left c) ll"
      "tree_at (mem s) (n_right c) lr"
    using a l by (auto split: option.splits)
  let ?s1 = "s\<lparr>mem := (mem s)(p \<mapsto> a\<lparr>n_left := n_right c\<rparr>, ch \<mapsto> c\<lparr>n_right := p\<rparr>)\<rparr>"
  obtain s2 where s2: "set_link sp ch ?s1 = Ret s2" "\<And>x. x \<in> ?A \<Longrightarrow> mem s2 x = mem ?s1 x"
    "\<And>s3. (\<And>x. x \<notin> ?A \<Longrightarrow> mem s3 x = mem s2 x) \<Longrightarrow> head s3 = head s2 \<Longrightarrow> moved ?A par p s s3 ch"
    using l by (auto intro: link_frame [OF sp par, of ?s1 ch])
  have at2: "tree_at (mem s2) (n_right c) lr" "tree_at (mem s2) (n_right a) r" "tree_at (mem s2) (n_left c) ll"
    using a c s2(2) dist l by (auto elim!: tree_at_frame)
  obtain s3 where s3: "calc_depth p s2 = Ret s3" "tree_at (mem s3) p (node lr p r)" "head s3 = head s2"
      "\<And>x. x \<noteq> p \<Longrightarrow> mem s3 x = mem s2 x"
    using calc_node [of s2 p "a\<lparr>n_left := n_right c\<rparr>" lr r] at2 s2(2) [of p] a(2) dist l by auto
  have at3: "tree_at (mem s3) (n_left c) ll"
    using tree_at_other [OF at2(3) s3(4)] dist l by auto
  obtain s4 where s4: "calc_depth ch s3 = Ret s4" "tree_at (mem s4) ch (node ll ch (node lr p r))"
      "head s4 = head s3" "\<And>x. x \<noteq> ch \<Longrightarrow> mem s4 x = mem s3 x"
    using calc_node [of s3 ch "c\<lparr>n_right := p\<rparr>" ll "node lr p r"] at3 s3(2) s3(4) [of ch] s2(2) [of ch] c(3) dist l
    by (auto simp: node_def)
  show ?thesis
    using deep a c l dist s2(1) s3 s4 s2(3) [of s4]
    by (auto simp: left_heavy_def avl_load_simp L_DEPTH_def R_DEPTH_def NODE_DEPTH_tree Let_def
        set_left_def set_right_def avl_store_simp)
qed

lemma left_heavy_double:
  assumes t: "tree_at (mem s) p (Node l (p, d) r)" and dist: "distinct (tree_addrs (Node l (p, d) r))"
    and par: "par \<notin> nodes (Node l (p, d) r)"
    and sp: "link_of s par p sp"
    and l: "l = Node ll (ch, dc) lr" and deep: "\<not> dep ll \<ge> dep lr"
  shows "\<exists>s' p'. left_heavy sp p s = Ret s' \<and> tree_at (mem s') p' (rot_right l p r) \<and>
    moved (nodes (Node l (p, d) r)) par p s s' p'"
proof -
  let ?A = "nodes (Node l (p, d) r)"
  obtain a where a: "mem s p = Some a" "p \<noteq> 0" "tree_at (mem s) (n_left a) l" "tree_at (mem s) (n_right a) r"
    using t by (auto split: option.splits)
  obtain c where c: "n_left a = ch" "mem s ch = Some c" "ch \<noteq> 0" "tree_at (mem s) (n_left c) ll"
      "tree_at (mem s) (n_right c) lr"
    using a l by (auto split: option.splits)
  obtain gl gc dg gr where lr: "lr = Node gl (gc, dg) gr"
    using deep by (rule deeper_Node)
  obtain g where g: "n_right c = gc" "mem s gc = Some g" "gc \<noteq> 0" "tree_at (mem s) (n_left g) gl"
      "tree_at (mem s) (n_right g) gr"
    using c lr by (auto split: option.splits)
  let ?a1 = "a\<lparr>n_left := n_right g\<rparr>" and ?c1 = "c\<lparr>n_right := n_left g\<rparr>"
    and ?g1 = "g\<lparr>n_right := p, n_left := ch\<rparr>"
  let ?s1 = "s\<lparr>mem := (mem s)(p \<mapsto> ?a1, ch \<mapsto> ?c1, gc \<mapsto> ?g1)\<rparr>"
  obtain s2 where s2: "set_link sp gc ?s1 = Ret s2" "\<And>x. x \<in> ?A \<Longrightarrow> mem s2 x = mem ?s1 x"
    "\<And>s3. (\<And>x. x \<notin> ?A \<Longrightarrow> mem s3 x = mem s2 x) \<Longrightarrow> head s3 = head s2 \<Longrightarrow> moved ?A par p s s3 gc"
    using l lr by (auto intro: link_frame [OF sp par, of ?s1 gc])
  have at2: "tree_at (mem s2) (n_right g) gr" "tree_at (mem s2) (n_right a) r" "tree_at (mem s2) (n_left c) ll"
      "tree_at (mem s2) (n_left g) gl"
    using a c g s2(2) dist l lr by (auto elim!: tree_at_frame)
  obtain s3 where s3: "calc_depth p s2 = Ret s3" "tree_at (mem s3) p (node gr p r)" "head s3 = head s2"
      "\<And>x. x \<noteq> p \<Longrightarrow> mem s3 x = mem s2 x"
    using calc_node [of s2 p ?a1 gr r] at2 s2(2) [of p] a(2) dist l lr by auto
  have at3: "tree_at (mem s3) (n_left c) ll" "tree_at (mem s3) (n_left g) gl"
    using tree_at_other [OF at2(3) s3(4)] tree_at_other [OF at2(4) s3(4)] dist l lr by auto
  obtain s4 where s4: "calc_depth ch s3 = Ret s4" "tree_at (mem s4) ch (node ll ch gl)"
      "head s4 = head s3" "\<And>x. x \<noteq> ch \<Longrightarrow> mem s4 x = mem s3 x"
    using calc_node [of s3 ch ?c1 ll gl] at3 s3(4) [of ch] s2(2) [of ch] c(3) dist l lr by auto
  have at4: "tree_at (mem s4) p (node gr p r)"
    using tree_at_other [OF s3(2) s4(4)] dist l lr by (auto simp: node_def)
  obtain s5 where s5: "calc_depth gc s4 = Ret s5" "tree_at (mem s5) gc (node (node ll ch gl) gc (node gr p r))"
      "head s5 = head s4" "\<And>x. x \<noteq> gc \<Longrightarrow> mem s5 x = mem s4 x"
    using calc_node [of s4 gc ?g1 "node ll ch gl" "node gr p r"] at4 s4(2) s4(4) [of gc] s3(4) [of gc]
      s2(2) [of gc] g(3) dist l lr
    by (auto simp: node_def)
  show ?thesis
    using NODE_DEPTH_tree [OF c(5)] deep a c g l lr dist s2(1) s3 s4 s5 s2(3) [of s5]
    by (auto simp: left_heavy_def avl_load_simp L_DEPTH_def R_DEPTH_def NODE_DEPTH_tree Let_def
        set_left_def set_right_def avl_store_simp)
qed

lemma left_heavy_tree:
  assumes t: "tree_at (mem s) p (Node l (p, d) r)" and dist: "distinct (tree_addrs (Node l (p, d) r))"
    and par: "par \<notin> nodes (Node l (p, d) r)"
    and heavy: "uint (dep l) > uint (dep r) + 1"
    and sp: "link_of s par p sp"
  shows "\<exists>s' p'. left_heavy sp p s = Ret s' \<and> tree_at (mem s') p' (rot_right l p r) \<and>
    moved (nodes (Node l (p, d) r)) par p s s' p'"
proof -
  obtain ll ch dc lr where l: "l = Node ll (ch, dc) lr"
    using heavy by (rule heavy_Node)
  show ?thesis
    using left_heavy_single [OF t dist par sp l] left_heavy_double [OF t dist par sp l] by blast
qed

lemma right_heavy_single:
  assumes t: "tree_at (mem s) p (Node l (p, d) r)" and dist: "distinct (tree_addrs (Node l (p, d) r))"
    and par: "par \<notin> nodes (Node l (p, d) r)"
    and sp: "link_of s par p sp"
    and r: "r = Node rl (ch, dc) rr" and deep: "dep rr \<ge> dep rl"
  shows "\<exists>s' p'. right_heavy sp p s = Ret s' \<and> tree_at (mem s') p' (rot_left l p r) \<and>
    moved (nodes (Node l (p, d) r)) par p s s' p'"
proof -
  let ?A = "nodes (Node l (p, d) r)"
  obtain a where a: "mem s p = Some a" "p \<noteq> 0" "tree_at (mem s) (n_left a) l" "tree_at (mem s) (n_right a) r"
    using t by (auto split: option.splits)
  obtain c where c: "n_right a = ch" "mem s ch = Some c" "ch \<noteq> 0" "tree_at (mem s) (n_left c) rl"
      "tree_at (mem s) (n_right c) rr"
    using a r by (auto split: option.splits)
  let ?s1 = "s\<lparr>mem := (mem s)(p \<mapsto> a\<lparr>n_right := n_left c\<rparr>, ch \<mapsto> c\<lparr>n_left := p\<rparr>)\<rparr>"
  obtain s2 where s2: "set_link sp ch ?s1 = Ret s2" "\<And>x. x \<in> ?A \<Longrightarrow> mem s2 x = mem ?s1 x"
    "\<And>s3. (\<And>x. x \<notin> ?A \<Longrightarrow> mem s3 x = mem s2 x) \<Longrightarrow> head s3 = head s2 \<Longrightarrow> moved ?A par p s s3 ch"
    using r by (auto intro: link_frame [OF sp par, of ?s1 ch])
  have at2: "tree_at (mem s2) (n_left c) rl" "tree_at (mem s2) (n_left a) l" "tree_at (mem s2) (n_right c) rr"
    using a c s2(2) dist r by (auto elim!: tree_at_frame)
  obtain s3 where s3: "calc_depth p s2 = Ret s3" "tree_at (mem s3) p (node l p rl)" "head s3 = head s2"
      "\<And>x. x \<noteq> p \<Longrightarrow> mem s3 x = mem s2 x"
    using calc_node [of s2 p "a\<lparr>n_right := n_left c\<rparr>" l rl] at2 s2(2) [of p] a(2) dist r by auto
  have at3: "tree_at (mem s3) (n_right c) rr"
    using tree_at_other [OF at2(3) s3(4)] dist r by auto
  obtain s4 where s4: "calc_depth ch s3 = Ret s4" "tree_at (mem s4) ch (node (node l p rl) ch rr)"
      "head s4 = head s3" "\<And>x. x \<noteq> ch \<Longrightarrow> mem s4 x = mem s3 x"
    using calc_node [of s3 ch "c\<lparr>n_left := p\<rparr>" "node l p rl" rr] at3 s3(2) s3(4) [of ch] s2(2) [of ch] c(3) dist r
    by (auto simp: node_def)
  show ?thesis
    using deep a c r dist s2(1) s3 s4 s2(3) [of s4]
    by (auto simp: right_heavy_def avl_load_simp L_DEPTH_def R_DEPTH_def NODE_DEPTH_tree Let_def
        set_left_def set_right_def avl_store_simp)
qed

lemma right_heavy_double:
  assumes t: "tree_at (mem s) p (Node l (p, d) r)" and dist: "distinct (tree_addrs (Node l (p, d) r))"
    and par: "par \<notin> nodes (Node l (p, d) r)"
    and sp: "link_of s par p sp"
    and r: "r = Node rl (ch, dc) rr" and deep: "\<not> dep rr \<ge> dep rl"
  shows "\<exists>s' p'. right_heavy sp p s = Ret s' \<and> tree_at (mem s') p' (rot_left l p r) \<and>
    moved (nodes (Node l (p, d) r)) par p s s' p'"
proof -
  let ?A = "nodes (Node l (p, d) r)"
  obtain a where a: "mem s p = Some a" "p \<noteq> 0" "tree_at (mem s) (n_left a) l" "tree_at (mem s) (n_right a) r"
    using t by (auto split: option.splits)
  obtain c where c: "n_right a = ch" "mem s ch = Some c" "ch \<noteq> 0" "tree_at (mem s) (n_left c) rl"
      "tree_at (mem s) (n_right c) rr"
    using a r by (auto split: option.splits)
  obtain gl gc dg gr where rl: "rl = Node gl (gc, dg) gr"
    using deep by (rule deeper_Node)
  obtain g where g: "n_left c = gc" "mem s gc = Some g" "gc \<noteq> 0" "tree_at (mem s) (n_left g) gl"
      "tree_at (mem s) (n_right g) gr"
    using c rl by (auto split: option.splits)
  let ?a1 = "a\<lparr>n_right := n_left g\<rparr>" and ?c1 = "c\<lparr>n_left := n_right g\<rparr>"
    and ?g1 = "g\<lparr>n_left := p, n_right := ch\<rparr>"
  let ?s1 = "s\<lparr>mem := (mem s)(p \<mapsto> ?a1, ch \<mapsto> ?c1, gc \<mapsto> ?g1)\<rparr>"
  obtain s2 where s2: "set_link sp gc ?s1 = Ret s2" "\<And>x. x \<in> ?A \<Longrightarrow> mem s2 x = mem ?s1 x"
    "\<And>s3. (\<And>x. x \<notin> ?A \<Longrightarrow> mem s3 x = mem s2 x) \<Longrightarrow> head s3 = head s2 \<Longrightarrow> moved ?A par p s s3 gc"
    using r rl by (auto intro: link_frame [OF sp par, of ?s1 gc])
  have at2: "tree_at (mem s2) (n_right g) gr" "tree_at (mem s2) (n_left a) l" "tree_at (mem s2) (n_right c) rr"
      "tree_at (mem s2) (n_left g) gl"
    using a c g s2(2) dist r rl by (auto elim!: tree_at_frame)
  obtain s3 where s3: "calc_depth p s2 = Ret s3" "tree_at (mem s3) p (node l p gl)" "head s3 = head s2"
      "\<And>x. x \<noteq> p \<Longrightarrow> mem s3 x = mem s2 x"
    using calc_node [of s2 p ?a1 l gl] at2 s2(2) [of p] a(2) dist r rl by auto
  have at3: "tree_at (mem s3) (n_right c) rr" "tree_at (mem s3) (n_right g) gr"
    using tree_at_other [OF at2(3) s3(4)] tree_at_other [OF at2(1) s3(4)] dist r rl by auto
  obtain s4 where s4: "calc_depth ch s3 = Ret s4" "tree_at (mem s4) ch (node gr ch rr)"
      "head s4 = head s3" "\<And>x. x \<noteq> ch \<Longrightarrow> mem s4 x = mem s3 x"
    using calc_node [of s3 ch ?c1 gr rr] at3 s3(4) [of ch] s2(2) [of ch] c(3) dist r rl by auto
  have at4: "tree_at (mem s4) p (node l p gl)"
    using tree_at_other [OF s3(2) s4(4)] dist r rl by (auto simp: node_def)
  obtain s5 where s5: "calc_depth gc s4 = Ret s5" "tree_at (mem s5) gc (node (node l p gl) gc (node gr ch rr))"
      "head s5 = head s4" "\<And>x. x \<noteq> gc \<Longrightarrow> mem s5 x = mem s4 x"
    using calc_node [of s4 gc ?g1 "node l p gl" "node gr ch rr"] at4 s4(2) s4(4) [of gc] s3(4) [of gc]
      s2(2) [of gc] g(3) dist r rl
    by (auto simp: node_def)
  show ?thesis
    using NODE_DEPTH_tree [OF c(4)] deep a c g r rl dist s2(1) s3 s4 s5 s2(3) [of s5]
    by (auto simp: right_heavy_def avl_load_simp L_DEPTH_def R_DEPTH_def NODE_DEPTH_tree Let_def
        set_left_def set_right_def avl_store_simp)
qed

lemma right_heavy_tree:
  assumes t: "tree_at (mem s) p (Node l (p, d) r)" and dist: "distinct (tree_addrs (Node l (p, d) r))"
    and par: "par \<notin> nodes (Node l (p, d) r)"
    and heavy: "uint (dep r) > uint (dep l) + 1"
    and sp: "link_of s par p sp"
  shows "\<exists>s' p'. right_heavy sp p s = Ret s' \<and> tree_at (mem s') p' (rot_left l p r) \<and>
    moved (nodes (Node l (p, d) r)) par p s s' p'"
proof -
  obtain rl ch dc rr where r: "r = Node rl (ch, dc) rr"
    using heavy by (rule heavy_Node)
  show ?thesis
    using right_heavy_single [OF t dist par sp r] right_heavy_double [OF t dist par sp r] by blast
qed

end
