(* ===== verification/Binary_Tree_Props.thy ===== *)
theory Binary_Tree_Props
  imports Binary_Tree
begin

text \<open>
  What the routines of \<open>libbintree.c\<close> do. The rebalancing of a subtree in memory computes the
  reference function \<open>rebal\<close> and moves the one link that leads to the subtree; an insertion computes
  \<open>ins\<close>; both reach no null pointer and end when the fuel exceeds the height of the tree. On top of
  that the nodes in order are a sorted list, an insertion is an insertion in it, a lookup finds a key
  exactly when it is there, and a traversal visits the list. The depths that a rebalancing records are
  the heights, but since nothing above the changed node is visited the tree is not balanced: keys
  inserted in ascending order make a list.
\<close>

section \<open>Rebalancing\<close>

lemma addrs_node [simp]: "tree_addrs (node l a r) = tree_addrs l @ a # tree_addrs r"
  by (simp add: node_def)

lemma addrs_rot_right: "l \<noteq> Leaf \<Longrightarrow> tree_addrs (rot_right l a r) = tree_addrs l @ a # tree_addrs r"
proof (induction l a r rule: rot_right.induct)
  case (1 ll c d lr a r)
  then show ?case by (cases lr rule: dep.cases) auto
qed simp

lemma addrs_rot_left: "r \<noteq> Leaf \<Longrightarrow> tree_addrs (rot_left l a r) = tree_addrs l @ a # tree_addrs r"
proof (induction l a r rule: rot_left.induct)
  case (1 l a rl c d rr)
  then show ?case by (cases rl rule: dep.cases) auto
qed simp

lemma heavy_not_Leaf: "uint (dep t) > uint (dep u) + 1 \<Longrightarrow> t \<noteq> Leaf"
  by (erule heavy_Node) simp

lemma addrs_balance [simp]: "tree_addrs (balance l a r) = tree_addrs l @ a # tree_addrs r"
  by (simp add: balance_def addrs_rot_right addrs_rot_left heavy_not_Leaf)

lemma addrs_rebal [simp]: "tree_addrs (rebal t) = tree_addrs t"
  by (induction t rule: rebal.induct) auto

lemma balance_node_tree:
  assumes t: "tree_at (mem s) p (Node l (p, d) r)" and dist: "distinct (tree_addrs (Node l (p, d) r))"
    and par: "par \<notin> nodes (Node l (p, d) r)" and li: "linked s par p"
  shows "\<exists>s' p'. balance_node p par s = Ret s' \<and> tree_at (mem s') p' (balance l p r) \<and>
    moved (nodes (Node l (p, d) r)) par p s s' p'"
proof -
  obtain n where n: "mem s p = Some n" "p \<noteq> 0" "tree_at (mem s) (n_left n) l" "tree_at (mem s) (n_right n) r"
    using t by (auto split: option.splits)
  obtain sp where sp: "superparent s p par = Ret sp" "link_of s par p sp"
    using li by (rule superparent_link)
  note chk = avl_check_balance_tree [OF n]
  consider "uint (dep l) > uint (dep r) + 1" | "uint (dep r) > uint (dep l) + 1"
    | "\<not> uint (dep l) > uint (dep r) + 1" "\<not> uint (dep r) > uint (dep l) + 1" by blast
  then show ?thesis
  proof cases
    case 1
    then show ?thesis
      using left_heavy_tree [OF t dist par 1 sp(2)] sp(1) chk by (simp add: balance_node_def balance_def)
  next
    case 2
    then show ?thesis
      using right_heavy_tree [OF t dist par 2 sp(2)] sp(1) chk by (simp add: balance_node_def balance_def)
  next
    case 3
    obtain s' where s': "calc_depth p s = Ret s'" "tree_at (mem s') p (node l p r)" "head s' = head s"
        "\<And>x. x \<noteq> p \<Longrightarrow> mem s' x = mem s x"
      using calc_node [OF n] dist by auto
    have "moved (nodes (Node l (p, d) r)) par p s s' p"
      using li par s' by (intro moved_stay) auto
    then show ?thesis
      using 3 s' sp(1) chk by (auto simp: balance_node_def balance_def)
  qed
qed

lemma avl_rebalance_tree:
  "tree_at (mem s) p t \<Longrightarrow> t \<noteq> Leaf \<Longrightarrow> distinct (tree_addrs t) \<Longrightarrow> par \<notin> nodes t \<Longrightarrow> linked s par p \<Longrightarrow> height t \<le> fuel \<Longrightarrow>
    \<exists>s' p'. avl_rebalance fuel p par s = Ret s' \<and> tree_at (mem s') p' (rebal t) \<and> moved (nodes t) par p s s' p'"
proof (induction t arbitrary: s p par fuel rule: rebal.induct)
  case (2 l a d r)
  obtain n where n: "p = a" "a \<noteq> 0" "mem s a = Some n" "n_depth n = d" "tree_at (mem s) (n_left n) l"
      "tree_at (mem s) (n_right n) r"
    using 2(3) by (auto split: option.splits)
  obtain f where f: "fuel = Suc f" "height l \<le> f" "height r \<le> f"
    using 2(8) by (cases fuel) auto
  obtain s1 pl where s1: "(if n_left n \<noteq> 0 then avl_rebalance f (n_left n) a s else Ret s) = Ret s1"
      "tree_at (mem s1) pl (rebal l)" "mem s1 a = Some (n\<lparr>n_left := pl\<rparr>)" "head s1 = head s"
      "\<And>x. x \<notin> nodes l \<Longrightarrow> x \<noteq> a \<Longrightarrow> mem s1 x = mem s x"
  proof (cases "n_left n = 0")
    case True
    then show thesis using that [of s 0] n by auto
  next
    case False
    then have "l \<noteq> Leaf" using n by auto
    then show thesis
      using False 2(1) [of s "n_left n" a f] that n 2(5) f
      by (auto simp: linked_def moved_def relink_def)
  qed
  have r1: "tree_at (mem s1) (n_right n) r"
    using n(6) by (rule tree_at_frame) (use s1(5) 2(5) in auto)
  have neq: "n_right n \<noteq> 0 \<Longrightarrow> pl \<noteq> n_right n"
    using tree_at_in_nodes [OF s1(2)] tree_at_in_nodes [OF r1] 2(5) by auto
  obtain s2 pr where s2: "(if n_right n \<noteq> 0 then avl_rebalance f (n_right n) a s1 else Ret s1) = Ret s2"
      "tree_at (mem s2) pr (rebal r)" "mem s2 a = Some (n\<lparr>n_left := pl, n_right := pr\<rparr>)" "head s2 = head s"
      "\<And>x. x \<notin> nodes r \<Longrightarrow> x \<noteq> a \<Longrightarrow> mem s2 x = mem s1 x"
  proof (cases "n_right n = 0")
    case True
    then show thesis using that [of s1 0] n s1 r1 by auto
  next
    case False
    then have "r \<noteq> Leaf" using n by auto
    then show thesis
      using False 2(2) [of s1 "n_right n" a f] that n r1 s1(3,4) 2(5) f neq [OF False]
      by (auto simp: linked_def moved_def relink_def)
  qed
  have l2: "tree_at (mem s2) pl (rebal l)"
    using s1(2) by (rule tree_at_frame) (use s2(5) 2(5) in auto)
  have out: "mem s2 x = mem s x" if "x \<notin> nodes (Node l (a, d) r)" for x
    using that s1(5) s2(5) by simp
  have "linked s2 par a"
    using 2(7) out [OF 2(6)] s2(4) n(1) by (simp add: linked_def)
  then obtain s3 p3 where s3: "balance_node a par s2 = Ret s3" "tree_at (mem s3) p3 (balance (rebal l) a (rebal r))"
      "moved (nodes (Node l (a, d) r)) par a s2 s3 p3"
    using balance_node_tree [of s2 a "rebal l" d "rebal r" par] l2 s2(2,3) n(2,4) 2(5,6) by auto
  have "moved (nodes (Node l (a, d) r)) par p s s3 p3"
    using s3(3) out [of par] out 2(6) s2(4) n(1) by (auto simp: moved_def)
  then show ?case
    using s3 s1(1,3) s2(1) n f by (auto simp: avl_load_simp)
qed simp

section \<open>Insertion\<close>

text \<open>The search meets a node that the compare routine calls equal.\<close>

fun found :: "(u64 \<Rightarrow> int) \<Rightarrow> dtree \<Rightarrow> bool" where
  "found c Leaf = False"
| "found c (Node l (a, d) r) = (if c a < 0 then found c l else if c a > 0 then found c r else True)"

definition insert_side :: "int \<Rightarrow> nat \<Rightarrow> u64 \<Rightarrow> u64 \<Rightarrow> u64 \<Rightarrow> bintree \<Rightarrow> (int \<times> bintree) outcome" where
  "insert_side c = (if c = - 1 then avl_insert_before else avl_insert_after)"

text \<open>What a search below \<open>p\<close> and the insertion at the node it ends at make of the subtree \<open>t\<close>.\<close>

definition inserted ::
    "(u64 \<Rightarrow> u64 \<Rightarrow> u64 \<Rightarrow> int) \<Rightarrow> u64 \<Rightarrow> u64 \<Rightarrow> nat \<Rightarrow> nat \<Rightarrow> u64 \<Rightarrow> u16 \<Rightarrow> bintree \<Rightarrow> u64 \<Rightarrow> u64 \<Rightarrow> dtree \<Rightarrow> bool" where
  "inserted cmp item ud fuel big x dx s p par t \<longleftrightarrow>
     (\<exists>c nd q s' p'. search_loop cmp item ud fuel s p par = Ret (c, nd, q) \<and> c \<in> {- 1, 1} \<and>
       insert_side c big nd q x s = Ret (LIB_NORMAL, s') \<and>
       tree_at (mem s') p' (ins (\<lambda>a. cmp item a ud) x dx t) \<and> moved (insert x (nodes t)) par p s s' p')"

text \<open>A node ready to be inserted: cleared links, and nowhere in the tree.\<close>

definition fresh_node :: "bintree \<Rightarrow> u64 \<Rightarrow> u16 \<Rightarrow> bool" where
  "fresh_node s x dx \<longleftrightarrow> x \<noteq> 0 \<and> (\<exists>n. mem s x = Some n \<and> n_left n = 0 \<and> n_right n = 0 \<and> n_depth n = dx)"

lemma fresh_tree: "fresh_node s x dx \<longleftrightarrow> tree_at (mem s) x (Node Leaf (x, dx) Leaf)"
  by (auto simp: fresh_node_def split: option.splits)

lemma rebalance_after_store:
  assumes t: "tree_at (mem s1) p t" "t \<noteq> Leaf" "distinct (tree_addrs t)" "par \<notin> nodes t" "height t \<le> big"
    and li: "linked s par p" and same: "\<And>a. a \<notin> nodes t \<Longrightarrow> mem s1 a = mem s a" "head s1 = head s"
  shows "\<exists>s' p'. avl_rebalance big p par s1 = Ret s' \<and> tree_at (mem s') p' (rebal t) \<and> moved (nodes t) par p s s' p'"
proof -
  have "linked s1 par p"
    using li same(1) [OF t(4)] same(2) by (simp add: linked_def)
  then obtain s' p' where "avl_rebalance big p par s1 = Ret s'" "tree_at (mem s') p' (rebal t)"
      "moved (nodes t) par p s1 s' p'"
    using avl_rebalance_tree [OF t(1-4) _ t(5)] by blast
  moreover have "moved (nodes t) par p s s' p'"
    using calculation(3) same t(4) by (simp add: moved_def)
  ultimately show ?thesis by blast
qed

lemma insert_left_leaf:
  assumes "tree_at (mem s) p (Node Leaf (p, d) r)" "fresh_node s x dx" "distinct (tree_addrs r)" "p \<notin> nodes r"
    and "x \<notin> insert p (nodes r)" "par \<notin> insert x (insert p (nodes r))" "linked s par p" "height r < big" "1 < big"
  shows "\<exists>s' p'. avl_insert_before big p par x s = Ret (LIB_NORMAL, s') \<and>
    tree_at (mem s') p' (rebal (Node (Node Leaf (x, dx) Leaf) (p, d) r)) \<and>
    moved (insert x (insert p (nodes r))) par p s s' p'"
proof -
  let ?t = "Node (Node Leaf (x, dx) Leaf) (p, d) r"
  obtain n where n: "mem s p = Some n" "p \<noteq> 0" "n_depth n = d" "tree_at (mem s) (n_right n) r"
    using assms(1) by (auto split: option.splits)
  let ?s1 = "s\<lparr>mem := (mem s)(p \<mapsto> n\<lparr>n_left := x\<rparr>)\<rparr>"
  have "tree_at (mem ?s1) p ?t"
    using n assms by (auto simp: fresh_node_def)
  from rebalance_after_store [OF this, of par big s] show ?thesis
    using assms n by (auto simp: avl_insert_before_def set_left_def avl_store_simp)
qed

lemma insert_right_leaf:
  assumes "tree_at (mem s) p (Node l (p, d) Leaf)" "fresh_node s x dx" "distinct (tree_addrs l)" "p \<notin> nodes l"
    and "x \<notin> insert p (nodes l)" "par \<notin> insert x (insert p (nodes l))" "linked s par p" "height l < big" "1 < big"
  shows "\<exists>s' p'. avl_insert_after big p par x s = Ret (LIB_NORMAL, s') \<and>
    tree_at (mem s') p' (rebal (Node l (p, d) (Node Leaf (x, dx) Leaf))) \<and>
    moved (insert x (insert p (nodes l))) par p s s' p'"
proof -
  let ?t = "Node l (p, d) (Node Leaf (x, dx) Leaf)"
  obtain n where n: "mem s p = Some n" "p \<noteq> 0" "n_depth n = d" "tree_at (mem s) (n_left n) l"
    using assms(1) by (auto split: option.splits)
  let ?s1 = "s\<lparr>mem := (mem s)(p \<mapsto> n\<lparr>n_right := x\<rparr>)\<rparr>"
  have *: "tree_at (mem ?s1) p ?t"
    using n assms by (auto simp: fresh_node_def)
  have "insert p (insert x (nodes l)) = insert x (insert p (nodes l))" by blast
  then show ?thesis
    using rebalance_after_store [OF *, of par big s] assms n
    by (auto simp: avl_insert_after_def set_right_def avl_store_simp)
qed

lemma moved_below_left:
  assumes "moved A a (n_left n) s s' p'" "a \<noteq> 0" "mem s a = Some n"
    and "tree_at (mem s') p' l'" "tree_at (mem s) (n_right n) r" "A \<inter> nodes r = {}" "a \<notin> nodes r"
    and "linked s par a" "par \<notin> insert a (A \<union> nodes r)"
  shows "tree_at (mem s') a (Node l' (a, n_depth n) r) \<and> moved (insert a (A \<union> nodes r)) par a s s' a"
proof -
  have n': "mem s' a = Some (n\<lparr>n_left := p'\<rparr>)" "head s' = head s"
      and out: "\<And>x. x \<notin> A \<Longrightarrow> x \<noteq> a \<Longrightarrow> mem s' x = mem s x"
    using assms(1-3) by (auto simp: moved_def relink_def)
  have "tree_at (mem s') (n_right n) r"
    using assms(5) by (rule tree_at_frame) (use assms(6,7) out in auto)
  moreover have "moved (insert a (A \<union> nodes r)) par a s s' a"
    using assms(8,9) out n' by (intro moved_stay) auto
  ultimately show ?thesis using assms(2,4) n' by auto
qed

lemma moved_below_right:
  assumes "moved A a (n_right n) s s' p'" "a \<noteq> 0" "mem s a = Some n" "n_left n \<noteq> n_right n"
    and "tree_at (mem s') p' r'" "tree_at (mem s) (n_left n) l" "A \<inter> nodes l = {}" "a \<notin> nodes l"
    and "linked s par a" "par \<notin> insert a (A \<union> nodes l)"
  shows "tree_at (mem s') a (Node l (a, n_depth n) r') \<and> moved (insert a (A \<union> nodes l)) par a s s' a"
proof -
  have n': "mem s' a = Some (n\<lparr>n_right := p'\<rparr>)" "head s' = head s"
      and out: "\<And>x. x \<notin> A \<Longrightarrow> x \<noteq> a \<Longrightarrow> mem s' x = mem s x"
    using assms(1-4) by (auto simp: moved_def relink_def)
  have "tree_at (mem s') (n_left n) l"
    using assms(6) by (rule tree_at_frame) (use assms(7,8) out in auto)
  moreover have "moved (insert a (A \<union> nodes l)) par a s s' a"
    using assms(9,10) out n' by (intro moved_stay) auto
  ultimately show ?thesis using assms(2,5) n' by auto
qed

lemma inserted_left:
  assumes "inserted cmp item ud f big x dx s (n_left n) a l" "cmp item a ud < 0" "l \<noteq> Leaf"
    and n: "mem s a = Some n" "a \<noteq> 0" "n_left n \<noteq> 0" "tree_at (mem s) (n_right n) r"
    and out: "x \<notin> nodes r" "a \<notin> nodes r" "nodes l \<inter> nodes r = {}" "linked s par a"
      "par \<notin> insert x (insert a (nodes l \<union> nodes r))"
  shows "inserted cmp item ud (Suc f) big x dx s a par (Node l (a, n_depth n) r)"
proof -
  obtain c nd q s' p' where i: "search_loop cmp item ud f s (n_left n) a = Ret (c, nd, q)" "c \<in> {- 1, 1}"
      "insert_side c big nd q x s = Ret (LIB_NORMAL, s')" "tree_at (mem s') p' (ins (\<lambda>a. cmp item a ud) x dx l)"
      and mv: "moved (insert x (nodes l)) a (n_left n) s s' p'"
    using assms(1) unfolding inserted_def by blast
  have "insert a (insert x (nodes l) \<union> nodes r) = insert x (nodes (Node l (a, n_depth n) r))" by auto
  then show ?thesis
    using moved_below_left [OF mv n(2,1) i(4) n(4)] i assms(2,3) n out by (auto simp: inserted_def avl_load_simp)
qed

lemma inserted_right:
  assumes "inserted cmp item ud f big x dx s (n_right n) a r" "cmp item a ud > 0" "r \<noteq> Leaf"
    and n: "mem s a = Some n" "a \<noteq> 0" "n_right n \<noteq> 0" "n_left n \<noteq> n_right n" "tree_at (mem s) (n_left n) l"
    and out: "x \<notin> nodes l" "a \<notin> nodes l" "nodes l \<inter> nodes r = {}" "linked s par a"
      "par \<notin> insert x (insert a (nodes l \<union> nodes r))"
  shows "inserted cmp item ud (Suc f) big x dx s a par (Node l (a, n_depth n) r)"
proof -
  obtain c nd q s' p' where i: "search_loop cmp item ud f s (n_right n) a = Ret (c, nd, q)" "c \<in> {- 1, 1}"
      "insert_side c big nd q x s = Ret (LIB_NORMAL, s')" "tree_at (mem s') p' (ins (\<lambda>a. cmp item a ud) x dx r)"
      and mv: "moved (insert x (nodes r)) a (n_right n) s s' p'"
    using assms(1) unfolding inserted_def by blast
  have "insert a (insert x (nodes r) \<union> nodes l) = insert x (nodes (Node l (a, n_depth n) r))" by auto
  then show ?thesis
    using moved_below_right [OF mv n(2,1,4) i(4) n(5)] i assms(2,3) n out by (auto simp: inserted_def avl_load_simp)
qed

lemma inserted_tree:
  assumes "fresh_node s x dx"
  shows "tree_at (mem s) p t \<Longrightarrow> t \<noteq> Leaf \<Longrightarrow> distinct (tree_addrs t) \<Longrightarrow> x \<notin> nodes t \<Longrightarrow> par \<notin> insert x (nodes t) \<Longrightarrow>
    linked s par p \<Longrightarrow> height t \<le> fuel \<Longrightarrow> height t < big \<Longrightarrow>
    (if found (\<lambda>a. cmp item a ud) t then \<exists>nd q. search_loop cmp item ud fuel s p par = Ret (0, nd, q)
     else inserted cmp item ud fuel big x dx s p par t)"
proof (induction t arbitrary: p par fuel rule: rebal.induct)
  case (2 l a d r)
  obtain n where n: "p = a" "a \<noteq> 0" "mem s a = Some n" "n_depth n = d" "tree_at (mem s) (n_left n) l"
      "tree_at (mem s) (n_right n) r"
    using 2(3) by (auto split: option.splits)
  obtain f where f: "fuel = Suc f" "height l \<le> f" "height r \<le> f"
    using 2(9) by (cases fuel) auto
  note ld = avl_load_simp [OF n(3,2)]
  consider "cmp item a ud < 0" "l = Leaf" | "cmp item a ud > 0" "r = Leaf"
    | "cmp item a ud < 0" "l \<noteq> Leaf" | "cmp item a ud > 0" "r \<noteq> Leaf" | "cmp item a ud = 0"
    by linarith
  then show ?case
  proof cases
    case 1
    then show ?thesis
      using insert_left_leaf [of s a d r x dx par big] 2(3-) assms n f ld
      by (auto simp: inserted_def insert_side_def)
  next
    case 2
    then show ?thesis
      using insert_right_leaf [of s a l d x dx par big] "2.prems" assms n f ld
      by (auto simp: inserted_def insert_side_def)
  next
    case 3
    then have nl: "n_left n \<noteq> 0" using n by auto
    then have "linked s a (n_left n)" using n by (simp add: linked_def)
    then have IH: "if found (\<lambda>a. cmp item a ud) l then \<exists>nd q. search_loop cmp item ud f s (n_left n) a = Ret (0, nd, q)
        else inserted cmp item ud f big x dx s (n_left n) a l"
      using "2.IH"(1) [of "n_left n" a f] "2.prems" 3 n f by auto
    show ?thesis
      using IH 3 n f ld nl "2.prems" inserted_left [of cmp item ud f big x dx s n a l r par]
      by (auto split: if_splits)
  next
    case 4
    then have nr: "n_right n \<noteq> 0" using n by auto
    then have "linked s a (n_right n)" using n by (simp add: linked_def)
    then have IH: "if found (\<lambda>a. cmp item a ud) r then \<exists>nd q. search_loop cmp item ud f s (n_right n) a = Ret (0, nd, q)
        else inserted cmp item ud f big x dx s (n_right n) a r"
      using "2.IH"(2) [of "n_right n" a f] "2.prems" 4 n f by auto
    have "n_left n \<noteq> n_right n"
      using nr tree_at_in_nodes [OF n(5)] tree_at_in_nodes [OF n(6)] "2.prems"(3) by auto
    then show ?thesis
      using IH 4 n f ld nr "2.prems" inserted_right [of cmp item ud f big x dx s n a r l par]
      by (auto split: if_splits)
  next
    case 5
    then show ?thesis
      using f n by auto
  qed
qed simp

text \<open>The first node of a tree is recorded with depth 0, every other leaf gets 1 when it is rebalanced.\<close>

definition ins_tree :: "(u64 \<Rightarrow> int) \<Rightarrow> u64 \<Rightarrow> u16 \<Rightarrow> dtree \<Rightarrow> dtree" where
  "ins_tree c x dx t = (if t = Leaf then Node Leaf (x, 0) Leaf else ins c x dx t)"

lemma avl_insert_top_tree:
  assumes "head s = 0" "fresh_node s x dx"
  shows "\<exists>s'. avl_insert_node cmp fuel x ud s = Ret (LIB_NORMAL, s') \<and>
    tree_at (mem s') (head s') (Node Leaf (x, 0) Leaf) \<and> (\<forall>a. a \<noteq> x \<longrightarrow> mem s' a = mem s a)"
  using assms
  by (auto simp: avl_insert_node_def avl_insert_top_def fresh_node_def set_depth_def set_left_def set_right_def
      avl_store_def avl_load_def)

lemma avl_insert_node_tree:
  assumes t: "tree_at (mem s) (head s) t" "distinct (tree_addrs t)" and x: "fresh_node s x dx" "x \<notin> nodes t"
    and fuel: "height t < fuel"
  shows "if found (\<lambda>a. cmp (item_addr x) a ud) t then avl_insert_node cmp fuel x ud s = Ret (LIB_KEYALRINS, s)
    else \<exists>s'. avl_insert_node cmp fuel x ud s = Ret (LIB_NORMAL, s') \<and>
      tree_at (mem s') (head s') (ins_tree (\<lambda>a. cmp (item_addr x) a ud) x dx t) \<and>
      (\<forall>a. a \<notin> insert x (nodes t) \<longrightarrow> mem s' a = mem s a)"
proof (cases "t = Leaf")
  case True
  then show ?thesis
    using t avl_insert_top_tree [OF _ x(1)] by (simp add: ins_tree_def)
next
  case False
  then have h: "head s \<noteq> 0" using t(1) by auto
  have "0 \<notin> insert x (nodes t)"
    using tree_at_not_0 [OF t(1)] x(1) by (auto simp: fresh_node_def)
  then have srch: "if found (\<lambda>a. cmp (item_addr x) a ud) t
      then \<exists>nd q. search_loop cmp (item_addr x) ud fuel s (head s) 0 = Ret (0, nd, q)
      else inserted cmp (item_addr x) ud fuel fuel x dx s (head s) 0 t"
    using inserted_tree [OF x(1) t(1) False t(2) x(2), of 0 fuel fuel cmp "item_addr x" ud] fuel
    by (simp add: linked_def)
  show ?thesis
  proof (cases "found (\<lambda>a. cmp (item_addr x) a ud) t")
    case True
    then show ?thesis
      using srch h by (auto simp: avl_insert_node_def avl_search_closest_def simp del: bindo_eq_Ret_iff)
  next
    case False
    then obtain c nd q s' p' where "search_loop cmp (item_addr x) ud fuel s (head s) 0 = Ret (c, nd, q)" "c \<in> {- 1, 1}"
      "insert_side c fuel nd q x s = Ret (LIB_NORMAL, s')" "moved (insert x (nodes t)) 0 (head s) s s' p'"
      "tree_at (mem s') p' (ins (\<lambda>a. cmp (item_addr x) a ud) x dx t)"
      using srch by (auto simp: inserted_def)
    then show ?thesis
      using h False \<open>t \<noteq> Leaf\<close>
      by (auto simp: avl_insert_node_def avl_search_closest_def insert_side_def moved_def ins_tree_def
          simp del: bindo_eq_Ret_iff)
  qed
qed

section \<open>Order\<close>

text \<open>
  The compare routine orders items and nodes by keys: \<open>ik\<close> is the key of an item, \<open>nk\<close> that of a
  node.
\<close>

definition orders_by :: "(u64 \<Rightarrow> u64 \<Rightarrow> u64 \<Rightarrow> int) \<Rightarrow> u64 \<Rightarrow> (u64 \<Rightarrow> 'k :: linorder) \<Rightarrow> (u64 \<Rightarrow> 'k) \<Rightarrow> bool" where
  "orders_by cmp ud ik nk \<longleftrightarrow>
     (\<forall>i a. (cmp i a ud < 0 \<longleftrightarrow> ik i < nk a) \<and> (cmp i a ud > 0 \<longleftrightarrow> ik i > nk a))"

abbreviation keys_sorted :: "(u64 \<Rightarrow> 'k :: linorder) \<Rightarrow> u64 list \<Rightarrow> bool" where
  "keys_sorted nk xs \<equiv> sorted_wrt (<) (map nk xs)"

text \<open>The abstract tree: its nodes in order.\<close>

definition tree_nodes :: "bintree \<Rightarrow> u64 list \<Rightarrow> bool" where
  "tree_nodes s xs \<longleftrightarrow> (\<exists>t. tree_at (mem s) (head s) t \<and> tree_addrs t = xs) \<and> distinct xs"

lemma height_le_length: "height t \<le> length (tree_addrs t)"
  by (induction t rule: tree_addrs.induct) auto

lemma insort_before: "nk x \<le> nk a \<Longrightarrow> insort_key nk x (xs @ a # ys) = insort_key nk x xs @ a # ys"
  by (induction xs) auto

lemma insort_behind: "\<forall>y \<in> set xs. nk y < nk x \<Longrightarrow> nk a < nk x \<Longrightarrow>
    insort_key nk x (xs @ a # ys) = xs @ a # insort_key nk x ys"
  by (induction xs) (auto simp: not_le)

lemma found_iff:
  assumes "\<And>a. (c a < 0 \<longleftrightarrow> k < nk a) \<and> (c a > 0 \<longleftrightarrow> k > nk a)"
  shows "keys_sorted nk (tree_addrs t) \<Longrightarrow> found c t \<longleftrightarrow> k \<in> nk ` nodes t"
proof (induction t rule: tree_addrs.induct)
  case (2 l a d r)
  then show ?case
    using assms [of a] by (fastforce simp: sorted_wrt_append)
qed simp

lemma addrs_ins:
  assumes "\<And>a. (c a < 0 \<longleftrightarrow> nk x < nk a) \<and> (c a > 0 \<longleftrightarrow> nk x > nk a)"
  shows "keys_sorted nk (tree_addrs t) \<Longrightarrow> \<not> found c t \<Longrightarrow> tree_addrs (ins c x dx t) = insort_key nk x (tree_addrs t)"
proof (induction t rule: tree_addrs.induct)
  case (2 l a d r)
  consider "c a < 0" "nk x < nk a" | "c a > 0" "nk x > nk a"
    using assms [of a] 2(4) by fastforce
  then show ?case
  proof cases
    case 1
    then show ?thesis
      using "2.prems" "2.IH" by (auto simp: insort_before sorted_wrt_append)
  next
    case 2
    moreover have "\<forall>y \<in> nodes l. nk y < nk x"
      using "2.prems"(1) 2(2) by (auto simp: sorted_wrt_append)
    ultimately show ?thesis
      using "2.prems" "2.IH" by (auto simp: insort_behind sorted_wrt_append)
  qed
qed simp

lemma keys_insort:
  assumes "keys_sorted nk xs" "nk x \<notin> nk ` set xs"
  shows "keys_sorted nk (insort_key nk x xs)"
  using assms by (induction xs) (auto simp: set_insort_key not_le)

lemma distinct_insort_nodes: "distinct xs \<Longrightarrow> x \<notin> set xs \<Longrightarrow> distinct (insort_key nk x xs)"
  by (induction xs) (auto simp: set_insort_key)

text \<open>
  What the library needs of the allocation procedure: a node of its own with cleared links, the nodes
  of the tree untouched.
\<close>

definition allocates ::
    "('sym \<Rightarrow> u64 \<Rightarrow> node_mem \<Rightarrow> int \<times> node_mem \<times> u64) \<Rightarrow> 'sym \<Rightarrow> u64 \<Rightarrow> node_mem \<Rightarrow> u64 list \<Rightarrow> node_mem \<Rightarrow> u64 \<Rightarrow> bool"
  where
  "allocates alloc symbol ud m xs m' x \<longleftrightarrow>
     (case alloc symbol ud m of (sts, m1, x1) \<Rightarrow> odd sts \<and> m1 = m' \<and> x1 = x) \<and> x \<noteq> 0 \<and> x \<notin> set xs \<and>
     (case m' x of None \<Rightarrow> False | Some n \<Rightarrow> n_left n = 0 \<and> n_right n = 0) \<and> (\<forall>a \<in> set xs. m' a = m a)"

lemma found_keys:
  assumes "orders_by cmp ud ik nk" "keys_sorted nk (tree_addrs t)"
  shows "found (\<lambda>a. cmp i a ud) t \<longleftrightarrow> ik i \<in> nk ` nodes t"
  using assms by (intro found_iff) (auto simp: orders_by_def)

lemma insert_tree_nodes:
  assumes tn: "tree_nodes s xs" and keys: "keys_sorted nk xs" "orders_by cmp ud ik nk" "ik (item_addr x) = nk x"
    and al: "allocates alloc symbol ud (mem s) xs m x" and fuel: "length xs < fuel"
  shows "if nk x \<in> nk ` set xs then lib_insert_tree cmp alloc fuel symbol ud s = Ret (LIB_KEYALRINS, x, s\<lparr>mem := m\<rparr>)
    else \<exists>s'. lib_insert_tree cmp alloc fuel symbol ud s = Ret (LIB_NORMAL, x, s') \<and>
      tree_nodes s' (insort_key nk x xs) \<and> keys_sorted nk (insort_key nk x xs) \<and>
      (\<forall>a. a \<notin> insert x (set xs) \<longrightarrow> mem s' a = m a)"
proof -
  obtain t where t: "tree_at (mem s) (head s) t" "tree_addrs t = xs" "distinct xs"
    using tn by (auto simp: tree_nodes_def)
  obtain sts n where al': "alloc symbol ud (mem s) = (sts, m, x)" "odd sts" "x \<noteq> 0" "x \<notin> set xs"
      "m x = Some n" "n_left n = 0" "n_right n = 0" "\<forall>a \<in> set xs. m a = mem s a"
    using al by (auto simp: allocates_def split: prod.splits option.splits)
  let ?s = "s\<lparr>mem := m\<rparr>" and ?c = "\<lambda>a. cmp (item_addr x) a ud"
  have t1: "tree_at (mem ?s) (head ?s) t"
    using tree_at_frame [OF t(1), of m] al'(8) t(2) by simp
  have fr: "fresh_node ?s x (n_depth n)"
    using al' by (simp add: fresh_node_def)
  have fd: "found ?c t \<longleftrightarrow> nk x \<in> nk ` set xs"
    using found_keys [OF keys(2), of t] keys t by simp
  have "tree_addrs (ins_tree ?c x (n_depth n) t) = insort_key nk x xs" if "\<not> found ?c t"
    using addrs_ins [of ?c nk x t "n_depth n"] that keys t by (auto simp: orders_by_def ins_tree_def)
  then show ?thesis
    using avl_insert_node_tree [OF t1 _ fr, of fuel cmp ud] fd fuel height_le_length [of t] t al' keys
      keys_insort [of nk xs x] distinct_insort_nodes [of xs x nk]
    by (auto simp: lib_insert_tree_def tree_nodes_def simp del: bindo_eq_Ret_iff split: if_splits)
qed

section \<open>Lookup and traversal\<close>

lemma search_loop_tree:
  "tree_at (mem s) p t \<Longrightarrow> t \<noteq> Leaf \<Longrightarrow> height t \<le> fuel \<Longrightarrow>
    \<exists>c nd q. search_loop cmp i ud fuel s p par = Ret (c, nd, q) \<and> nd \<in> nodes t \<and>
      (c = 0 \<longleftrightarrow> found (\<lambda>a. cmp i a ud) t) \<and> (c = 0 \<longrightarrow> cmp i nd ud = 0)"
proof (induction t arbitrary: p par fuel rule: tree_addrs.induct)
  case (2 l a d r)
  obtain n where n: "p = a" "a \<noteq> 0" "mem s a = Some n" "tree_at (mem s) (n_left n) l" "tree_at (mem s) (n_right n) r"
    using 2(3) by (auto split: option.splits)
  obtain f where f: "fuel = Suc f" "height l \<le> f" "height r \<le> f"
    using 2(5) by (cases fuel) auto
  note ld = avl_load_simp [OF n(3,2)]
  consider "cmp i a ud < 0" | "cmp i a ud > 0" | "cmp i a ud = 0" by linarith
  then show ?case
  proof cases
    case 1
    then show ?thesis
      using "2.IH"(1) [OF n(4) _ f(2), of a] n f ld by (cases "l = Leaf") force+
  next
    case 2
    then show ?thesis
      using "2.IH"(2) [OF n(5) _ f(3), of a] n f ld by (cases "r = Leaf") force+
  next
    case 3
    then show ?thesis using n f by auto
  qed
qed simp

lemma lookup_nodes:
  assumes tn: "tree_nodes s xs" "xs \<noteq> []" and keys: "keys_sorted nk xs" "orders_by cmp 0 ik nk"
    and fuel: "length xs \<le> fuel"
  shows "\<exists>nd \<in> set xs. lib_lookup_tree cmp fuel s symbol =
    Ret (if ik (ucast symbol) \<in> nk ` set xs then LIB_NORMAL else LIB_KEYNOTFOU, nd) \<and>
    (ik (ucast symbol) \<in> nk ` set xs \<longrightarrow> nk nd = ik (ucast symbol))"
proof -
  obtain t where t: "tree_at (mem s) (head s) t" "tree_addrs t = xs"
    using tn by (auto simp: tree_nodes_def)
  have "t \<noteq> Leaf" using t(2) tn(2) by auto
  moreover have "head s \<noteq> 0" using t(1) calculation by auto
  moreover have "cmp i nd 0 = 0 \<Longrightarrow> nk nd = ik i" for i nd
    using keys(2) by (metis (full_types) orders_by_def less_irrefl linorder_less_linear)
  ultimately show ?thesis
    using search_loop_tree [OF t(1), of fuel cmp "ucast symbol" 0 0] found_keys [OF keys(2), of t "ucast symbol"]
      fuel height_le_length [of t] t(2) keys(1)
    by (fastforce simp: lib_lookup_tree_def avl_search_closest_def)
qed

text \<open>The action on the nodes in order, until one returns an even status.\<close>

fun visit :: "(u64 \<Rightarrow> u64 \<Rightarrow> 'u \<Rightarrow> int \<times> 'u) \<Rightarrow> u64 \<Rightarrow> u64 list \<Rightarrow> 'u \<Rightarrow> int \<times> 'u" where
  "visit act ud [] u = (LIB_NORMAL, u)"
| "visit act ud (x # xs) u = (let (sts, u) = act x ud u in if even sts then (sts, u) else visit act ud xs u)"

lemma visit_append: "visit act ud (xs @ ys) u =
    (let (sts, u) = visit act ud xs u in if even sts then (sts, u) else visit act ud ys u)"
  by (induction xs arbitrary: u) (auto simp: LIB_NORMAL_def split: prod.splits)

lemma traverse_tree_visit:
  "tree_at (mem s) p t \<Longrightarrow> height t < fuel \<Longrightarrow> traverse_tree act ud s fuel p u = Ret (visit act ud (tree_addrs t) u)"
proof (induction t arbitrary: p fuel u rule: tree_addrs.induct)
  case 1
  then show ?case by (cases fuel) auto
next
  case (2 l a d r)
  obtain n where n: "p = a" "a \<noteq> 0" "mem s a = Some n" "tree_at (mem s) (n_left n) l" "tree_at (mem s) (n_right n) r"
    using 2(3) by (auto split: option.splits)
  obtain f where f: "fuel = Suc f" "height l < f" "height r < f"
    using 2(4) by (cases fuel) auto
  show ?case
    using n f "2.IH"(1) [OF n(4) f(2)] "2.IH"(2) [OF n(5) f(3)]
    by (auto simp: avl_load_simp visit_append Let_def simp del: bindo_eq_Ret_iff split: prod.splits)
qed

section \<open>What is written\<close>

text \<open>The items of the nodes, which the library never reads or writes.\<close>

definition items :: "bintree \<Rightarrow> u64 \<rightharpoonup> u64" where
  "items s a = map_option n_item (mem s a)"

lemma items_store: "avl_store f p s = Ret s' \<Longrightarrow> (\<And>n. n_item (f n) = n_item n) \<Longrightarrow> items s' = items s"
  by (auto simp: avl_store_def avl_load_def items_def fun_eq_iff split: option.splits if_splits)

lemma items_head [simp]: "items (s\<lparr>head := v\<rparr>) = items s"
  by (simp add: items_def fun_eq_iff)

lemma items_set:
  "set_left p v s = Ret s' \<Longrightarrow> items s' = items s"
  "set_right p v s = Ret s' \<Longrightarrow> items s' = items s"
  "set_depth p d s = Ret s' \<Longrightarrow> items s' = items s"
  unfolding set_left_def set_right_def set_depth_def by (erule items_store, simp)+

lemma items_link: "set_link sp v s = Ret s' \<Longrightarrow> items s' = items s"
  by (auto simp: set_link_def items_set split: link.splits)

lemma items_calc: "calc_depth p s = Ret s' \<Longrightarrow> items s' = items s"
  by (auto simp: calc_depth_def items_set)

lemma items_heavy:
  "left_heavy sp p s = Ret s' \<Longrightarrow> items s' = items s"
  "right_heavy sp p s = Ret s' \<Longrightarrow> items s' = items s"
  by (auto simp: left_heavy_def right_heavy_def Let_def dest!: items_calc items_set items_link split: if_splits)

lemma items_balance: "balance_node p par s = Ret s' \<Longrightarrow> items s' = items s"
  by (auto simp: balance_node_def dest!: items_calc items_heavy split: if_splits)

lemma items_rebalance: "avl_rebalance fuel p par s = Ret s' \<Longrightarrow> items s' = items s"
proof (induction fuel arbitrary: p par s s')
  case (Suc fuel)
  then show ?case by (fastforce dest!: items_balance split: if_splits)
qed simp

lemma items_insert: "avl_insert_node cmp fuel x ud s = Ret (sts, s') \<Longrightarrow> items s' = items s"
  by (auto simp: avl_insert_node_def avl_insert_top_def avl_insert_before_def avl_insert_after_def
      dest!: items_rebalance items_set split: if_splits)

section \<open>Shape\<close>

text \<open>The depths a rebalancing records are the heights of the subtrees, as 16-bit numbers.\<close>

fun depths_ok :: "dtree \<Rightarrow> bool" where
  "depths_ok Leaf = True"
| "depths_ok (Node l (a, d) r) = (d = of_nat (height (Node l (a, d) r)) \<and> depths_ok l \<and> depths_ok r)"

lemma dep_of_height: "depths_ok t \<Longrightarrow> dep t = of_nat (height t)"
  by (cases t rule: dep.cases) auto

lemma dep_height: "depths_ok t \<Longrightarrow> height t < 65536 \<Longrightarrow> unat (dep t) = height t"
  by (simp add: dep_of_height unat_of_nat)

lemma depths_node:
  assumes "depths_ok l" "depths_ok r" "height l < 65536" "height r < 65536"
  shows "depths_ok (node l a r)"
proof -
  have "max (dep l) (dep r) = of_nat (max (height l) (height r))"
    using assms dep_height [of l] dep_height [of r]
    by (simp add: max_def word_le_nat_alt dep_of_height)
  then show ?thesis using assms by (simp add: node_def)
qed

lemma height_node [simp]: "height (node l a r) = Suc (max (height l) (height r))"
  by (simp add: node_def)

lemma dep_le_iff:
  "depths_ok t \<Longrightarrow> depths_ok u \<Longrightarrow> height t < 65536 \<Longrightarrow> height u < 65536 \<Longrightarrow> dep t \<le> dep u \<longleftrightarrow> height t \<le> height u"
  by (simp add: word_le_nat_alt dep_height)

lemma dep_heavy_iff:
  "depths_ok t \<Longrightarrow> depths_ok u \<Longrightarrow> height t < 65536 \<Longrightarrow> height u < 65536 \<Longrightarrow>
    uint (dep t) > uint (dep u) + 1 \<longleftrightarrow> height t > height u + 1"
  using dep_height [of t] dep_height [of u] by (simp add: uint_nat) linarith

lemma rot_right_shape:
  assumes "depths_ok l" "depths_ok r" "height l < 65535" "height r < 65535" "height l > height r + 1"
  shows "depths_ok (rot_right l a r) \<and> height (rot_right l a r) \<le> Suc (height l)"
proof (cases l rule: dep.cases)
  case (2 ll c d lr)
  then have le: "dep lr \<le> dep ll \<longleftrightarrow> height lr \<le> height ll"
    using assms by (intro dep_le_iff) auto
  show ?thesis
  proof (cases lr rule: dep.cases)
    case 1
    then show ?thesis using assms 2 le by (auto intro!: depths_node)
  next
    case (2 gl g dg gr)
    then show ?thesis using assms \<open>l = _\<close> le by (auto intro!: depths_node)
  qed
qed (use assms in simp)

lemma rot_left_shape:
  assumes "depths_ok l" "depths_ok r" "height l < 65535" "height r < 65535" "height r > height l + 1"
  shows "depths_ok (rot_left l a r) \<and> height (rot_left l a r) \<le> Suc (height r)"
proof (cases r rule: dep.cases)
  case (2 rl c d rr)
  then have le: "dep rl \<le> dep rr \<longleftrightarrow> height rl \<le> height rr"
    using assms by (intro dep_le_iff) auto
  show ?thesis
  proof (cases rl rule: dep.cases)
    case 1
    then show ?thesis using assms 2 le by (auto intro!: depths_node)
  next
    case (2 gl g dg gr)
    then show ?thesis using assms \<open>r = _\<close> le by (auto intro!: depths_node)
  qed
qed (use assms in simp)

lemma rebal_shape: "height t < 65536 \<Longrightarrow> depths_ok (rebal t) \<and> height (rebal t) \<le> height t"
proof (induction t rule: rebal.induct)
  case (2 l a d r)
  then have h: "depths_ok (rebal l)" "depths_ok (rebal r)" "height (rebal l) \<le> height l" "height (rebal r) \<le> height r"
      "height (rebal l) < 65535" "height (rebal r) < 65535"
    by auto
  show ?case
    using h rot_right_shape [of "rebal l" "rebal r" a] rot_left_shape [of "rebal l" "rebal r" a]
      dep_heavy_iff [of "rebal l" "rebal r"] dep_heavy_iff [of "rebal r" "rebal l"] depths_node [of "rebal l" "rebal r" a]
    by (auto simp: balance_def max_def)
qed simp

text \<open>Trees without left children.\<close>

fun right_spine :: "dtree \<Rightarrow> bool" where
  "right_spine Leaf = True"
| "right_spine (Node l (a, d) r) = (l = Leaf \<and> right_spine r)"

lemma right_spine_height: "right_spine t \<Longrightarrow> height t = length (tree_addrs t)"
  by (induction t rule: right_spine.induct) auto

lemma right_spine_ins:
  "right_spine t \<Longrightarrow> (\<And>a. a \<in> nodes t \<Longrightarrow> c a > 0) \<Longrightarrow> right_spine (ins c x dx t) \<and> tree_addrs (ins c x dx t) = tree_addrs t @ [x]"
proof (induction t rule: right_spine.induct)
  case (2 l a d r)
  then have ca: "(c a < 0) = False" "(c a > 0) = True" by (force, simp)
  show ?case using 2 by (simp add: balance_def node_def max_def ca)
qed simp

lemma right_spine_not_found: "(\<And>a. a \<in> nodes t \<Longrightarrow> c a > 0) \<Longrightarrow> \<not> found c t"
proof (induction t rule: right_spine.induct)
  case (2 l a d r)
  then have ca: "(c a < 0) = False" "(c a > 0) = True" by (force, simp)
  show ?case using 2 by (simp add: ca)
qed simp

text \<open>Insertion of nodes that are already allocated, one after the other.\<close>

fun insert_nodes :: "(u64 \<Rightarrow> u64 \<Rightarrow> u64 \<Rightarrow> int) \<Rightarrow> nat \<Rightarrow> u64 \<Rightarrow> u64 list \<Rightarrow> bintree \<Rightarrow> bintree outcome" where
  "insert_nodes cmp fuel ud [] s = Ret s"
| "insert_nodes cmp fuel ud (x # xs) s =
     bindo (avl_insert_node cmp fuel x ud s) (\<lambda>(sts, s). insert_nodes cmp fuel ud xs s)"

lemma insert_nodes_spine:
  "tree_at (mem s) (head s) t \<Longrightarrow> right_spine t \<Longrightarrow> distinct (tree_addrs t @ xs) \<Longrightarrow> (\<And>x. x \<in> set xs \<Longrightarrow> \<exists>d. fresh_node s x d) \<Longrightarrow>
    keys_sorted nk (tree_addrs t @ xs) \<Longrightarrow> orders_by cmp ud ik nk \<Longrightarrow> (\<And>x. x \<in> set xs \<Longrightarrow> ik (item_addr x) = nk x) \<Longrightarrow>
    length (tree_addrs t) + length xs \<le> fuel \<Longrightarrow>
    \<exists>s' t'. insert_nodes cmp fuel ud xs s = Ret s' \<and> tree_at (mem s') (head s') t' \<and> right_spine t' \<and> tree_addrs t' = tree_addrs t @ xs"
proof (induction xs arbitrary: s t)
  case (Cons x xs)
  obtain dx where fr: "fresh_node s x dx" using Cons.prems(4) by auto
  let ?c = "\<lambda>a. cmp (item_addr x) a ud"
  have pos: "\<And>a. a \<in> nodes t \<Longrightarrow> ?c a > 0"
    using Cons.prems(5,6,7) by (auto simp: orders_by_def sorted_wrt_append)
  have sp: "right_spine (ins_tree ?c x dx t) \<and> tree_addrs (ins_tree ?c x dx t) = tree_addrs t @ [x]"
    using right_spine_ins [OF Cons.prems(2) pos] by (auto simp: ins_tree_def)
  obtain s1 where s1: "avl_insert_node cmp fuel x ud s = Ret (LIB_NORMAL, s1)"
      "tree_at (mem s1) (head s1) (ins_tree ?c x dx t)" "\<forall>a. a \<notin> insert x (nodes t) \<longrightarrow> mem s1 a = mem s a"
    using avl_insert_node_tree [OF Cons.prems(1) _ fr, of fuel cmp ud] right_spine_not_found [OF pos]
      right_spine_height [OF Cons.prems(2)] Cons.prems(3,8) by auto
  have "\<exists>s' t'. insert_nodes cmp fuel ud xs s1 = Ret s' \<and> tree_at (mem s') (head s') t' \<and> right_spine t' \<and>
      tree_addrs t' = tree_addrs (ins_tree ?c x dx t) @ xs"
  proof (rule Cons.IH [OF s1(2)])
    show "\<exists>d. fresh_node s1 y d" if "y \<in> set xs" for y
      using Cons.prems(3) Cons.prems(4) [of y] s1(3) that by (auto simp: fresh_node_def)
  qed (use sp Cons.prems in auto)
  then show ?case using s1(1) sp by auto
qed auto

section \<open>Properties\<close>

text \<open>A tree of two nodes and routines of a user for it: a node is its own key.\<close>

definition two_nodes :: bintree where
  "two_nodes = \<lparr>mem = [0x1000 \<mapsto> \<lparr>n_left = 0, n_right = 0x2000, n_depth = 2, n_item = 0\<rparr>,
                       0x2000 \<mapsto> \<lparr>n_left = 0, n_right = 0, n_depth = 1, n_item = 0\<rparr>], head = 0x1000\<rparr>"

definition by_address :: "u64 \<Rightarrow> u64 \<Rightarrow> u64 \<Rightarrow> int" where
  "by_address i a ud = uint (i - 24) - uint a"

definition alloc_at :: "u64 \<Rightarrow> u64 \<Rightarrow> node_mem \<Rightarrow> int \<times> node_mem \<times> u64" where
  "alloc_at symbol ud m = (1, m(symbol \<mapsto> \<lparr>n_left = 0, n_right = 0, n_depth = 0, n_item = 0\<rparr>), symbol)"

lemma by_address_orders: "orders_by by_address ud (\<lambda>i. uint (i - 24)) uint"
  by (auto simp: orders_by_def by_address_def)

lemma two_nodes_tree: "tree_at (mem two_nodes) (head two_nodes) (Node Leaf (0x1000, 2) (Node Leaf (0x2000, 1) Leaf))"
  by (simp add: two_nodes_def)

lemma two_nodes_list: "tree_nodes two_nodes [0x1000, 0x2000]"
  unfolding tree_nodes_def by (rule conjI, rule exI, rule conjI, rule two_nodes_tree) simp_all

text \<open>C13: \<open>lib$insert_tree\<close> keeps the nodes of the tree in the order of their keys. When the compare
  routine orders by keys and the allocation procedure returns a node of its own with cleared links, a
  new key is linked in: the call returns \<open>LIB$_NORMAL\<close> and the nodes in order are those before with
  the new one at its place. A key that is already there gives \<open>LIB$_KEYALRINS\<close> and leaves the tree
  alone. Either way the call returns and follows no null pointer once the fuel exceeds the number of
  nodes.
\<close>

theorem insert_keeps_order:
  assumes "tree_nodes s xs" "keys_sorted nk xs" "orders_by cmp ud ik nk" "ik (item_addr x) = nk x"
    and "allocates alloc symbol ud (mem s) xs m x" "length xs < fuel"
  shows "if nk x \<in> nk ` set xs then lib_insert_tree cmp alloc fuel symbol ud s = Ret (LIB_KEYALRINS, x, s\<lparr>mem := m\<rparr>)
    else \<exists>s'. lib_insert_tree cmp alloc fuel symbol ud s = Ret (LIB_NORMAL, x, s') \<and>
      tree_nodes s' (insort_key nk x xs) \<and> keys_sorted nk (insort_key nk x xs) \<and>
      (\<forall>a. a \<notin> insert x (set xs) \<longrightarrow> mem s' a = m a)"
  using assms by (rule insert_tree_nodes)

theorem insert_keeps_order_witness:
  "\<exists>s'. lib_insert_tree by_address alloc_at 3 0x1800 0 two_nodes = Ret (LIB_NORMAL, 0x1800, s') \<and>
     tree_nodes s' [0x1000, 0x1800, 0x2000]"
proof -
  have "allocates alloc_at 0x1800 0 (mem two_nodes) [0x1000, 0x2000] (fst (snd (alloc_at 0x1800 0 (mem two_nodes)))) 0x1800"
    by (simp add: allocates_def alloc_at_def)
  from insert_keeps_order [OF two_nodes_list _ by_address_orders [of 0] _ this, of 3] show ?thesis
    by (auto simp: item_addr_def)
qed

text \<open>C14: What \<open>lib$insert_tree\<close> linked in, \<open>lib$lookup_tree\<close> finds: after the insertion of a new key a
  lookup returns \<open>LIB$_NORMAL\<close> and a node of the tree with the key it was asked for when there is one,
  the new node for its own key, and \<open>LIB$_KEYNOTFOU\<close> for every key that is not in the tree.
\<close>

theorem insert_then_lookup:
  assumes "tree_nodes s xs" "keys_sorted nk xs" "orders_by cmp ud ik nk" "orders_by cmp 0 ik nk" "ik (item_addr x) = nk x"
    and "allocates alloc symbol ud (mem s) xs m x" "length xs < fuel" "nk x \<notin> nk ` set xs"
  shows "\<exists>s'. lib_insert_tree cmp alloc fuel symbol ud s = Ret (LIB_NORMAL, x, s') \<and>
    (if ik (ucast key) \<in> nk ` insert x (set xs)
     then \<exists>nd \<in> insert x (set xs). nk nd = ik (ucast key) \<and> lib_lookup_tree cmp fuel s' key = Ret (LIB_NORMAL, nd)
     else \<exists>nd. lib_lookup_tree cmp fuel s' key = Ret (LIB_KEYNOTFOU, nd))"
proof -
  obtain s' where s': "lib_insert_tree cmp alloc fuel symbol ud s = Ret (LIB_NORMAL, x, s')"
      "tree_nodes s' (insort_key nk x xs)" "keys_sorted nk (insort_key nk x xs)"
    using insert_tree_nodes [OF assms(1-3,5-7)] assms(8) by auto
  then show ?thesis
    using lookup_nodes [OF s'(2) _ s'(3) assms(4), of fuel key] assms(7)
    by (auto simp: set_insort_key split: if_splits)
qed

theorem insert_then_lookup_witness:
  "\<exists>s'. lib_insert_tree by_address alloc_at 3 0x1800 0 two_nodes = Ret (LIB_NORMAL, 0x1800, s') \<and>
     lib_lookup_tree by_address 3 s' 0x1818 = Ret (LIB_NORMAL, 0x1800)"
proof -
  have "allocates alloc_at 0x1800 0 (mem two_nodes) [0x1000, 0x2000] (fst (snd (alloc_at 0x1800 0 (mem two_nodes)))) 0x1800"
    by (simp add: allocates_def alloc_at_def)
  from insert_then_lookup [OF two_nodes_list _ by_address_orders [of 0] by_address_orders _ this, of 3 "0x1818"]
  show ?thesis
    by (auto simp: item_addr_def)
qed

text \<open>
  \<open>lib$traverse_tree\<close> calls the action procedure on the nodes in the order of the tree and stops at
  the first one that returns an even status, which it passes on; without one it returns
  \<open>LIB$_NORMAL\<close>.
\<close>

theorem traverse_in_order:
  assumes "tree_nodes s xs" "length xs < fuel"
  shows "lib_traverse_tree act ud fuel s u = Ret (visit act ud xs u)"
proof -
  obtain t where "tree_at (mem s) (head s) t" "tree_addrs t = xs"
    using assms(1) by (auto simp: tree_nodes_def)
  then show ?thesis
    using traverse_tree_visit [of s "head s" t fuel act ud u] height_le_length [of t] assms(2)
    by (simp add: lib_traverse_tree_def)
qed

theorem traverse_in_order_witness:
  "lib_traverse_tree (\<lambda>p ud u. (if p = 0x2000 then 2 else 1, u @ [p])) 0 3 two_nodes [] = Ret (2, [0x1000, 0x2000])"
  using traverse_in_order [OF two_nodes_list, of 3 "\<lambda>p ud u. (if p = 0x2000 then 2 else 1, u @ [p])" 0 "[]"] by simp

text \<open>C37: The rebalancing of a subtree returns, keeps its nodes in order, records the height of every node
  it visits and never makes the subtree higher, for every subtree of fewer than 65536 levels. Outside
  the subtree it changes one link, the one that leads to it.
\<close>

theorem rebalance_subtree:
  assumes "tree_at (mem s) p t" "t \<noteq> Leaf" "distinct (tree_addrs t)" "par \<notin> nodes t" "linked s par p"
    and "height t \<le> fuel" "height t < 65536"
  shows "\<exists>s' p' t'. avl_rebalance fuel p par s = Ret s' \<and> tree_at (mem s') p' t' \<and> tree_addrs t' = tree_addrs t \<and>
    depths_ok t' \<and> height t' \<le> height t \<and> moved (nodes t) par p s s' p'"
  using avl_rebalance_tree [OF assms(1-6)] rebal_shape [OF assms(7)] addrs_rebal by blast

theorem rebalance_subtree_witness:
  "\<exists>s' p' t'. avl_rebalance 2 0x1000 0 two_nodes = Ret s' \<and> tree_at (mem s') p' t' \<and> tree_addrs t' = [0x1000, 0x2000]"
  using rebalance_subtree [OF two_nodes_tree, of 0 2] by (auto simp: linked_def two_nodes_def)

text \<open>C38: The tree is not balanced. Only the subtree of the node that gets the new leaf is rebalanced, so
  keys inserted in ascending order make a list: after the insertions the height of the tree is the
  number of its nodes, where the comment promises the logarithm.
\<close>

theorem ascending_makes_list:
  assumes "head s = 0" "distinct xs" "\<forall>x \<in> set xs. \<exists>d. fresh_node s x d" "keys_sorted nk xs"
    and "orders_by cmp ud ik nk" "\<forall>x \<in> set xs. ik (item_addr x) = nk x" "length xs \<le> fuel"
  shows "\<exists>s' t. insert_nodes cmp fuel ud xs s = Ret s' \<and> tree_at (mem s') (head s') t \<and> tree_addrs t = xs \<and> height t = length xs"
  using insert_nodes_spine [of s Leaf xs nk cmp ud ik fuel] assms right_spine_height by fastforce

theorem ascending_makes_list_witness:
  "\<exists>s' t. insert_nodes by_address 3 0 [0x10, 0x20, 0x30]
     \<lparr>mem = \<lambda>a. Some \<lparr>n_left = 0, n_right = 0, n_depth = 0, n_item = 0\<rparr>, head = 0\<rparr> = Ret s' \<and>
     tree_at (mem s') (head s') t \<and> height t = 3"
  using ascending_makes_list [of "\<lparr>mem = \<lambda>a. Some \<lparr>n_left = 0, n_right = 0, n_depth = 0, n_item = 0\<rparr>, head = 0\<rparr>"
      "[0x10, 0x20, 0x30]" uint by_address 0 "\<lambda>i. uint (i - 24)" 3]
  by (fastforce simp: fresh_node_def item_addr_def by_address_orders)

text \<open>Smaller facts: the lookup in an empty tree succeeds, the pointer it is given loses its upper
  half, a failed allocation, and the loop that nothing calls never ends below the top.\<close>

lemma lookup_empty: "head s = 0 \<Longrightarrow> lib_lookup_tree cmp fuel s symbol = Ret (LIB_NORMAL, 0)"
  by (simp add: lib_lookup_tree_def avl_search_closest_def)

lemma insert_alloc_fails: "alloc symbol ud (mem s) = (sts, m, x) \<Longrightarrow> even sts \<Longrightarrow>
    lib_insert_tree cmp alloc fuel symbol ud s = Ret (LIB_INSVIRMEM, x, s\<lparr>mem := m\<rparr>)"
  by (simp add: lib_insert_tree_def)

lemma rebalance_not_runs_on: "p \<noteq> 0 \<Longrightarrow> par \<noteq> 0 \<Longrightarrow> avl_rebalance_not fuel p par s \<noteq> Ret s'"
  by (induction fuel arbitrary: p s) auto

text \<open>
  The links of the new node are not cleared below the top: what the allocation left there is taken for
  a child, and the rebalancing follows it.
\<close>

lemma uncleared_links:
  "avl_insert_node by_address 4 0x1800 0
     (two_nodes\<lparr>mem := (mem two_nodes)(0x1800 \<mapsto> \<lparr>n_left = 8, n_right = 0, n_depth = 0, n_item = 0\<rparr>)\<rparr>) = Fault"
  by code_simp

end
