(* ===== verification/Vms_Strings.thy ===== *)
theory Vms_Strings
  imports Prelude
begin

text \<open>
  The string routines of the VMS library for user programs: \<open>userland/rtl/str*.c\<close> and the searches and
  conversions of \<open>userland/rtl/lib*.c\<close>.

  A string is named by a descriptor. The state keeps the descriptors by address, so that a source and a
  destination may be the same one, and the bytes in blocks, so that a pointer is a block and an offset
  and freed memory is gone: reading or writing outside a block, or in a freed one, is a \<open>Fault\<close>. The
  null pointer is offset 0 of block 0. \<open>DOSIGNAL\<close> is an assertion that always fails, so it is a
  \<open>Panic\<close> like the other assertions. Whether the n-th request for memory succeeds is the parameter
  \<open>ok\<close>. \<open>memcpy\<close> reads all its bytes before it writes them; the calls with overlapping operands have
  equal ones.
\<close>

section \<open>Memory and descriptors\<close>

type_synonym cptr = "nat \<times> int"

record sdesc =
  dsc_w_length :: u16
  dsc_b_class :: u8
  dsc_a_pointer :: cptr

record block =
  bk_heap :: bool
  bk_bytes :: "u8 list"

record smem =
  blocks :: "nat \<rightharpoonup> block"
  descs :: "nat \<rightharpoonup> sdesc"
  next_block :: nat

definition NULLP :: cptr where "NULLP = (0, 0)"

definition padd :: "cptr \<Rightarrow> int \<Rightarrow> cptr" where
  "padd p k = (fst p, snd p + k)"

definition DSC_K_CLASS_Z :: u8 where "DSC_K_CLASS_Z = 0"
definition DSC_K_CLASS_S :: u8 where "DSC_K_CLASS_S = 1"
definition DSC_K_CLASS_D :: u8 where "DSC_K_CLASS_D = 2"
definition DSC_K_CLASS_A :: u8 where "DSC_K_CLASS_A = 4"
definition DSC_K_CLASS_SD :: u8 where "DSC_K_CLASS_SD = 9"
definition DSC_K_CLASS_NCA :: u8 where "DSC_K_CLASS_NCA = 10"
definition DSC_K_CLASS_VS :: u8 where "DSC_K_CLASS_VS = 11"

definition STR_NORMAL :: int where "STR_NORMAL = 1"
definition STR_FATINTERR :: int where "STR_FATINTERR = 2392132"
definition STR_ILLSTRCLA :: int where "STR_ILLSTRCLA = 2392148"
definition STR_INSVIRMEM :: int where "STR_INSVIRMEM = 2392172"
definition STR_STRTOOLON :: int where "STR_STRTOOLON = 2392180"
definition STR_TRU :: int where "STR_TRU = 2392576"
definition STR_ILLSTRPOS :: int where "STR_ILLSTRPOS = 2393097"

lemmas str_codes = STR_NORMAL_def STR_FATINTERR_def STR_ILLSTRCLA_def STR_INSVIRMEM_def STR_STRTOOLON_def
  STR_TRU_def STR_ILLSTRPOS_def

lemmas dsc_classes = DSC_K_CLASS_Z_def DSC_K_CLASS_S_def DSC_K_CLASS_D_def DSC_K_CLASS_A_def
  DSC_K_CLASS_SD_def DSC_K_CLASS_NCA_def DSC_K_CLASS_VS_def

text \<open>Reading and writing bytes.\<close>

definition rd :: "smem \<Rightarrow> cptr \<Rightarrow> nat \<Rightarrow> u8 list outcome" where
  "rd s p n =
     (if n = 0 then Ret []
      else case blocks s (fst p) of None \<Rightarrow> Fault
        | Some b \<Rightarrow> if 0 \<le> snd p \<and> nat (snd p) + n \<le> length (bk_bytes b)
            then Ret (take n (drop (nat (snd p)) (bk_bytes b))) else Fault)"

definition wr :: "cptr \<Rightarrow> u8 list \<Rightarrow> smem \<Rightarrow> smem outcome" where
  "wr p xs s =
     (if xs = [] then Ret s
      else case blocks s (fst p) of None \<Rightarrow> Fault
        | Some b \<Rightarrow> if 0 \<le> snd p \<and> nat (snd p) + length xs \<le> length (bk_bytes b)
            then Ret (s\<lparr>blocks := (blocks s)(fst p \<mapsto> b\<lparr>bk_bytes :=
              take (nat (snd p)) (bk_bytes b) @ xs @ drop (nat (snd p) + length xs) (bk_bytes b)\<rparr>)\<rparr>) else Fault)"

definition rd_byte :: "smem \<Rightarrow> cptr \<Rightarrow> int \<Rightarrow> u8 outcome" where
  "rd_byte s p k = bindo (rd s (padd p k) 1) (\<lambda>xs. Ret (hd xs))"

definition memcpy :: "cptr \<Rightarrow> cptr \<Rightarrow> nat \<Rightarrow> smem \<Rightarrow> smem outcome" where
  "memcpy dst src n s = bindo (rd s src n) (\<lambda>xs. wr dst xs s)"

definition calloc :: "(nat \<Rightarrow> bool) \<Rightarrow> nat \<Rightarrow> smem \<Rightarrow> cptr \<times> smem" where
  "calloc ok n s =
     (let k = next_block s; s = s\<lparr>next_block := k + 1\<rparr>
      in if ok k then ((k, 0), s\<lparr>blocks := (blocks s)(k \<mapsto> \<lparr>bk_heap = True, bk_bytes = replicate n 0\<rparr>)\<rparr>)
         else (NULLP, s))"

definition free :: "cptr \<Rightarrow> smem \<Rightarrow> smem outcome" where
  "free p s =
     (if p = NULLP then Ret s
      else case blocks s (fst p) of None \<Rightarrow> Fault
        | Some b \<Rightarrow> if bk_heap b \<and> snd p = 0 then Ret (s\<lparr>blocks := (blocks s)(fst p := None)\<rparr>) else Fault)"

definition get_desc :: "smem \<Rightarrow> nat \<Rightarrow> sdesc outcome" where
  "get_desc s d = (case descs s d of None \<Rightarrow> Fault | Some x \<Rightarrow> if d = 0 then Fault else Ret x)"

definition set_desc :: "nat \<Rightarrow> sdesc \<Rightarrow> smem \<Rightarrow> smem" where
  "set_desc d x s = s\<lparr>descs := (descs s)(d \<mapsto> x)\<rparr>"

section \<open>Descriptors\<close>

definition is_string_class :: "smem \<Rightarrow> nat \<Rightarrow> int outcome" where
  "is_string_class s d =
     (if d = 0 then Ret STR_FATINTERR
      else bindo (get_desc s d) (\<lambda>x.
        Ret (if dsc_b_class x \<in> {DSC_K_CLASS_Z, DSC_K_CLASS_S, DSC_K_CLASS_SD, DSC_K_CLASS_VS, DSC_K_CLASS_D,
               DSC_K_CLASS_A, DSC_K_CLASS_NCA} then STR_NORMAL else STR_ILLSTRCLA)))"

text \<open>
  The length and the address of the text. The length of a varying string is read as one \<open>char\<close>, which
  is signed.
\<close>

definition desc_text :: "smem \<Rightarrow> sdesc \<Rightarrow> (u16 \<times> cptr) outcome" where
  "desc_text s x =
     (if dsc_b_class x = DSC_K_CLASS_VS then
        bindo (rd_byte s (dsc_a_pointer x) 0) (\<lambda>c.
          let len = scast c
          in panic_if (\<not> len \<le> dsc_w_length x) (Ret (len, padd (dsc_a_pointer x) 2)))
      else Ret (dsc_w_length x, dsc_a_pointer x))"

definition str_analyze_sdesc :: "smem \<Rightarrow> nat \<Rightarrow> (u16 \<times> cptr) outcome" where
  "str_analyze_sdesc s d =
     bindo (is_string_class s d) (\<lambda>r. panic_if (r \<noteq> STR_NORMAL)
       (bindo (get_desc s d) (\<lambda>x.
         panic_if (dsc_a_pointer x = NULLP \<and> dsc_w_length x \<noteq> 0) (desc_text s x))))"

definition lib_analyze_sdesc :: "smem \<Rightarrow> nat \<Rightarrow> (u16 \<times> cptr) outcome" where
  "lib_analyze_sdesc s d =
     bindo (is_string_class s d) (\<lambda>r.
       if r \<noteq> STR_NORMAL then Ret (0, NULLP) else bindo (get_desc s d) (desc_text s))"

definition str_get1_dx :: "(nat \<Rightarrow> bool) \<Rightarrow> u16 \<Rightarrow> nat \<Rightarrow> smem \<Rightarrow> (int \<times> smem) outcome" where
  "str_get1_dx ok len d s =
     bindo (get_desc s d) (\<lambda>x. panic_if (dsc_b_class x \<noteq> DSC_K_CLASS_D)
       (if dsc_a_pointer x \<noteq> NULLP then
          if dsc_w_length x \<noteq> len then
            if len = 0 then
              bindo (free (dsc_a_pointer x) s) (\<lambda>s.
                Ret (STR_NORMAL, set_desc d (x\<lparr>dsc_a_pointer := NULLP, dsc_w_length := len\<rparr>) s))
            else
              let (new, s) = calloc ok (unat len) s
              in panic_if (new = NULLP)
                (bindo (memcpy new (dsc_a_pointer x) (min (unat (dsc_w_length x)) (unat len)) s) (\<lambda>s.
                 bindo (free (dsc_a_pointer x) s) (\<lambda>s.
                   Ret (STR_NORMAL, set_desc d (x\<lparr>dsc_a_pointer := new, dsc_w_length := len\<rparr>) s))))
          else Ret (STR_NORMAL, s)
        else
          let (new, s) = (if len \<noteq> 0 then calloc ok (unat len) s else (NULLP, s))
          in panic_if (new = NULLP \<and> len \<noteq> 0)
            (Ret (STR_NORMAL, set_desc d (x\<lparr>dsc_a_pointer := new, dsc_w_length := len\<rparr>) s))))"

definition str_free1_dx :: "nat \<Rightarrow> smem \<Rightarrow> (int \<times> smem) outcome" where
  "str_free1_dx d s =
     bindo (is_string_class s d) (\<lambda>r. panic_if (r \<noteq> STR_NORMAL)
       (bindo (get_desc s d) (\<lambda>x.
         if dsc_a_pointer x = NULLP then Ret (STR_NORMAL, s)
         else bindo (free (dsc_a_pointer x) s) (\<lambda>s.
           Ret (STR_NORMAL, set_desc d (x\<lparr>dsc_a_pointer := NULLP, dsc_w_length := 0\<rparr>) s)))))"

definition str_resize :: "(nat \<Rightarrow> bool) \<Rightarrow> nat \<Rightarrow> u16 \<Rightarrow> smem \<Rightarrow> (int \<times> smem) outcome" where
  "str_resize ok d sz s =
     bindo (get_desc s d) (\<lambda>x.
       if dsc_b_class x \<in> {DSC_K_CLASS_Z, DSC_K_CLASS_S, DSC_K_CLASS_SD, DSC_K_CLASS_A, DSC_K_CLASS_NCA} then
         panic_if (dsc_a_pointer x = NULLP) (Ret (STR_NORMAL, s))
       else if dsc_b_class x = DSC_K_CLASS_D then str_get1_dx ok sz d s
       else if dsc_b_class x = DSC_K_CLASS_VS then
         panic_if (dsc_a_pointer x = NULLP)
           (let resize = min (dsc_w_length x) sz
            in bindo (wr (dsc_a_pointer x) [ucast resize, ucast (drop_bit 8 resize)] s) (\<lambda>s. Ret (STR_NORMAL, s)))
       else Panic)"

definition copy_fill :: "cptr \<Rightarrow> u16 \<Rightarrow> cptr \<Rightarrow> u16 \<Rightarrow> u8 \<Rightarrow> smem \<Rightarrow> (int \<times> smem) outcome" where
  "copy_fill dst dlen src slen fill s =
     (let max_copy = min dlen slen
      in bindo (if src \<noteq> NULLP then memcpy dst src (unat max_copy) s else Ret s) (\<lambda>s.
         bindo (wr (padd dst (uint max_copy)) (replicate (unat dlen - unat max_copy) fill) s) (\<lambda>s.
           Ret (if slen > dlen then STR_TRU else STR_NORMAL, s))))"

definition str_copy_r :: "(nat \<Rightarrow> bool) \<Rightarrow> nat \<Rightarrow> u16 \<Rightarrow> cptr \<Rightarrow> smem \<Rightarrow> (int \<times> smem) outcome" where
  "str_copy_r ok d len src s =
     (let s2_length = if src \<noteq> NULLP then len else 0
      in bindo (is_string_class s d) (\<lambda>r. panic_if (r \<noteq> STR_NORMAL)
        (bindo (str_resize ok d len s) (\<lambda>(result, s).
           if result = STR_NORMAL then
             bindo (str_analyze_sdesc s d) (\<lambda>(s1_length, s1_ptr). copy_fill s1_ptr s1_length src s2_length 32 s)
           else Ret (result, s)))))"

definition str_copy_dx :: "(nat \<Rightarrow> bool) \<Rightarrow> nat \<Rightarrow> nat \<Rightarrow> smem \<Rightarrow> (int \<times> smem) outcome" where
  "str_copy_dx ok d src s = bindo (str_analyze_sdesc s src) (\<lambda>(len, p). str_copy_r ok d len p s)"

section \<open>Parts of strings and joining\<close>

text \<open>A \<open>long\<close> in an \<open>int\<close>, and a status that yields to an earlier one.\<close>

definition as_int :: "int \<Rightarrow> int" where
  "as_int v = sint (word_of_int v :: u32)"

definition cut_length :: "int \<Rightarrow> u16" where
  "cut_length v = (if v < 0 then 0 else word_of_int v)"

definition second_status :: "int \<Rightarrow> int \<times> smem \<Rightarrow> int \<times> smem" where
  "second_status second r = (if fst r = STR_NORMAL then (second, snd r) else r)"

definition str_left :: "(nat \<Rightarrow> bool) \<Rightarrow> nat \<Rightarrow> nat \<Rightarrow> int \<Rightarrow> smem \<Rightarrow> (int \<times> smem) outcome" where
  "str_left ok d src end_position s =
     bindo (str_analyze_sdesc s src) (\<lambda>(s2_length, s2_ptr).
       let final_length = as_int (min (uint s2_length) end_position)
       in str_copy_r ok d (cut_length final_length) s2_ptr s)"

definition str_right :: "(nat \<Rightarrow> bool) \<Rightarrow> nat \<Rightarrow> nat \<Rightarrow> int \<Rightarrow> smem \<Rightarrow> (int \<times> smem) outcome" where
  "str_right ok d src start_position s =
     (let start_offset = as_int (start_position - 1);
          second = if start_offset \<le> 0 then STR_STRTOOLON else STR_NORMAL;
          start_offset = if start_offset \<le> 0 then 0 else start_offset
      in bindo (str_analyze_sdesc s src) (\<lambda>(s2_length, s2_ptr).
        if start_position > uint s2_length then
          bindo (str_free1_dx d s) (\<lambda>(r, s). Ret (STR_ILLSTRPOS, s))
        else
          let final_length = uint s2_length - start_offset;
              second = if final_length < 0 then STR_STRTOOLON else second
          in bindo (str_copy_r ok d (cut_length final_length) (padd s2_ptr start_offset) s) (\<lambda>(r, s).
             bindo (get_desc s d) (\<lambda>x.
               Ret (second_status second (r, set_desc d (x\<lparr>dsc_w_length := word_of_int final_length\<rparr>) s))))))"

definition str_pos_extr :: "(nat \<Rightarrow> bool) \<Rightarrow> nat \<Rightarrow> nat \<Rightarrow> int \<Rightarrow> int \<Rightarrow> smem \<Rightarrow> (int \<times> smem) outcome" where
  "str_pos_extr ok d src start_position end_position s =
     (let start_offset = as_int start_position;
          second = if start_offset \<le> 0 then STR_ILLSTRPOS else STR_NORMAL;
          start_offset = if start_offset \<le> 0 then 1 else start_offset
      in bindo (str_analyze_sdesc s src) (\<lambda>(s2_length, s2_ptr).
        let final_length = uint s2_length - start_offset + 1;
            wanted = end_position - start_position + 1;
            final_length = if final_length > wanted then as_int wanted else final_length;
            second = if final_length < 0 then STR_STRTOOLON else second
        in bindo (str_copy_r ok d (cut_length final_length) (padd s2_ptr (start_offset - 1)) s)
             (\<lambda>r. Ret (second_status second r))))"

definition str_len_extr :: "(nat \<Rightarrow> bool) \<Rightarrow> nat \<Rightarrow> nat \<Rightarrow> int \<Rightarrow> int \<Rightarrow> smem \<Rightarrow> (int \<times> smem) outcome" where
  "str_len_extr ok d src start_position len s =
     (let start_offset = as_int start_position;
          second = if start_offset \<le> 0 then STR_STRTOOLON else STR_NORMAL;
          start_offset = if start_offset \<le> 0 then 1 else start_offset
      in bindo (str_analyze_sdesc s src) (\<lambda>(s2_length, s2_ptr).
        let rest = uint s2_length - (start_offset - 1);
            final_length = if len < rest then as_int len else rest;
            second = if final_length < 0 then STR_STRTOOLON else second
        in bindo (str_copy_r ok d (cut_length final_length) (padd s2_ptr (start_offset - 1)) s)
             (\<lambda>r. Ret (second_status second r))))"

text \<open>The end of the text without blanks and tabs.\<close>

fun trim_loop :: "smem \<Rightarrow> cptr \<Rightarrow> nat \<Rightarrow> nat outcome" where
  "trim_loop s p 0 = Ret 0"
| "trim_loop s p (Suc n) =
     bindo (rd_byte s p (int n)) (\<lambda>c. if c = 32 \<or> c = 9 then trim_loop s p n else Ret (Suc n))"

definition str_trim :: "(nat \<Rightarrow> bool) \<Rightarrow> nat \<Rightarrow> nat \<Rightarrow> smem \<Rightarrow> (int \<times> u16 \<times> smem) outcome" where
  "str_trim ok d src s =
     bindo (str_analyze_sdesc s src) (\<lambda>(s2_length, s2_ptr).
     bindo (trim_loop s s2_ptr (unat s2_length)) (\<lambda>n.
     bindo (str_copy_r ok d (of_nat n) s2_ptr s) (\<lambda>(r, s). Ret (r, of_nat n, s))))"

definition toupper :: "u8 \<Rightarrow> u8" where
  "toupper c = (if 97 \<le> c \<and> c \<le> 122 then c - 32 else c)"

definition tolower :: "u8 \<Rightarrow> u8" where
  "tolower c = (if 65 \<le> c \<and> c \<le> 90 then c + 32 else c)"

fun upcase_loop :: "cptr \<Rightarrow> nat \<Rightarrow> smem \<Rightarrow> smem outcome" where
  "upcase_loop p 0 s = Ret s"
| "upcase_loop p (Suc n) s =
     bindo (rd_byte s p 0) (\<lambda>c. bindo (wr p [toupper c] s) (upcase_loop (padd p 1) n))"

definition str_upcase :: "(nat \<Rightarrow> bool) \<Rightarrow> nat \<Rightarrow> nat \<Rightarrow> smem \<Rightarrow> (int \<times> smem) outcome" where
  "str_upcase ok d src s =
     bindo (str_copy_dx ok d src s) (\<lambda>(result, s).
       if odd result then
         bindo (str_analyze_sdesc s d) (\<lambda>(s1_length, s1_ptr).
           bindo (upcase_loop s1_ptr (unat s1_length) s) (\<lambda>s. Ret (result, s)))
       else Ret (result, s))"

text \<open>Every status but \<open>STR$_NORMAL\<close> of the resizing has already stopped the program.\<close>

definition str_append :: "(nat \<Rightarrow> bool) \<Rightarrow> nat \<Rightarrow> nat \<Rightarrow> smem \<Rightarrow> (int \<times> smem) outcome" where
  "str_append ok d src s =
     bindo (get_desc s d) (\<lambda>x. panic_if (dsc_b_class x \<noteq> DSC_K_CLASS_D)
       (bindo (str_analyze_sdesc s d) (\<lambda>(s1_length, s1_ptr).
        bindo (str_analyze_sdesc s src) (\<lambda>(s2_length, s2_ptr).
          let size_check = uint s1_length + uint s2_length;
              final_length = (if size_check > 65535 then 65535 else s1_length + s2_length);
              s2_length = (if size_check > 65535 then 65535 - s1_length else s2_length)
          in bindo (str_resize ok d final_length s) (\<lambda>(result, s).
            if result = STR_NORMAL then
              bindo (get_desc s d) (\<lambda>x.
              bindo (memcpy (padd (dsc_a_pointer x) (uint s1_length)) s2_ptr (unat s2_length) s) (\<lambda>s.
                Ret (if size_check > 65535 then STR_TRU else STR_NORMAL,
                     set_desc d (x\<lparr>dsc_w_length := final_length\<rparr>) s)))
            else Ret (STR_FATINTERR, s))))))"

text \<open>The work area of \<open>str$prefix\<close> is allocated, filled and freed.\<close>

definition str_prefix :: "(nat \<Rightarrow> bool) \<Rightarrow> nat \<Rightarrow> nat \<Rightarrow> smem \<Rightarrow> (int \<times> smem) outcome" where
  "str_prefix ok d src s =
     bindo (get_desc s d) (\<lambda>x. panic_if (dsc_b_class x \<noteq> DSC_K_CLASS_D)
       (bindo (str_analyze_sdesc s d) (\<lambda>(s1_length, s1_ptr).
        bindo (str_analyze_sdesc s src) (\<lambda>(s2_length, s2_ptr).
          let final_length = s1_length + s2_length;
              (work, s) = calloc ok (unat final_length) s
          in if work = NULLP then Ret (STR_INSVIRMEM, s)
             else
               bindo (memcpy work s1_ptr (unat s1_length) s) (\<lambda>s.
               bindo (memcpy (padd work (uint s1_length)) s2_ptr (unat s2_length) s) (\<lambda>s.
               bindo (str_copy_r ok d final_length work s) (\<lambda>(result, s).
               bindo (free work s) (\<lambda>s. Ret (result, s)))))))))"

fun concat_loop :: "(nat \<Rightarrow> bool) \<Rightarrow> nat \<Rightarrow> nat list \<Rightarrow> int \<times> smem \<Rightarrow> (int \<times> smem) outcome" where
  "concat_loop ok d [] r = Ret r"
| "concat_loop ok d (i # is) r =
     (if fst r = STR_NORMAL then bindo (str_append ok d i (snd r)) (concat_loop ok d is) else Ret r)"

definition str_concat :: "(nat \<Rightarrow> bool) \<Rightarrow> nat \<Rightarrow> nat list \<Rightarrow> smem \<Rightarrow> (int \<times> smem) outcome" where
  "str_concat ok d items s = bindo (str_free1_dx d s) (concat_loop ok d items)"

section \<open>Comparison\<close>

text \<open>\<open>memcmp\<close>: the difference of the first bytes that differ, as unsigned numbers.\<close>

fun cmp_bytes :: "u8 list \<Rightarrow> u8 list \<Rightarrow> int" where
  "cmp_bytes (x # xs) (y # ys) = (if x = y then cmp_bytes xs ys else uint x - uint y)"
| "cmp_bytes _ _ = 0"

definition memcmp :: "smem \<Rightarrow> cptr \<Rightarrow> cptr \<Rightarrow> nat \<Rightarrow> int outcome" where
  "memcmp s p q n = bindo (rd s p n) (\<lambda>xs. bindo (rd s q n) (\<lambda>ys. Ret (cmp_bytes xs ys)))"

fun blank_loop :: "smem \<Rightarrow> cptr \<Rightarrow> int \<Rightarrow> nat \<Rightarrow> int \<Rightarrow> int outcome" where
  "blank_loop s p k 0 v = Ret 0"
| "blank_loop s p k (Suc n) v = bindo (rd_byte s p k) (\<lambda>c. if c \<noteq> 32 then Ret v else blank_loop s p (k + 1) n v)"

definition normalize :: "int \<Rightarrow> int" where
  "normalize r = (if r < - 1 then - 1 else if r > 1 then 1 else r)"

definition str_compare :: "smem \<Rightarrow> nat \<Rightarrow> nat \<Rightarrow> int outcome" where
  "str_compare s d1 d2 =
     bindo (str_analyze_sdesc s d1) (\<lambda>(s1_length, s1_ptr).
     bindo (str_analyze_sdesc s d2) (\<lambda>(s2_length, s2_ptr).
       let m = min s1_length s2_length
       in bindo (if m \<noteq> 0 then memcmp s s1_ptr s2_ptr (unat m) else Ret 0) (\<lambda>result.
          bindo (if result \<noteq> 0 then Ret result
                 else if s1_length < s2_length then blank_loop s s2_ptr (uint m) (unat s2_length - unat m) (- 1)
                 else blank_loop s s1_ptr (uint m) (unat s1_length - unat m) 1) (\<lambda>result.
            Ret (normalize result)))))"

definition str_compare_eql :: "smem \<Rightarrow> nat \<Rightarrow> nat \<Rightarrow> int outcome" where
  "str_compare_eql s d1 d2 =
     bindo (str_analyze_sdesc s d1) (\<lambda>(s1_length, s1_ptr).
     bindo (str_analyze_sdesc s d2) (\<lambda>(s2_length, s2_ptr).
       if s1_length \<noteq> s2_length then Ret 1
       else bindo (memcmp s s1_ptr s2_ptr (unat s2_length)) (\<lambda>r. Ret (if r \<noteq> 0 then 1 else 0))))"

text \<open>The characters are \<open>char\<close>s, \<open>tolower\<close> keeps those outside the alphabet.\<close>

fun memicmp :: "smem \<Rightarrow> cptr \<Rightarrow> cptr \<Rightarrow> nat \<Rightarrow> int outcome" where
  "memicmp s p q 0 = Ret 0"
| "memicmp s p q (Suc n) =
     bindo (rd_byte s p 0) (\<lambda>x. bindo (rd_byte s q 0) (\<lambda>y.
       let result = sint (tolower x) - sint (tolower y)
       in if result \<noteq> 0 then Ret result else memicmp s (padd p 1) (padd q 1) n))"

definition str_case_blind_compare :: "smem \<Rightarrow> nat \<Rightarrow> nat \<Rightarrow> int outcome" where
  "str_case_blind_compare s d1 d2 =
     bindo (str_analyze_sdesc s d1) (\<lambda>(s1_length, s1_ptr).
     bindo (str_analyze_sdesc s d2) (\<lambda>(s2_length, s2_ptr).
     bindo (memicmp s s1_ptr s2_ptr (unat (min s1_length s2_length))) (\<lambda>result.
       Ret (normalize (if result = 0 then if s1_length < s2_length then - 1 else if s1_length > s2_length then 1 else 0
         else result)))))"

section \<open>Searching\<close>

fun among_loop :: "smem \<Rightarrow> u8 \<Rightarrow> cptr \<Rightarrow> int \<Rightarrow> nat \<Rightarrow> bool outcome" where
  "among_loop s c q k 0 = Ret False"
| "among_loop s c q k (Suc n) = bindo (rd_byte s q k) (\<lambda>x. if c = x then Ret True else among_loop s c q (k + 1) n)"

fun in_set_loop :: "smem \<Rightarrow> cptr \<Rightarrow> int \<Rightarrow> nat \<Rightarrow> cptr \<Rightarrow> nat \<Rightarrow> int outcome" where
  "in_set_loop s p k 0 q m = Ret 0"
| "in_set_loop s p k (Suc n) q m =
     bindo (rd_byte s p k) (\<lambda>c. bindo (among_loop s c q 0 m) (\<lambda>b.
       if b then Ret (k + 1) else in_set_loop s p (k + 1) n q m))"

definition str_find_first_in_set :: "smem \<Rightarrow> nat \<Rightarrow> nat \<Rightarrow> int outcome" where
  "str_find_first_in_set s d1 d2 =
     bindo (str_analyze_sdesc s d1) (\<lambda>(s1_length, s1_ptr).
     bindo (str_analyze_sdesc s d2) (\<lambda>(s2_length, s2_ptr).
       if s1_length = 0 \<or> s2_length = 0 then Ret 0
       else in_set_loop s s1_ptr 0 (unat s1_length) s2_ptr (unat s2_length)))"

fun any_loop :: "smem \<Rightarrow> u8 \<Rightarrow> cptr \<Rightarrow> int \<Rightarrow> nat \<Rightarrow> bool \<Rightarrow> bool outcome" where
  "any_loop s c q k 0 result = Ret result"
| "any_loop s c q k (Suc n) result = bindo (rd_byte s q k) (\<lambda>x. any_loop s c q (k + 1) n (result \<or> c = x))"

fun not_in_set_loop :: "smem \<Rightarrow> cptr \<Rightarrow> int \<Rightarrow> nat \<Rightarrow> cptr \<Rightarrow> nat \<Rightarrow> int outcome" where
  "not_in_set_loop s p k 0 q m = Ret 0"
| "not_in_set_loop s p k (Suc n) q m =
     bindo (rd_byte s p k) (\<lambda>c. bindo (any_loop s c q 0 m False) (\<lambda>b.
       if \<not> b then Ret (k + 1) else not_in_set_loop s p (k + 1) n q m))"

definition str_find_first_not_in_set :: "smem \<Rightarrow> nat \<Rightarrow> nat \<Rightarrow> int outcome" where
  "str_find_first_not_in_set s d1 d2 =
     bindo (str_analyze_sdesc s d1) (\<lambda>(s1_length, s1_ptr).
     bindo (str_analyze_sdesc s d2) (\<lambda>(s2_length, s2_ptr).
       if s1_length = 0 then Ret 1 else if s2_length = 0 then Ret 0
       else not_in_set_loop s s1_ptr 0 (unat s1_length) s2_ptr (unat s2_length)))"

text \<open>The loop over the places from \<open>i\<close> to \<open>hi\<close> at which the substring may start.\<close>

function place_loop :: "smem \<Rightarrow> cptr \<Rightarrow> cptr \<Rightarrow> nat \<Rightarrow> int \<Rightarrow> int \<Rightarrow> int outcome" where
  "place_loop s p q n i hi =
     (if i \<le> hi then
        bindo (memcmp s (padd p i) q n) (\<lambda>r. if r = 0 then Ret (i + 1) else place_loop s p q n (i + 1) hi)
      else Ret 0)"
  by pat_completeness auto

termination
  by (relation "measure (\<lambda>(s, p, q, n, i, hi). nat (hi + 1 - i))") auto

declare place_loop.simps [simp del]

definition str_position :: "smem \<Rightarrow> nat \<Rightarrow> nat \<Rightarrow> int \<Rightarrow> int outcome" where
  "str_position s d1 d2 start_position =
     bindo (str_analyze_sdesc s d1) (\<lambda>(s1_length, s1_ptr).
     bindo (str_analyze_sdesc s d2) (\<lambda>(s2_length, s2_ptr).
       let start_pos = (if start_position < 0 then 0 else start_position);
           start_pos = (if start_pos > uint s1_length then uint s1_length else start_pos)
       in if s2_length = 0 then Ret (uint s1_length + 1)
          else place_loop s s1_ptr s2_ptr (unat s2_length) (start_pos - 1) (uint s1_length - uint s2_length)))"

text \<open>\<open>lib$index\<close> compares an \<open>unsigned long\<close> with an \<open>int\<close>, which is converted to it.\<close>

definition lib_index :: "smem \<Rightarrow> nat \<Rightarrow> nat \<Rightarrow> int outcome" where
  "lib_index s d1 d2 =
     bindo (lib_analyze_sdesc s d1) (\<lambda>(s1_length, s1_ptr).
     bindo (lib_analyze_sdesc s d2) (\<lambda>(s2_length, s2_ptr).
       place_loop s s1_ptr s2_ptr (unat s2_length) 0 (uint (word_of_int (uint s1_length - uint s2_length) :: u64))))"

definition lib_matchc :: "smem \<Rightarrow> nat \<Rightarrow> nat \<Rightarrow> int outcome" where
  "lib_matchc s d1 d2 =
     bindo (str_analyze_sdesc s d1) (\<lambda>(s1_length, s1_ptr).
     bindo (str_analyze_sdesc s d2) (\<lambda>(s2_length, s2_ptr).
       if s2_length = 0 \<and> s1_length \<noteq> 0 then Ret 0
       else if s1_length = 0 then Ret 1
       else place_loop s s2_ptr s1_ptr (unat s1_length) 0 (uint s2_length - uint s1_length)))"

fun locc_loop :: "smem \<Rightarrow> cptr \<Rightarrow> cptr \<Rightarrow> int \<Rightarrow> nat \<Rightarrow> int outcome" where
  "locc_loop s p q k 0 = Ret 0"
| "locc_loop s p q k (Suc n) =
     bindo (rd_byte s p 0) (\<lambda>c. bindo (rd_byte s q k) (\<lambda>x. if c = x then Ret (k + 1) else locc_loop s p q (k + 1) n))"

definition lib_locc :: "smem \<Rightarrow> nat \<Rightarrow> nat \<Rightarrow> int outcome" where
  "lib_locc s d1 d2 =
     bindo (lib_analyze_sdesc s d1) (\<lambda>(s1_len, s1_ptr).
     bindo (lib_analyze_sdesc s d2) (\<lambda>(s2_len, s2_ptr).
       if s1_len > 0 then locc_loop s s1_ptr s2_ptr 0 (unat s2_len) else Ret 0))"

section \<open>Numbers\<close>

definition isdigit :: "u8 \<Rightarrow> bool" where
  "isdigit c \<longleftrightarrow> 48 \<le> c \<and> c \<le> 57"

definition isxdigit :: "u8 \<Rightarrow> bool" where
  "isxdigit c \<longleftrightarrow> isdigit c \<or> 97 \<le> c \<and> c \<le> 102 \<or> 65 \<le> c \<and> c \<le> 70"

definition xtoi :: "u8 \<Rightarrow> u64" where
  "xtoi c = (if 48 \<le> c \<and> c \<le> 57 then ucast (c - 48)
             else if 97 \<le> c \<and> c \<le> 102 then ucast (c - 97) + 10 else ucast (c - 65) + 10)"

text \<open>The three conversions: \<open>digit\<close> tells what a character adds, \<open>good\<close> whether it may be there.\<close>

fun cvt_loop :: "u64 \<Rightarrow> (u8 \<Rightarrow> u64 option) \<Rightarrow> (u8 \<Rightarrow> bool) \<Rightarrow> smem \<Rightarrow> cptr \<Rightarrow> int \<Rightarrow> nat \<Rightarrow> u64 \<Rightarrow> int \<Rightarrow> (int \<times> u64) outcome"
  where
  "cvt_loop base digit good s p k 0 answer status = Ret (status, answer)"
| "cvt_loop base digit good s p k (Suc n) answer status =
     bindo (rd_byte s p k) (\<lambda>c.
       cvt_loop base digit good s p (k + 1) n
         (case digit c of None \<Rightarrow> answer | Some v \<Rightarrow> answer * base + v) (if good c then status else 0))"

definition lib_cvt_dtb :: "smem \<Rightarrow> int \<Rightarrow> cptr \<Rightarrow> (int \<times> u64) outcome" where
  "lib_cvt_dtb s byte_count p =
     cvt_loop 10 (\<lambda>c. if isdigit c then Some (ucast c - 48) else None) isdigit s p 0 (nat byte_count) 0 1"

definition lib_cvt_otb :: "smem \<Rightarrow> int \<Rightarrow> cptr \<Rightarrow> (int \<times> u64) outcome" where
  "lib_cvt_otb s byte_count p =
     cvt_loop 8 (\<lambda>c. if isdigit c then Some (ucast c - 48) else None) (\<lambda>c. isdigit c \<and> c \<noteq> 56 \<and> c \<noteq> 57)
       s p 0 (nat byte_count) 0 1"

definition lib_cvt_htb :: "smem \<Rightarrow> int \<Rightarrow> cptr \<Rightarrow> (int \<times> u64) outcome" where
  "lib_cvt_htb s byte_count p =
     cvt_loop 10 (\<lambda>c. if isxdigit c then Some (xtoi c) else None) isxdigit s p 0 (nat byte_count) 0 1"

end
