(* ===== verification/String_Props.thy ===== *)
theory String_Props
  imports Vms_Strings
begin

text \<open>
  What the string routines compute. The text of a descriptor is \<open>val\<close>. A copy into a dynamic string
  gives it the text of the source, a copy into a fixed one cuts the text or fills it with blanks; parts
  of strings are parts of lists, and a string that is split and appended is itself again. Comparisons
  and searches are those of lists of bytes, on every string that can be read. Where a routine does
  something else (a source that is the destination, a prefix that is put behind, a search that leaves
  the string) the lemma says so.
\<close>

section \<open>Texts\<close>

definition val :: "smem \<Rightarrow> nat \<Rightarrow> u8 list outcome" where
  "val s d = bindo (str_analyze_sdesc s d) (\<lambda>(n, p). rd s p (unat n))"

text \<open>Blocks that were not handed out yet are not there, nor is the block of the null pointer.\<close>

definition smem_ok :: "smem \<Rightarrow> bool" where
  "smem_ok s \<longleftrightarrow> 0 < next_block s \<and> blocks s 0 = None \<and> (\<forall>k \<ge> next_block s. blocks s k = None)"

text \<open>A dynamic string: a null pointer, or a block of its own of the length of the string.\<close>

definition dyn :: "smem \<Rightarrow> nat \<Rightarrow> sdesc \<Rightarrow> bool" where
  "dyn s d x \<longleftrightarrow> d \<noteq> 0 \<and> descs s d = Some x \<and> dsc_b_class x = DSC_K_CLASS_D \<and>
     (if dsc_w_length x = 0 then dsc_a_pointer x = NULLP
      else snd (dsc_a_pointer x) = 0 \<and> fst (dsc_a_pointer x) \<noteq> 0 \<and>
        (case blocks s (fst (dsc_a_pointer x)) of None \<Rightarrow> False
         | Some b \<Rightarrow> bk_heap b \<and> length (bk_bytes b) = unat (dsc_w_length x)))"

definition block_of :: "sdesc \<Rightarrow> nat" where
  "block_of x = fst (dsc_a_pointer x)"

text \<open>
  What an operation on the string \<open>d\<close>, held in block \<open>k\<close>, leaves alone: every other descriptor and
  every other block that was handed out before.
\<close>

definition only :: "nat \<Rightarrow> nat \<Rightarrow> smem \<Rightarrow> smem \<Rightarrow> bool" where
  "only d k s s' \<longleftrightarrow> (\<forall>e. e \<noteq> d \<longrightarrow> descs s' e = descs s e) \<and>
     (\<forall>j. j < next_block s \<longrightarrow> j \<noteq> k \<longrightarrow> blocks s' j = blocks s j) \<and> next_block s \<le> next_block s'"

lemma rd_length: "rd s p n = Ret xs \<Longrightarrow> length xs = n"
  by (auto simp: rd_def split: option.splits if_splits)

lemma rd_take: "rd s p n = Ret xs \<Longrightarrow> m \<le> n \<Longrightarrow> rd s p m = Ret (take m xs)"
  by (auto simp: rd_def min_def split: option.splits if_splits)

lemma rd_drop: "rd s p n = Ret xs \<Longrightarrow> k + m \<le> n \<Longrightarrow> rd s (padd p (int k)) m = Ret (take m (drop k xs))"
  by (auto simp: rd_def padd_def drop_take nat_add_distrib add.commute min_def split: option.splits if_splits)

lemma rd_same: "blocks s' (fst p) = blocks s (fst p) \<Longrightarrow> rd s' p n = rd s p n"
  by (simp add: rd_def)

lemma rd_byte_nth: "rd s p n = Ret xs \<Longrightarrow> k < n \<Longrightarrow> rd_byte s p (int k) = Ret (xs ! k)"
  using rd_drop [of s p n xs k 1] rd_length [of s p n xs]
  by (simp add: rd_byte_def hd_drop_conv_nth take_Suc hd_conv_nth)

lemma dyn_class: "dyn s d x \<Longrightarrow> dsc_b_class x = DSC_K_CLASS_D"
  by (simp add: dyn_def)

lemma dyn_desc: "dyn s d x \<Longrightarrow> get_desc s d = Ret x"
  by (simp add: dyn_def get_desc_def)

lemma dyn_string: "dyn s d x \<Longrightarrow> is_string_class s d = Ret STR_NORMAL"
  using dyn_desc [of s d x] dyn_class [of s d x] by (simp add: is_string_class_def dyn_def)

lemma dyn_null: "dyn s d x \<Longrightarrow> dsc_a_pointer x = NULLP \<longleftrightarrow> dsc_w_length x = 0"
  by (cases "dsc_w_length x = 0") (auto simp: dyn_def NULLP_def)

lemma dyn_analyze:
  assumes "dyn s d x"
  shows "str_analyze_sdesc s d = Ret (dsc_w_length x, dsc_a_pointer x)"
proof -
  have "desc_text s x = Ret (dsc_w_length x, dsc_a_pointer x)"
    using dyn_class [OF assms] by (simp add: desc_text_def DSC_K_CLASS_D_def DSC_K_CLASS_VS_def)
  then show ?thesis
    using dyn_string [OF assms] dyn_desc [OF assms] dyn_null [OF assms] by (simp add: str_analyze_sdesc_def)
qed

lemma dyn_block:
  assumes "dyn s d x" "dsc_w_length x \<noteq> 0"
  shows "dsc_a_pointer x = (block_of x, 0) \<and> block_of x \<noteq> 0 \<and>
    (\<exists>b. blocks s (block_of x) = Some b \<and> bk_heap b \<and> length (bk_bytes b) = unat (dsc_w_length x))"
  using assms by (simp add: dyn_def block_of_def prod_eq_iff split: option.splits)

lemma dyn_block_0: "dyn s d x \<Longrightarrow> block_of x = 0 \<longleftrightarrow> dsc_w_length x = 0"
  by (cases "dsc_w_length x = 0") (auto simp: dyn_def block_of_def NULLP_def)

lemma dyn_block_less:
  assumes "dyn s d x" "smem_ok s"
  shows "block_of x < next_block s"
proof (cases "dsc_w_length x = 0")
  case True
  then show ?thesis using dyn_block_0 [OF assms(1)] assms(2) by (simp add: smem_ok_def)
next
  case False
  then show ?thesis using dyn_block [OF assms(1) False] assms(2) by (metis linorder_not_le option.distinct(1) smem_ok_def)
qed

lemma dyn_val:
  assumes "dyn s d x"
  shows "\<exists>xs. val s d = Ret xs \<and> length xs = unat (dsc_w_length x)"
proof (cases "dsc_w_length x = 0")
  case True
  then show ?thesis by (simp add: val_def dyn_analyze [OF assms] rd_def)
next
  case False
  then show ?thesis
    using dyn_block [OF assms False] by (auto simp: val_def dyn_analyze [OF assms] rd_def unat_eq_0)
qed

lemma only_refl [simp]: "only d k s s"
  by (simp add: only_def)

section \<open>Resizing\<close>

lemma dyn_empty:
  assumes "d \<noteq> 0" "descs s d = Some x" "dsc_b_class x = DSC_K_CLASS_D" "dsc_w_length x = 0" "dsc_a_pointer x = NULLP"
  shows "dyn s d x \<and> val s d = Ret []"
proof -
  have "dyn s d x" using assms by (simp add: dyn_def)
  then show ?thesis using assms by (simp add: val_def dyn_analyze rd_def)
qed

lemma dyn_filled:
  assumes "d \<noteq> 0" "descs s d = Some x" "dsc_b_class x = DSC_K_CLASS_D" "dsc_a_pointer x = (k, 0)" "k \<noteq> 0"
    "blocks s k = Some b" "bk_heap b" "length (bk_bytes b) = unat (dsc_w_length x)" "dsc_w_length x \<noteq> 0"
  shows "dyn s d x \<and> val s d = Ret (bk_bytes b)"
proof -
  have "dyn s d x" using assms by (simp add: dyn_def)
  then show ?thesis using assms by (simp add: val_def dyn_analyze rd_def unat_eq_0)
qed

lemma dyn_val_bytes:
  assumes "dyn s d x" "dsc_w_length x \<noteq> 0" "blocks s (block_of x) = Some b"
  shows "val s d = Ret (bk_bytes b)"
  using dyn_block [OF assms(1,2)] assms by (simp add: val_def dyn_analyze rd_def unat_eq_0)

definition resized :: "nat \<Rightarrow> sdesc \<Rightarrow> u16 \<Rightarrow> u8 list \<Rightarrow> smem \<Rightarrow> smem \<Rightarrow> bool" where
  "resized d x len xs s s' \<longleftrightarrow> (\<exists>x'. dyn s' d x' \<and> dsc_w_length x' = len \<and> val s' d = Ret xs \<and>
     (block_of x' = block_of x \<and> dsc_w_length x = len \<or> block_of x' = 0 \<or> block_of x' \<ge> next_block s)) \<and>
     only d (block_of x) s s' \<and> smem_ok s' \<and> (dsc_w_length x \<noteq> len \<longrightarrow> blocks s' (block_of x) = None)"

lemma get1_dx_grow:
  assumes "dyn s d x" "smem_ok s" "\<forall>k. ok k" "val s d = Ret xs" "len \<noteq> 0" "dsc_w_length x \<noteq> len" "dsc_w_length x \<noteq> 0"
  shows "\<exists>s'. str_get1_dx ok len d s = Ret (STR_NORMAL, s') \<and>
    resized d x len (take (unat len) xs @ replicate (unat len - length xs) 0) s s'"
proof -
  obtain b where b: "dsc_a_pointer x = (block_of x, 0)" "block_of x \<noteq> 0" "blocks s (block_of x) = Some b" "bk_heap b"
      "length (bk_bytes b) = unat (dsc_w_length x)"
    using dyn_block [OF assms(1,7)] by auto
  then have xs: "bk_bytes b = xs" using dyn_val_bytes [OF assms(1,7) b(3)] assms(4) by simp
  let ?n = "unat len" and ?k = "next_block s"
  let ?m = "min (unat (dsc_w_length x)) ?n"
  let ?ys = "take ?n xs @ replicate (?n - length xs) 0"
  have k: "?k \<noteq> block_of x" "?k \<noteq> 0"
    using assms(2) b(3) by (auto simp: smem_ok_def)
  let ?s1 = "s\<lparr>next_block := ?k + 1, blocks := (blocks s)(?k \<mapsto> \<lparr>bk_heap = True, bk_bytes = replicate ?n 0\<rparr>)\<rparr>"
  have pos: "0 < ?m" "?m \<le> ?n" "0 < ?n" using assms(5,7) by (auto simp: unat_gt_0)
  have "rd ?s1 (dsc_a_pointer x) ?m = Ret (take ?n xs)"
    using b xs k pos by (simp add: rd_def min_def)
  moreover have "length (take ?n xs) = ?m" using b(5) xs by auto
  moreover have "take ?n xs \<noteq> []" using calculation(2) pos(1) by force
  ultimately have cp: "memcpy (?k, 0) (dsc_a_pointer x) ?m ?s1 =
      Ret (?s1\<lparr>blocks := (blocks ?s1)(?k \<mapsto> \<lparr>bk_heap = True, bk_bytes = ?ys\<rparr>)\<rparr>)"
    using pos b(5) xs by (simp add: memcpy_def wr_def min_def)
  let ?s2 = "?s1\<lparr>blocks := (blocks ?s1)(?k \<mapsto> \<lparr>bk_heap = True, bk_bytes = ?ys\<rparr>)\<rparr>"
  let ?x' = "x\<lparr>dsc_a_pointer := (?k, 0), dsc_w_length := len\<rparr>"
  let ?s3 = "set_desc d ?x' (?s2\<lparr>blocks := (blocks ?s2)(block_of x := None)\<rparr>)"
  have "str_get1_dx ok len d s = Ret (STR_NORMAL, ?s3)"
    using assms b k cp dyn_desc [OF assms(1)] dyn_class [OF assms(1)] dyn_null [OF assms(1)]
    by (simp add: str_get1_dx_def calloc_def Let_def free_def NULLP_def)
  moreover have "dyn ?s3 d ?x' \<and> val ?s3 d = Ret ?ys"
    using dyn_filled [of d ?s3 ?x' ?k "\<lparr>bk_heap = True, bk_bytes = ?ys\<rparr>"] assms k dyn_class [OF assms(1)]
    by (auto simp: set_desc_def dyn_def)
  moreover have "only d (block_of x) s ?s3 \<and> smem_ok ?s3"
    using assms(2) b(2) by (auto simp: only_def set_desc_def smem_ok_def)
  ultimately show ?thesis
    by (force simp: resized_def block_of_def set_desc_def)
qed

lemma get1_dx_same:
  assumes "dyn s d x" "dsc_w_length x = len"
  shows "str_get1_dx ok len d s = Ret (STR_NORMAL, s)"
proof -
  have "x\<lparr>dsc_a_pointer := NULLP, dsc_w_length := 0\<rparr> = x" if "dsc_w_length x = 0"
    using that dyn_null [OF assms(1)] by (cases x) simp
  then have "set_desc d (x\<lparr>dsc_a_pointer := NULLP, dsc_w_length := 0\<rparr>) s = s" if "dsc_w_length x = 0"
    using that assms by (simp add: set_desc_def dyn_def fun_upd_idem)
  then show ?thesis
    using assms dyn_desc [OF assms(1)] dyn_class [OF assms(1)] dyn_null [OF assms(1)]
    by (auto simp: str_get1_dx_def)
qed

lemma get1_dx_fresh:
  assumes "dyn s d x" "smem_ok s" "\<forall>k. ok k" "len \<noteq> 0" "dsc_w_length x = 0"
  shows "\<exists>s'. str_get1_dx ok len d s = Ret (STR_NORMAL, s') \<and> resized d x len (replicate (unat len) 0) s s'"
proof -
  let ?k = "next_block s"
  let ?b = "\<lparr>bk_heap = True, bk_bytes = replicate (unat len) 0\<rparr>"
  let ?x' = "x\<lparr>dsc_a_pointer := (?k, 0), dsc_w_length := len\<rparr>"
  let ?s' = "set_desc d ?x' (s\<lparr>next_block := ?k + 1, blocks := (blocks s)(?k \<mapsto> ?b)\<rparr>)"
  have k: "?k \<noteq> 0" using assms(2) by (simp add: smem_ok_def)
  have "str_get1_dx ok len d s = Ret (STR_NORMAL, ?s')"
    using assms k dyn_desc [OF assms(1)] dyn_class [OF assms(1)] dyn_null [OF assms(1)]
    by (simp add: str_get1_dx_def calloc_def Let_def NULLP_def)
  moreover have "dyn ?s' d ?x' \<and> val ?s' d = Ret (bk_bytes ?b)"
    using dyn_filled [of d ?s' ?x' ?k ?b] assms k dyn_class [OF assms(1)] by (simp add: set_desc_def dyn_def)
  moreover have "only d (block_of x) s ?s' \<and> smem_ok ?s'"
    using assms(2) by (auto simp: only_def set_desc_def smem_ok_def)
  moreover have "block_of x = 0"
    using assms(1,5) dyn_null [OF assms(1)] by (simp add: block_of_def NULLP_def)
  ultimately show ?thesis
    using k assms(2) by (force simp: resized_def block_of_def set_desc_def smem_ok_def)
qed

lemma get1_dx_release:
  assumes "dyn s d x" "smem_ok s" "dsc_w_length x \<noteq> 0"
  shows "\<exists>s'. str_get1_dx ok 0 d s = Ret (STR_NORMAL, s') \<and> resized d x 0 [] s s'"
proof -
  obtain b where b: "dsc_a_pointer x = (block_of x, 0)" "block_of x \<noteq> 0" "blocks s (block_of x) = Some b" "bk_heap b"
    using dyn_block [OF assms(1,3)] by auto
  let ?x' = "x\<lparr>dsc_a_pointer := NULLP, dsc_w_length := 0\<rparr>"
  let ?s' = "set_desc d ?x' (s\<lparr>blocks := (blocks s)(block_of x := None)\<rparr>)"
  have "str_get1_dx ok 0 d s = Ret (STR_NORMAL, ?s')"
    using assms b dyn_desc [OF assms(1)] dyn_class [OF assms(1)]
    by (simp add: str_get1_dx_def free_def NULLP_def)
  moreover have "dyn ?s' d ?x' \<and> val ?s' d = Ret []"
    using dyn_empty [of d ?s' ?x'] assms dyn_class [OF assms(1)] by (simp add: set_desc_def dyn_def)
  moreover have "only d (block_of x) s ?s' \<and> smem_ok ?s'"
    using assms(2) by (auto simp: only_def set_desc_def smem_ok_def)
  ultimately show ?thesis
    by (force simp: resized_def block_of_def set_desc_def NULLP_def)
qed

lemma get1_dx_dyn:
  assumes "dyn s d x" "smem_ok s" "\<forall>k. ok k" "val s d = Ret xs" "dsc_w_length x \<noteq> len"
  shows "\<exists>s'. str_get1_dx ok len d s = Ret (STR_NORMAL, s') \<and>
    resized d x len (take (unat len) xs @ replicate (unat len - length xs) 0) s s'"
proof -
  have "length xs = unat (dsc_w_length x)" using dyn_val [OF assms(1)] assms(4) by auto
  then show ?thesis
    using get1_dx_grow [OF assms(1-4) _ assms(5)] get1_dx_fresh [OF assms(1-3), of len]
      get1_dx_release [OF assms(1,2), of ok] assms(5)
    by (cases "len = 0"; cases "dsc_w_length x = 0") auto
qed

section \<open>Copying\<close>

lemma rd_source:
  assumes "rd s src n = Ret ys" "smem_ok s" "n \<noteq> 0"
  shows "src \<noteq> NULLP \<and> fst src < next_block s"
proof -
  have "blocks s (fst src) \<noteq> None"
    using assms(1,3) by (auto simp: rd_def split: option.splits)
  then show ?thesis
    using assms(2) by (metis NULLP_def fst_conv linorder_not_le smem_ok_def)
qed

lemma resized_separate:
  assumes "resized d x len zs s s'" "rd s p n = Ret ys" "smem_ok s" "fst p \<noteq> block_of x"
  shows "rd s' p n = Ret ys"
proof (cases "n = 0")
  case False
  then show ?thesis
    using assms rd_source [OF assms(2,3)] rd_same [of s' p s n] by (simp add: resized_def only_def)
qed (use assms(2) in \<open>simp add: rd_def\<close>)

text \<open>The whole block of a dynamic string is overwritten.\<close>

lemma copy_fill_all:
  assumes "dyn s d x" "smem_ok s" "rd s src (unat (dsc_w_length x)) = Ret ys"
  shows "\<exists>s'. copy_fill (dsc_a_pointer x) (dsc_w_length x) src (if src \<noteq> NULLP then dsc_w_length x else 0) 32 s =
      Ret (STR_NORMAL, s') \<and> dyn s' d x \<and> val s' d = Ret ys \<and> smem_ok s' \<and> descs s' = descs s \<and>
      next_block s' = next_block s \<and> (\<forall>j. j \<noteq> block_of x \<longrightarrow> blocks s' j = blocks s j)"
proof (cases "dsc_w_length x = 0")
  case True
  then show ?thesis
    using assms dyn_val [OF assms(1)]
    by (auto simp: copy_fill_def memcpy_def rd_def wr_def)
next
  case False
  obtain b where b: "dsc_a_pointer x = (block_of x, 0)" "block_of x \<noteq> 0" "blocks s (block_of x) = Some b" "bk_heap b"
      "length (bk_bytes b) = unat (dsc_w_length x)"
    using dyn_block [OF assms(1) False] by auto
  have len: "length ys = unat (dsc_w_length x)" "unat (dsc_w_length x) \<noteq> 0" "ys \<noteq> []"
    using rd_length [OF assms(3)] False by (auto simp: unat_eq_0)
  let ?s' = "s\<lparr>blocks := (blocks s)(block_of x \<mapsto> b\<lparr>bk_bytes := ys\<rparr>)\<rparr>"
  have "copy_fill (dsc_a_pointer x) (dsc_w_length x) src (if src \<noteq> NULLP then dsc_w_length x else 0) 32 s =
      Ret (STR_NORMAL, ?s')"
    using rd_source [OF assms(3,2) len(2)] assms(3) b len by (simp add: copy_fill_def memcpy_def wr_def)
  moreover have "dyn ?s' d x \<and> val ?s' d = Ret ys"
    using dyn_filled [of d ?s' x "block_of x" "b\<lparr>bk_bytes := ys\<rparr>"] assms(1) b len False
    by (simp add: dyn_def)
  moreover have "smem_ok ?s'"
    using assms(2) b by (auto simp: smem_ok_def)
  ultimately show ?thesis by auto
qed

text \<open>Writing the new block of a string that was resized.\<close>

lemma resized_written:
  assumes s1: "resized d x len zs s s1" and ne: "dsc_w_length x \<noteq> len" and d: "dyn s d x" "smem_ok s"
    and x': "dyn s1 d x'"
    and s': "dyn s' d x'" "val s' d = Ret ys" "smem_ok s'" "descs s' = descs s1" "next_block s' = next_block s1"
      "\<forall>j. j \<noteq> block_of x' \<longrightarrow> blocks s' j = blocks s1 j"
    and len: "dsc_w_length x' = len" "block_of x' = 0 \<or> block_of x' \<ge> next_block s"
  shows "resized d x len ys s s'"
proof -
  have "block_of x \<noteq> block_of x'"
    using dyn_block_less [OF d] dyn_block_0 [OF d(1)] dyn_block_0 [OF x'] len ne by auto
  moreover have "blocks s' j = blocks s1 j" if "j < next_block s" for j
    using that s'(3,6) len(2) s1 by (cases "j = 0") (auto simp: smem_ok_def resized_def)
  ultimately show ?thesis
    using s' len s1 ne dyn_block_less [OF d] unfolding resized_def only_def by auto
qed

lemma copy_r_dyn:
  assumes d: "dyn s d x" and ok: "smem_ok s" "\<forall>k. ok k" and src: "rd s src (unat len) = Ret ys"
    and sep: "fst src \<noteq> block_of x \<or> dsc_w_length x = len"
  shows "\<exists>s'. str_copy_r ok d len src s = Ret (STR_NORMAL, s') \<and> resized d x len ys s s'"
proof -
  have cls: "dsc_b_class x = 2" using dyn_class [OF d] by (simp add: DSC_K_CLASS_D_def)
  then have rs: "str_resize ok d len s = str_get1_dx ok len d s"
    by (simp add: str_resize_def dyn_desc [OF d] dsc_classes)
  note cr = str_copy_r_def Let_def dyn_string [OF d] rs
  show ?thesis
  proof (cases "dsc_w_length x = len")
    case True
    obtain s' where "copy_fill (dsc_a_pointer x) len src (if src \<noteq> NULLP then len else 0) 32 s = Ret (STR_NORMAL, s')"
      "dyn s' d x" "val s' d = Ret ys" "smem_ok s'" "descs s' = descs s" "next_block s' = next_block s"
      "\<forall>j. j \<noteq> block_of x \<longrightarrow> blocks s' j = blocks s j"
      using copy_fill_all [OF d ok(1), unfolded True, OF src] by blast
    then show ?thesis
      using True by (auto simp: cr get1_dx_same [OF d True] dyn_analyze [OF d] resized_def only_def)
  next
    case False
    obtain xs where "val s d = Ret xs" using dyn_val [OF d] by auto
    then obtain s1 zs where s1: "str_get1_dx ok len d s = Ret (STR_NORMAL, s1)" "resized d x len zs s s1"
      using get1_dx_dyn [OF d ok _ False] by blast
    then obtain x' where x': "dyn s1 d x'" "dsc_w_length x' = len" "block_of x' = 0 \<or> block_of x' \<ge> next_block s"
      using False by (auto simp: resized_def)
    have src1: "rd s1 src (unat len) = Ret ys"
      using resized_separate [OF s1(2) src ok(1)] sep False by blast
    obtain s' where s': "copy_fill (dsc_a_pointer x') len src (if src \<noteq> NULLP then len else 0) 32 s1 = Ret (STR_NORMAL, s')"
      "dyn s' d x'" "val s' d = Ret ys" "smem_ok s'" "descs s' = descs s1" "next_block s' = next_block s1"
      "\<forall>j. j \<noteq> block_of x' \<longrightarrow> blocks s' j = blocks s1 j"
      using copy_fill_all [OF x'(1) _, unfolded x'(2), OF _ src1] s1(2) unfolding resized_def by blast
    have "resized d x len ys s s'"
      by (rule resized_written [OF s1(2) False d ok(1) x'(1) s'(2-7) x'(2,3)])
    then show ?thesis
      using s'(1) s1(1) by (simp add: cr dyn_analyze [OF x'(1)] x'(2))
  qed
qed

text \<open>Texts that can be read: where they are and what they are.\<close>

definition text_at :: "smem \<Rightarrow> nat \<Rightarrow> cptr \<Rightarrow> u8 list \<Rightarrow> bool" where
  "text_at s e p xs \<longleftrightarrow> length xs < 65536 \<and> str_analyze_sdesc s e = Ret (of_nat (length xs), p) \<and> rd s p (length xs) = Ret xs"

lemma text_at_val: "text_at s e p xs \<Longrightarrow> val s e = Ret xs"
  by (simp add: text_at_def val_def unat_of_nat)

lemma dyn_text_at:
  assumes "dyn s d x" "val s d = Ret xs"
  shows "text_at s d (dsc_a_pointer x) xs"
proof -
  have "length xs = unat (dsc_w_length x)" using dyn_val [OF assms(1)] assms(2) by auto
  moreover have "unat (dsc_w_length x) < 65536"
    using unsigned_less [of "dsc_w_length x", where ?'a = nat] by simp
  ultimately show ?thesis
    using assms dyn_analyze [OF assms(1)] by (simp add: text_at_def val_def)
qed

lemma as_int_id: "- 2147483648 \<le> v \<Longrightarrow> v < 2147483648 \<Longrightarrow> as_int v = v"
  by (simp add: as_int_def signed_of_int signed_take_bit_int_eq_self)

lemma unat_cut_length: "0 \<le> v \<Longrightarrow> v < 65536 \<Longrightarrow> unat (cut_length v) = nat v"
  by (simp add: cut_length_def unat_eq_nat_uint uint_word_of_int take_bit_int_eq_self)

lemma uint_of_length: "n < 65536 \<Longrightarrow> uint (of_nat n :: u16) = int n"
  by (simp add: uint_nat unat_of_nat)

text \<open>The common step of the routines that take a part of a string: \<open>n\<close> bytes from the place \<open>k\<close> on.\<close>

lemma copy_part:
  assumes "dyn s d x" "smem_ok s" "\<forall>k. ok k" "text_at s e p xs" "fst p \<noteq> block_of x" "k + n \<le> length xs"
  shows "\<exists>s'. str_copy_r ok d (cut_length (int n)) (padd p (int k)) s = Ret (STR_NORMAL, s') \<and>
    resized d x (cut_length (int n)) (take n (drop k xs)) s s'"
proof -
  have "n < 65536" using assms(4,6) by (simp add: text_at_def)
  then have n: "unat (cut_length (int n)) = n" by (simp add: unat_cut_length)
  have "rd s (padd p (int k)) n = Ret (take n (drop k xs))"
    using assms(4,6) rd_drop [of s p "length xs" xs k n] by (simp add: text_at_def)
  then show ?thesis
    using copy_r_dyn [OF assms(1-3), of "padd p (int k)" "cut_length (int n)"] n assms(5) by (simp add: padd_def)
qed

lemma left_part:
  assumes "dyn s d x" "smem_ok s" "\<forall>k. ok k" "text_at s e p xs" "fst p \<noteq> block_of x" "0 \<le> k"
  shows "\<exists>s'. str_left ok d e k s = Ret (STR_NORMAL, s') \<and>
    resized d x (cut_length (min (int (length xs)) k)) (take (nat k) xs) s s'"
proof -
  have l: "length xs < 65536" "str_analyze_sdesc s e = Ret (of_nat (length xs), p)" using assms(4) by (simp_all add: text_at_def)
  have m: "min (int (length xs)) k = int (min (length xs) (nat k))" using assms(6) by auto
  have "as_int (min (int (length xs)) k) = min (int (length xs)) k"
    using l(1) assms(6) by (intro as_int_id) auto
  moreover have "take (min (length xs) (nat k)) xs = take (nat k) xs" by (simp add: min_def)
  ultimately show ?thesis
    using copy_part [OF assms(1-5), of 0 "min (length xs) (nat k)"] l m
    by (simp add: str_left_def uint_of_length padd_def)
qed

lemma right_part:
  assumes "dyn s d x" "smem_ok s" "\<forall>k. ok k" "text_at s e p xs" "fst p \<noteq> block_of x" "length xs = q + m" "0 < m"
  shows "\<exists>s'. str_right ok d e (int q + 1) s = Ret (if q = 0 then STR_STRTOOLON else STR_NORMAL, s') \<and>
    resized d x (cut_length (int m)) (drop q xs) s s'"
proof -
  have l: "q + m < 65536" "str_analyze_sdesc s e = Ret (of_nat (q + m), p)"
    using assms(4,6) by (simp_all add: text_at_def)
  have off: "as_int (int q) = int q" using l(1) by (intro as_int_id) auto
  obtain s' where s': "str_copy_r ok d (cut_length (int m)) (padd p (int q)) s = Ret (STR_NORMAL, s')"
      "resized d x (cut_length (int m)) (drop q xs) s s'"
    using copy_part [OF assms(1-5), of q m] assms(6) by auto
  then obtain x' where x': "dyn s' d x'" "dsc_w_length x' = cut_length (int m)"
    by (auto simp: resized_def)
  have same: "set_desc d (x'\<lparr>dsc_w_length := word_of_int (int m)\<rparr>) s' = s'"
    using x' by (cases x') (simp add: set_desc_def dyn_def cut_length_def fun_upd_idem)
  have u: "uint (of_nat (q + m) :: u16) = int (q + m)" using l(1) by (rule uint_of_length)
  have c: "(if int q \<le> 0 then 0 else int q) = int q" "\<not> int q + 1 > int (q + m)" "int (q + m) - int q = int m"
      "(int q \<le> 0) = (q = 0)" "\<not> int m < 0"
    using assms(7) by auto
  show ?thesis
    unfolding str_right_def Let_def l(2) bindo.simps prod.case u add_diff_cancel_right' off c(1,3)
    using c s' same dyn_desc [OF x'(1)] by (simp add: second_status_def)
qed

lemma pos_part:
  assumes "dyn s d x" "smem_ok s" "\<forall>k. ok k" "text_at s e p xs" "fst p \<noteq> block_of x" "q + m \<le> length xs"
  shows "\<exists>s'. str_pos_extr ok d e (int q + 1) (int (q + m)) s = Ret (STR_NORMAL, s') \<and>
    resized d x (cut_length (int m)) (take m (drop q xs)) s s'"
proof -
  have l: "length xs < 65536" "str_analyze_sdesc s e = Ret (of_nat (length xs), p)" using assms(4) by (simp_all add: text_at_def)
  have off: "as_int (int q + 1) = int q + 1" "as_int (int m) = int m" using l(1) assms(6) by (auto intro!: as_int_id)
  have fin: "(if int (length xs) - (int q + 1) + 1 > int m then int m else int (length xs) - (int q + 1) + 1) = int m"
    using assms(6) by auto
  show ?thesis
    using copy_part [OF assms(1-6)] l off fin
    by (auto simp: str_pos_extr_def Let_def uint_of_length second_status_def)
qed

lemma len_part:
  assumes "dyn s d x" "smem_ok s" "\<forall>k. ok k" "text_at s e p xs" "fst p \<noteq> block_of x" "q + m \<le> length xs"
  shows "\<exists>s'. str_len_extr ok d e (int q + 1) (int m) s = Ret (STR_NORMAL, s') \<and>
    resized d x (cut_length (int m)) (take m (drop q xs)) s s'"
proof -
  have l: "length xs < 65536" "str_analyze_sdesc s e = Ret (of_nat (length xs), p)" using assms(4) by (simp_all add: text_at_def)
  have off: "as_int (int q + 1) = int q + 1" "as_int (int m) = int m" using l(1) assms(6) by (auto intro!: as_int_id)
  have fin: "(if int m < int (length xs) - int q then int m else int (length xs) - int q) = int m"
    using assms(6) by auto
  show ?thesis
    using copy_part [OF assms(1-6)] l off fin
    by (auto simp: str_len_extr_def Let_def uint_of_length second_status_def)
qed

section \<open>Joining\<close>

lemma wr_dyn:
  assumes "dyn s d x" "smem_ok s" "val s d = Ret zs" "k + length ys \<le> length zs" "ys \<noteq> []"
  shows "\<exists>s'. wr (padd (dsc_a_pointer x) (int k)) ys s = Ret s' \<and> dyn s' d x \<and>
    val s' d = Ret (take k zs @ ys @ drop (k + length ys) zs) \<and> smem_ok s' \<and> descs s' = descs s \<and>
    next_block s' = next_block s \<and> (\<forall>j. j \<noteq> block_of x \<longrightarrow> blocks s' j = blocks s j)"
proof -
  have n0: "dsc_w_length x \<noteq> 0" using dyn_val [OF assms(1)] assms(3-5) by auto
  obtain b where b: "dsc_a_pointer x = (block_of x, 0)" "block_of x \<noteq> 0" "blocks s (block_of x) = Some b" "bk_heap b"
      "length (bk_bytes b) = unat (dsc_w_length x)"
    using dyn_block [OF assms(1) n0] by auto
  have zs: "bk_bytes b = zs" using dyn_val_bytes [OF assms(1) n0 b(3)] assms(3) by simp
  let ?zs = "take k zs @ ys @ drop (k + length ys) zs"
  let ?s' = "s\<lparr>blocks := (blocks s)(block_of x \<mapsto> b\<lparr>bk_bytes := ?zs\<rparr>)\<rparr>"
  have "wr (padd (dsc_a_pointer x) (int k)) ys s = Ret ?s'"
    using b zs assms(4,5) by (simp add: wr_def padd_def)
  moreover have "dyn ?s' d x \<and> val ?s' d = Ret ?zs"
    using dyn_filled [of d ?s' x "block_of x" "b\<lparr>bk_bytes := ?zs\<rparr>"] assms b zs n0 by (simp add: dyn_def)
  moreover have "smem_ok ?s'" using assms(2) b by (auto simp: smem_ok_def)
  ultimately show ?thesis by auto
qed

lemma dyn_resize: "dyn s d x \<Longrightarrow> str_resize ok d len s = str_get1_dx ok len d s"
  using dyn_class [of s d x] dyn_desc [of s d x] by (simp add: str_resize_def dsc_classes)

lemma append_text:
  assumes d: "dyn s d x" "val s d = Ret xs" and ok: "smem_ok s" "\<forall>k. ok k" and e: "text_at s e p ys" "fst p \<noteq> block_of x"
    and fits: "length xs + length ys < 65536"
  shows "\<exists>s'. str_append ok d e s = Ret (STR_NORMAL, s') \<and> resized d x (of_nat (length xs + length ys)) (xs @ ys) s s'"
proof -
  let ?n = "of_nat (length xs + length ys) :: u16"
  have an: "str_analyze_sdesc s d = Ret (of_nat (length xs), dsc_a_pointer x)"
      "str_analyze_sdesc s e = Ret (of_nat (length ys), p)" "rd s p (length ys) = Ret ys"
    using dyn_text_at [OF d] e(1) by (simp_all add: text_at_def)
  have u: "uint (of_nat (length xs) :: u16) = int (length xs)" "uint (of_nat (length ys) :: u16) = int (length ys)"
      "unat (of_nat (length ys) :: u16) = length ys" "unat ?n = length xs + length ys"
    using fits by (simp_all add: uint_of_length unat_of_nat del: of_nat_add)
  have w: "dsc_w_length x = of_nat (length xs)" using an(1) dyn_analyze [OF d(1)] by simp
  have app: "str_append ok d e s = bindo (str_get1_dx ok ?n d s) (\<lambda>(result, s).
      if result = STR_NORMAL then
        bindo (get_desc s d) (\<lambda>x.
        bindo (memcpy (padd (dsc_a_pointer x) (int (length xs))) p (length ys) s) (\<lambda>s.
          Ret (STR_NORMAL, set_desc d (x\<lparr>dsc_w_length := ?n\<rparr>) s)))
      else Ret (STR_FATINTERR, s))"
    using fits an u dyn_desc [OF d(1)] dyn_class [OF d(1)] dyn_resize [OF d(1)]
    by (simp add: str_append_def Let_def cong: if_cong)
  show ?thesis
  proof (cases "ys = []")
    case True
    then have "set_desc d (x\<lparr>dsc_w_length := ?n\<rparr>) s = s"
      using w d(1) by (cases x) (simp add: set_desc_def dyn_def fun_upd_idem)
    then show ?thesis
      using app True get1_dx_same [OF d(1)] w dyn_desc [OF d(1)] d ok
      by (auto simp: memcpy_def rd_def wr_def resized_def)
  next
    case False
    then have ne: "dsc_w_length x \<noteq> ?n"
      using w u(4) fits by (metis add_eq_self_zero length_0_conv u(1) uint_of_length of_nat_eq_iff unat_of_nat uint_nat)
    obtain s1 where s1: "str_get1_dx ok ?n d s = Ret (STR_NORMAL, s1)"
        "resized d x ?n (xs @ replicate (length ys) 0) s s1"
      using get1_dx_dyn [OF d(1) ok d(2) ne] u(4) by auto
    then obtain x' where x': "dyn s1 d x'" "dsc_w_length x' = ?n" "val s1 d = Ret (xs @ replicate (length ys) 0)"
        "smem_ok s1" "block_of x' = 0 \<or> block_of x' \<ge> next_block s"
      using ne by (auto simp: resized_def)
    obtain s2 where s2: "wr (padd (dsc_a_pointer x') (int (length xs))) ys s1 = Ret s2" "dyn s2 d x'" "val s2 d = Ret (xs @ ys)"
        "smem_ok s2" "descs s2 = descs s1" "next_block s2 = next_block s1" "\<forall>j. j \<noteq> block_of x' \<longrightarrow> blocks s2 j = blocks s1 j"
      using wr_dyn [OF x'(1,4,3), of "length xs" ys] False by auto
    have same: "set_desc d (x'\<lparr>dsc_w_length := ?n\<rparr>) s2 = s2"
      using s2(2) x'(2) by (cases x') (simp add: set_desc_def dyn_def fun_upd_idem)
    have "rd s1 p (length ys) = Ret ys"
      using resized_separate [OF s1(2) an(3) ok(1) e(2)] .
    then have "str_append ok d e s = Ret (STR_NORMAL, s2)"
      using app s1(1) s2(1) dyn_desc [OF x'(1)] same by (simp add: memcpy_def)
    moreover have "resized d x ?n (xs @ ys) s s2"
      by (rule resized_written [OF s1(2) ne d(1) ok(1) x'(1) s2(2-7)]) (use x' in auto)
    ultimately show ?thesis by blast
  qed
qed

section \<open>What other strings keep\<close>

lemma only_blocks: "only d k s s' \<Longrightarrow> smem_ok s \<Longrightarrow> j \<noteq> k \<Longrightarrow> blocks s j = Some b \<Longrightarrow> blocks s' j = Some b"
  unfolding only_def smem_ok_def by (metis linorder_not_le option.distinct(1))

lemma rd_only:
  assumes "rd s p n = Ret xs" "only d k s s'" "smem_ok s" "fst p \<noteq> k"
  shows "rd s' p n = Ret xs"
proof (cases "n = 0")
  case False
  then obtain b where "blocks s (fst p) = Some b" using assms(1) by (auto simp: rd_def split: option.splits)
  then show ?thesis
    using assms(1) only_blocks [OF assms(2-4)] by (simp add: rd_def split: if_splits)
qed (use assms(1) in \<open>simp add: rd_def\<close>)

lemma text_at_only:
  assumes t: "text_at s e p xs" and o: "only d k s s'" "smem_ok s" "e \<noteq> d" "fst p \<noteq> k"
  shows "text_at s' e p xs"
proof -
  have desc: "get_desc s' e = get_desc s e" using o by (simp add: get_desc_def only_def)
  then have cls: "is_string_class s' e = is_string_class s e" by (simp add: is_string_class_def)
  obtain x where x: "get_desc s e = Ret x" "desc_text s x = Ret (of_nat (length xs), p)"
    using t by (auto simp: text_at_def str_analyze_sdesc_def)
  have "desc_text s' x = Ret (of_nat (length xs), p)"
  proof (cases "dsc_b_class x = DSC_K_CLASS_VS")
    case True
    then obtain c ys where c: "rd s (padd (dsc_a_pointer x) 0) 1 = Ret ys" "c = hd ys" "p = padd (dsc_a_pointer x) 2"
      using x(2) by (auto simp: desc_text_def rd_byte_def Let_def)
    have "fst (padd (dsc_a_pointer x) 0) \<noteq> k" using c(3) o(4) by (simp add: padd_def)
    from rd_only [OF c(1) o(1,2) this] show ?thesis
      using c(1) x(2) True by (simp add: desc_text_def rd_byte_def)
  next
    case False
    then show ?thesis using x(2) by (simp add: desc_text_def)
  qed
  then have "str_analyze_sdesc s' e = str_analyze_sdesc s e"
    using x desc cls by (simp add: str_analyze_sdesc_def)
  then show ?thesis
    using t rd_only [OF _ o(1,2,4)] by (auto simp: text_at_def)
qed

lemma dyn_only:
  assumes d: "dyn s d x" and o: "only e k s s'" "smem_ok s" "d \<noteq> e" "block_of x \<noteq> k \<or> block_of x = 0"
  shows "dyn s' d x \<and> val s' d = val s d"
proof (cases "dsc_w_length x = 0")
  case True
  have "d \<noteq> 0" "descs s' d = Some x" "dsc_b_class x = DSC_K_CLASS_D" "dsc_a_pointer x = NULLP"
    using d o(1,3) True dyn_null [OF d] by (auto simp: dyn_def only_def)
  then show ?thesis
    using dyn_empty [of d s' x] dyn_empty [of d s x] True d by (simp add: dyn_def)
next
  case False
  obtain b where b: "dsc_a_pointer x = (block_of x, 0)" "block_of x \<noteq> 0" "blocks s (block_of x) = Some b" "bk_heap b"
      "length (bk_bytes b) = unat (dsc_w_length x)"
    using dyn_block [OF d False] by auto
  have "blocks s' (block_of x) = Some b" using only_blocks [OF o(1,2) _ b(3)] o(4) b(2) by auto
  then show ?thesis
    using dyn_filled [of d s' x "block_of x" b] d o(1,3) b False dyn_val_bytes [OF d False b(3)]
    by (simp add: dyn_def only_def)
qed

lemma resized_other:
  assumes "resized d x len xs s s'" "smem_ok s" "dyn s e y" "e \<noteq> d" "block_of y \<noteq> block_of x \<or> block_of y = 0"
  shows "dyn s' e y \<and> val s' e = val s e"
  by (rule dyn_only [OF assms(3) _ assms(2,4,5)]) (use assms(1) in \<open>simp add: resized_def\<close>)

lemma resized_text:
  assumes "resized d x len xs s s'" "smem_ok s" "text_at s e p ys" "e \<noteq> d" "fst p \<noteq> block_of x"
  shows "text_at s' e p ys"
  by (rule text_at_only [OF assms(3) _ assms(2,4,5)]) (use assms(1) in \<open>simp add: resized_def\<close>)

lemma split_and_append:
  assumes ok: "smem_ok s" "\<forall>k. ok k" and ab: "dyn s a x" "dyn s b y" "a \<noteq> b" "block_of x \<noteq> block_of y \<or> block_of x = 0"
    and e: "text_at s e p xs" "e \<noteq> a" "e \<noteq> b" "fst p \<noteq> block_of x" "fst p \<noteq> block_of y"
    and xs: "length xs = q + m" "0 < m"
  shows "\<exists>s1 s2 s3. str_left ok a e (int q) s = Ret (STR_NORMAL, s1) \<and> val s1 a = Ret (take q xs) \<and>
    str_right ok b e (int q + 1) s1 = Ret (if q = 0 then STR_STRTOOLON else STR_NORMAL, s2) \<and> val s2 b = Ret (drop q xs) \<and>
    str_append ok a b s2 = Ret (STR_NORMAL, s3) \<and> val s3 a = Ret xs"
proof -
  have len: "q + m < 65536" using e(1) xs(1) by (simp add: text_at_def)
  obtain s1 where s1: "str_left ok a e (int q) s = Ret (STR_NORMAL, s1)"
      "resized a x (cut_length (min (int (length xs)) (int q))) (take q xs) s s1"
    using left_part [OF ab(1) ok e(1,4), of "int q"] by auto
  then obtain x' where x': "dyn s1 a x'" "val s1 a = Ret (take q xs)" "smem_ok s1" "next_block s \<le> next_block s1"
      "block_of x' = block_of x \<or> block_of x' = 0 \<or> block_of x' \<ge> next_block s"
    by (auto simp: resized_def only_def)
  have y: "dyn s1 b y" using resized_other [OF s1(2) ok(1) ab(2)] ab(3,4) by auto
  have e1: "text_at s1 e p xs" by (rule resized_text [OF s1(2) ok(1) e(1,2,4)])
  obtain s2 where s2: "str_right ok b e (int q + 1) s1 = Ret (if q = 0 then STR_STRTOOLON else STR_NORMAL, s2)"
      "resized b y (cut_length (int m)) (drop q xs) s1 s2"
    using right_part [OF y x'(3) ok(2) e1 e(5) xs] by auto
  then obtain y' where y': "dyn s2 b y'" "val s2 b = Ret (drop q xs)" "smem_ok s2" "dsc_w_length y' = cut_length (int m)"
      "block_of y' = block_of y \<or> block_of y' = 0 \<or> block_of y' \<ge> next_block s1"
    by (auto simp: resized_def)
  have "unat (dsc_w_length y') = m" using y'(4) len by (simp add: unat_cut_length)
  then have y0: "block_of y' \<noteq> 0" using xs(2) dyn_block_0 [OF y'(1)] by auto
  have "block_of x' \<noteq> block_of y \<or> block_of x' = 0"
    using x'(5) ab(4) dyn_block_less [OF ab(2) ok(1)] by auto
  then have a2: "dyn s2 a x'" "val s2 a = Ret (take q xs)"
    using resized_other [OF s2(2) x'(3) x'(1) ab(3)] x'(2) by auto
  have "block_of y' \<noteq> block_of x'"
    using y'(5) y0 \<open>block_of x' \<noteq> block_of y \<or> block_of x' = 0\<close> dyn_block_less [OF x'(1,3)] by auto
  then obtain s3 where "str_append ok a b s2 = Ret (STR_NORMAL, s3)"
      "resized a x' (of_nat (length (take q xs) + length (drop q xs))) (take q xs @ drop q xs) s2 s3"
    using append_text [OF a2 y'(3) ok(2) dyn_text_at [OF y'(1,2)]] len xs by (auto simp: block_of_def)
  then have "str_append ok a b s2 = Ret (STR_NORMAL, s3)" "val s3 a = Ret xs" by (auto simp: resized_def)
  then show ?thesis using s1(1) x'(2) s2(1) y'(2) by blast
qed

section \<open>Copying into fixed strings\<close>

lemma wr_text:
  assumes "rd s p n = Ret old" "k + length zs \<le> n"
  shows "\<exists>s'. wr (padd p (int k)) zs s = Ret s' \<and> rd s' p n = Ret (take k old @ zs @ drop (k + length zs) old) \<and>
    descs s' = descs s \<and> (\<forall>j. j \<noteq> fst p \<longrightarrow> blocks s' j = blocks s j)"
proof (cases "zs = []")
  case True
  then show ?thesis using assms by (simp add: wr_def)
next
  case False
  then obtain b where b: "blocks s (fst p) = Some b" "0 \<le> snd p" "nat (snd p) + n \<le> length (bk_bytes b)" "0 < n"
      "old = take n (drop (nat (snd p)) (bk_bytes b))"
    using assms by (auto simp: rd_def split: option.splits if_splits)
  let ?o = "nat (snd p)"
  let ?B = "take (?o + k) (bk_bytes b) @ zs @ drop (?o + k + length zs) (bk_bytes b)"
  let ?s' = "s\<lparr>blocks := (blocks s)(fst p \<mapsto> b\<lparr>bk_bytes := ?B\<rparr>)\<rparr>"
  have "wr (padd p (int k)) zs s = Ret ?s'"
    using b False assms(2) by (simp add: wr_def padd_def nat_add_distrib)
  moreover have "rd ?s' p n = Ret (take k old @ zs @ drop (k + length zs) old)"
  proof -
    define us vs where "us = take ?o (bk_bytes b)" and "vs = drop (?o + n) (bk_bytes b)"
    have B: "bk_bytes b = us @ old @ vs" "length us = ?o" "length old = n"
      using b(3,5) by (simp_all add: us_def vs_def) (metis append_take_drop_id drop_drop add.commute)
    have "?B = us @ (take k old @ zs @ drop (k + length zs) old) @ vs"
      unfolding B(1) using assms(2) B(3) by (simp flip: B(2))
    moreover have "length (take k old @ zs @ drop (k + length zs) old) = n" using B(3) assms(2) by simp
    then have "take n (drop ?o (us @ (take k old @ zs @ drop (k + length zs) old) @ vs)) = take k old @ zs @ drop (k + length zs) old"
      using B(2) by (metis append_eq_conv_conj)
    moreover have "length ?B = length (bk_bytes b)" using b(3) assms(2) by simp
    then have "rd ?s' p n = Ret (take n (drop ?o ?B))"
      using b(2,3,4) by (simp add: rd_def)
    ultimately show ?thesis by presburger
  qed
  ultimately show ?thesis by auto
qed

text \<open>A text filled with blanks to a length.\<close>

definition padded :: "nat \<Rightarrow> u8 list \<Rightarrow> u8 list" where
  "padded n xs = xs @ replicate (n - length xs) 32"

text \<open>A string of class S, with its text in memory.\<close>

definition fixed :: "smem \<Rightarrow> nat \<Rightarrow> sdesc \<Rightarrow> bool" where
  "fixed s d x \<longleftrightarrow> d \<noteq> 0 \<and> descs s d = Some x \<and> dsc_b_class x = DSC_K_CLASS_S \<and> dsc_a_pointer x \<noteq> NULLP \<and>
     (\<exists>old. rd s (dsc_a_pointer x) (unat (dsc_w_length x)) = Ret old)"

lemma fixed_analyze:
  assumes "d \<noteq> 0" "descs s d = Some x" "dsc_b_class x = DSC_K_CLASS_S" "dsc_a_pointer x \<noteq> NULLP"
  shows "is_string_class s d = Ret STR_NORMAL \<and> str_analyze_sdesc s d = Ret (dsc_w_length x, dsc_a_pointer x) \<and>
    str_resize ok d len s = Ret (STR_NORMAL, s)"
  using assms
  by (simp add: is_string_class_def str_analyze_sdesc_def get_desc_def desc_text_def str_resize_def dsc_classes)

lemma copy_fixed:
  assumes d: "fixed s d x" and src: "rd s src (length ys) = Ret ys" "src \<noteq> NULLP" "length ys < 65536"
    and sep: "fst src \<noteq> fst (dsc_a_pointer x)"
  shows "\<exists>s'. str_copy_r ok d (of_nat (length ys)) src s =
      Ret (if length ys > unat (dsc_w_length x) then STR_TRU else STR_NORMAL, s') \<and> fixed s' d x \<and>
    val s' d = Ret (take (unat (dsc_w_length x)) (padded (unat (dsc_w_length x)) ys)) \<and> descs s' = descs s \<and>
    (\<forall>j. j \<noteq> fst (dsc_a_pointer x) \<longrightarrow> blocks s' j = blocks s j)"
proof -
  let ?dst = "dsc_a_pointer x" and ?L = "unat (dsc_w_length x)"
  obtain m where m: "min ?L (length ys) = m" "m \<le> ?L" "m \<le> length ys" "m = ?L \<or> m = length ys" by (simp add: min_def)
  obtain old where x: "d \<noteq> 0" "descs s d = Some x" "dsc_b_class x = DSC_K_CLASS_S" "?dst \<noteq> NULLP" "rd s ?dst ?L = Ret old"
    using d by (auto simp: fixed_def)
  have len: "length (take m ys) = m" "length old = ?L" using m(3) rd_length [OF x(5)] by simp_all
  obtain s1 where s1: "wr ?dst (take m ys) s = Ret s1" "rd s1 ?dst ?L = Ret (take m ys @ drop m old)"
      "descs s1 = descs s" "\<forall>j. j \<noteq> fst ?dst \<longrightarrow> blocks s1 j = blocks s j"
    using wr_text [OF x(5), of 0 "take m ys"] len m(2) by (auto simp: padd_def)
  have "take m (take m ys @ drop m old) = take m ys" "drop (m + (?L - m)) (take m ys @ drop m old) = []"
    using len m(2) by simp_all
  then obtain s2 where s2: "wr (padd ?dst (int m)) (replicate (?L - m) 32) s1 = Ret s2"
      "rd s2 ?dst ?L = Ret (take m ys @ replicate (?L - m) 32)"
      "descs s2 = descs s1" "\<forall>j. j \<noteq> fst ?dst \<longrightarrow> blocks s2 j = blocks s1 j"
    using wr_text [OF s1(2), of m "replicate (?L - m) 32"] m(2) by auto
  have yl: "unat (of_nat (length ys) :: u16) = length ys" using src(3) by (simp add: unat_of_nat)
  have u: "unat (min (dsc_w_length x) (of_nat (length ys))) = m" "(of_nat (length ys) :: u16) > dsc_w_length x \<longleftrightarrow> length ys > ?L"
    using m(1) by (simp_all add: min_def word_le_nat_alt word_less_nat_alt yl split: if_splits)
  have ui: "uint (min (dsc_w_length x) (of_nat (length ys))) = int m" unfolding uint_nat u(1) ..
  have "memcpy ?dst src m s = Ret s1"
    using rd_take [OF src(1) m(3)] s1(1) by (simp add: memcpy_def)
  then have "copy_fill ?dst (dsc_w_length x) src (of_nat (length ys)) 32 s =
      Ret (if length ys > ?L then STR_TRU else STR_NORMAL, s2)"
    using src(2) s2(1) by (simp add: copy_fill_def Let_def u ui)
  then have cp: "str_copy_r ok d (of_nat (length ys)) src s = Ret (if length ys > ?L then STR_TRU else STR_NORMAL, s2)"
    using src(2) fixed_analyze [OF x(1-4)] by (simp add: str_copy_r_def Let_def)
  have "take m ys @ replicate (?L - m) 32 = take ?L (padded ?L ys)"
    using m by (auto simp: padded_def)
  moreover have "fixed s2 d x" using s2 s1(3) x by (simp add: fixed_def)
  moreover have "val s2 d = Ret (take m ys @ replicate (?L - m) 32)"
    using s2(2,3) s1(3) x fixed_analyze [OF x(1) _ x(3,4), of s2] by (simp add: val_def)
  ultimately show ?thesis using cp s2(3,4) s1(3,4) by auto
qed

section \<open>Comparing\<close>

lemma cmp_bytes_append:
  "length xs = length ys \<Longrightarrow> cmp_bytes (xs @ us) (ys @ vs) = (if xs = ys then cmp_bytes us vs else cmp_bytes xs ys)"
  by (induction xs ys rule: list_induct2) auto

lemma cmp_bytes_0: "length xs = length ys \<Longrightarrow> cmp_bytes xs ys = 0 \<longleftrightarrow> xs = ys"
  by (induction xs ys rule: list_induct2) (auto simp: word_uint_eq_iff [symmetric])

lemma cmp_bytes_swap: "cmp_bytes xs ys = - cmp_bytes ys xs"
  by (induction xs ys rule: cmp_bytes.induct) auto

lemma cmp_blanks: "\<forall>c \<in> set ys. 32 \<le> c \<Longrightarrow> sgn (cmp_bytes (replicate (length ys) 32) ys) = (if \<forall>c \<in> set ys. c = 32 then 0 else - 1)"
proof (induction ys)
  case (Cons c ys)
  have "c \<noteq> 32 \<Longrightarrow> uint c > 32" using Cons.prems by (auto simp: order_le_less word_less_def)
  then show ?case using Cons by auto
qed simp

lemma normalize_sgn: "normalize r = sgn r"
  by (auto simp: normalize_def sgn_if)

lemma blank_loop_text:
  assumes "rd s p (k + n) = Ret xs"
  shows "blank_loop s p (int k) n v = Ret (if \<forall>c \<in> set (drop k xs). c = 32 then 0 else v)"
  using assms
proof (induction n arbitrary: k)
  case 0
  then show ?case using rd_length [of s p k xs] by simp
next
  case (Suc n)
  have l: "length xs = Suc (k + n)" using rd_length [OF Suc.prems] by simp
  have "rd_byte s p (int k) = Ret (xs ! k)" using rd_byte_nth [OF Suc.prems, of k] by simp
  moreover have "drop k xs = xs ! k # drop (Suc k) xs" using l by (simp add: Cons_nth_drop_Suc)
  ultimately show ?case using Suc.IH [of "Suc k"] Suc.prems by (simp add: add.commute)
qed

lemma memcmp_text:
  "rd s p n = Ret xs \<Longrightarrow> rd s q n = Ret ys \<Longrightarrow> memcmp s p q n = Ret (cmp_bytes xs ys)"
  by (simp add: memcmp_def)

lemma compare_shorter:
  assumes "length xs \<le> length ys" "\<forall>c \<in> set ys. 32 \<le> c"
  shows "sgn (cmp_bytes xs (take (length xs) ys)) = r \<Longrightarrow>
    (if r \<noteq> 0 then r else if \<forall>c \<in> set (drop (length xs) ys). c = 32 then 0 else - 1) =
    sgn (cmp_bytes (padded (length ys) xs) ys)"
proof -
  let ?n = "length xs"
  have "ys = take ?n ys @ drop ?n ys" by simp
  then have "cmp_bytes (padded (length ys) xs) ys = (if xs = take ?n ys then
      cmp_bytes (replicate (length (drop ?n ys)) 32) (drop ?n ys) else cmp_bytes xs (take ?n ys))"
    using cmp_bytes_append [of xs "take ?n ys" "replicate (length ys - ?n) 32" "drop ?n ys"] assms(1)
    by (simp add: padded_def)
  moreover have "\<forall>c \<in> set (drop ?n ys). 32 \<le> c" using assms(2) by (meson in_set_dropD)
  moreover have "cmp_bytes xs (take ?n ys) = 0 \<longleftrightarrow> xs = take ?n ys" using assms(1) by (intro cmp_bytes_0) simp
  ultimately show "sgn (cmp_bytes xs (take ?n ys)) = r \<Longrightarrow> ?thesis"
    using cmp_blanks [of "drop ?n ys"] by (auto simp: sgn_eq_0_iff)
qed

lemma compare_text:
  assumes "text_at s d1 p xs" "text_at s d2 q ys"
  shows "str_compare s d1 d2 = Ret (let m = min (length xs) (length ys); r = sgn (cmp_bytes (take m xs) (take m ys)) in
    if r \<noteq> 0 then r
    else if length xs < length ys then (if \<forall>c \<in> set (drop m ys). c = 32 then 0 else - 1)
    else (if \<forall>c \<in> set (drop m xs). c = 32 then 0 else 1))"
proof -
  let ?m = "min (length xs) (length ys)"
  have l: "length xs < 65536" "length ys < 65536"
    and an: "str_analyze_sdesc s d1 = Ret (of_nat (length xs), p)" "str_analyze_sdesc s d2 = Ret (of_nat (length ys), q)"
    and rd: "rd s p (length xs) = Ret xs" "rd s q (length ys) = Ret ys"
    using assms by (simp_all add: text_at_def)
  have w: "min (of_nat (length xs)) (of_nat (length ys)) = (of_nat ?m :: u16)"
      "(of_nat (length xs) :: u16) < of_nat (length ys) \<longleftrightarrow> length xs < length ys"
    using l by (auto simp: min_def word_less_nat_alt word_le_nat_alt unat_of_nat)
  have u: "unat (of_nat ?m :: u16) = ?m" "unat (of_nat (length xs) :: u16) = length xs"
      "unat (of_nat (length ys) :: u16) = length ys" "uint (of_nat ?m :: u16) = int ?m"
    using l by (simp_all add: unat_of_nat uint_of_length)
  have z: "(of_nat ?m :: u16) = 0 \<longleftrightarrow> ?m = 0" by (metis u(1) unat_eq_0)
  have mc: "(if (of_nat ?m :: u16) \<noteq> 0 then memcmp s p q ?m else Ret 0) = Ret (cmp_bytes (take ?m xs) (take ?m ys))"
    using memcmp_text [OF rd_take [OF rd(1)] rd_take [OF rd(2)], of ?m] z by auto
  have bl: "blank_loop s q (int ?m) (length ys - ?m) (- 1) = Ret (if \<forall>c \<in> set (drop ?m ys). c = 32 then 0 else - 1)"
      "blank_loop s p (int ?m) (length xs - ?m) 1 = Ret (if \<forall>c \<in> set (drop ?m xs). c = 32 then 0 else 1)"
    by (rule blank_loop_text, simp add: rd)+
  show ?thesis
    unfolding str_compare_def an bindo.simps prod.case Let_def w u mc bl
    by (auto simp: normalize_sgn sgn_eq_0_iff)
qed

lemma compare_padded_texts:
  assumes "text_at s d1 p xs" "text_at s d2 q ys" "\<forall>c \<in> set xs \<union> set ys. 32 \<le> c"
  shows "str_compare s d1 d2 = Ret (sgn (cmp_bytes (padded (length ys) xs) (padded (length xs) ys)))"
proof (cases "length xs < length ys")
  case True
  then show ?thesis
    using compare_text [OF assms(1,2)] compare_shorter [of xs ys, OF _ _ refl] assms(3)
    by (auto simp: Let_def padded_def min_def split: if_splits)
next
  case False
  have sw: "sgn (cmp_bytes us vs) = - sgn (cmp_bytes vs us)" for us vs by (subst cmp_bytes_swap) (simp add: sgn_minus)
  show ?thesis
    using False compare_text [OF assms(1,2)] compare_shorter [of ys xs, OF _ _ refl] assms(3)
      sw [of xs "padded (length xs) ys"] sw [of "take (length ys) xs" ys]
    by (auto simp: Let_def padded_def min_def split: if_splits)
qed

section \<open>Searching\<close>

lemma text_byte: "text_at s d p xs \<Longrightarrow> k < length xs \<Longrightarrow> rd_byte s p (int k) = Ret (xs ! k)"
  unfolding text_at_def using rd_byte_nth by blast

lemma place_loop_text:
  assumes "rd s p (length xs) = Ret xs" "rd s q (length ys) = Ret ys"
  shows "h + length ys \<le> length xs + 1 \<Longrightarrow> place_loop s p q (length ys) (int i) (int h - 1) =
    Ret (case find (\<lambda>j. take (length ys) (drop j xs) = ys) [i ..< h] of None \<Rightarrow> 0 | Some j \<Rightarrow> int j + 1)"
proof (induction "h - i" arbitrary: i)
  case 0
  then show ?case by (subst place_loop.simps) simp
next
  case (Suc n)
  have fits: "i + length ys \<le> length xs" "i < h" using Suc.hyps(2) Suc.prems by auto
  have "memcmp s (padd p (int i)) q (length ys) = Ret (cmp_bytes (take (length ys) (drop i xs)) ys)"
    using rd_drop [OF assms(1), of i "length ys"] fits(1) assms(2) by (intro memcmp_text) auto
  moreover have "cmp_bytes (take (length ys) (drop i xs)) ys = 0 \<longleftrightarrow> take (length ys) (drop i xs) = ys"
    using fits(1) by (intro cmp_bytes_0) simp
  moreover have "[i ..< h] = i # [Suc i ..< h]" using fits(2) by (rule upt_conv_Cons)
  ultimately show ?case
    using Suc.hyps(1) [of "Suc i"] Suc.hyps(2) Suc.prems fits(2)
    by (subst place_loop.simps) (simp add: add.commute)
qed

definition place_from :: "u8 list \<Rightarrow> u8 list \<Rightarrow> nat \<Rightarrow> int" where
  "place_from xs ys i = (case find (\<lambda>j. take (length ys) (drop j xs) = ys) [i ..< length xs + 1 - length ys]
     of None \<Rightarrow> 0 | Some j \<Rightarrow> int j + 1)"

lemma place_loop_from:
  assumes "rd s p (length xs) = Ret xs" "rd s q (length ys) = Ret ys"
  shows "place_loop s p q (length ys) (int i) (int (length xs) - int (length ys)) = Ret (place_from xs ys i)"
proof (cases "length ys \<le> length xs")
  case True
  then have "int (length xs) - int (length ys) = int (length xs + 1 - length ys) - 1" by auto
  then show ?thesis
    using place_loop_text [OF assms, of "length xs + 1 - length ys" i] True by (simp add: place_from_def)
next
  case False
  then show ?thesis by (subst place_loop.simps) (simp add: place_from_def)
qed

lemma position_text:
  assumes "text_at s d1 p xs" "text_at s d2 q ys" "xs \<noteq> []" "ys \<noteq> []" "1 \<le> start"
  shows "str_position s d1 d2 start = Ret (place_from xs ys (nat (min start (int (length xs)) - 1)))"
proof -
  have l: "length xs < 65536" "length ys < 65536"
    and an: "str_analyze_sdesc s d1 = Ret (of_nat (length xs), p)" "str_analyze_sdesc s d2 = Ret (of_nat (length ys), q)"
    and rd: "rd s p (length xs) = Ret xs" "rd s q (length ys) = Ret ys"
    using assms by (simp_all add: text_at_def)
  have u: "unat (of_nat (length ys) :: u16) = length ys" "uint (of_nat (length ys) :: u16) = int (length ys)"
      "uint (of_nat (length xs) :: u16) = int (length xs)" "(of_nat (length ys) :: u16) \<noteq> 0"
    using l assms(4) by (simp_all add: unat_of_nat uint_of_length) (metis length_0_conv unat_0 unat_of_nat of_nat_eq_0_iff uint_0_eq uint_of_length)
  have st: "(if (if start < 0 then 0 else start) > int (length xs) then int (length xs) else (if start < 0 then 0 else start)) - 1
      = int (nat (min start (int (length xs)) - 1))"
    using assms(3,5) by (cases xs) auto
  show ?thesis
    unfolding str_position_def an bindo.simps prod.case Let_def u st
    by (simp only: u(4) simp_thms if_False place_loop_from [OF rd])
qed

text \<open>\<open>ys\<close> stands at the place \<open>j\<close> of \<open>xs\<close>, counted from 0.\<close>

definition occurs :: "u8 list \<Rightarrow> u8 list \<Rightarrow> nat \<Rightarrow> bool" where
  "occurs xs ys j \<longleftrightarrow> (\<exists>us vs. xs = us @ ys @ vs \<and> length us = j)"

lemma occurs_take: "occurs xs ys j \<longleftrightarrow> j + length ys \<le> length xs \<and> take (length ys) (drop j xs) = ys"
proof
  assume h: "j + length ys \<le> length xs \<and> take (length ys) (drop j xs) = ys"
  then have "xs = take j xs @ ys @ drop (length ys) (drop j xs)"
    by (metis append_take_drop_id)
  moreover have "length (take j xs) = j" using h by simp
  ultimately show "occurs xs ys j" unfolding occurs_def by blast
qed (auto simp: occurs_def)

lemma place_from_first:
  "if place_from xs ys i = 0 then \<forall>j \<ge> i. \<not> occurs xs ys j
   else \<exists>j. place_from xs ys i = int j + 1 \<and> i \<le> j \<and> occurs xs ys j \<and> (\<forall>k. i \<le> k \<and> k < j \<longrightarrow> \<not> occurs xs ys k)"
proof -
  let ?P = "\<lambda>j. take (length ys) (drop j xs) = ys"
  let ?h = "length xs + 1 - length ys"
  show ?thesis
  proof (cases "find ?P [i ..< ?h]")
    case None
    then have "\<not> ?P j" if "i \<le> j" "j < ?h" for j using that by (auto simp: find_None_iff)
    then show ?thesis using None by (force simp: place_from_def occurs_take)
  next
    case (Some j)
    then obtain n where n: "n < ?h - i" "j = i + n" "?P j" "\<And>m. m < n \<Longrightarrow> \<not> ?P (i + m)"
      by (auto simp: find_Some_iff)
    have "\<not> occurs xs ys k" if "i \<le> k" "k < j" for k
      using n(4) [of "k - i"] that n(2) by (auto simp: occurs_take)
    moreover have "occurs xs ys j" "i \<le> j" using n by (auto simp: occurs_take)
    moreover have "place_from xs ys i = int j + 1" using Some by (simp add: place_from_def)
    ultimately show ?thesis by auto
  qed
qed

lemma matchc_text:
  assumes "text_at s d1 p ys" "text_at s d2 q xs" "ys \<noteq> []" "xs \<noteq> []"
  shows "lib_matchc s d1 d2 = Ret (place_from xs ys 0)"
proof -
  have l: "length xs < 65536" "length ys < 65536"
    and an: "str_analyze_sdesc s d2 = Ret (of_nat (length xs), q)" "str_analyze_sdesc s d1 = Ret (of_nat (length ys), p)"
    and rd: "rd s q (length xs) = Ret xs" "rd s p (length ys) = Ret ys"
    using assms by (simp_all add: text_at_def)
  have u: "unat (of_nat (length ys) :: u16) = length ys" "uint (of_nat (length ys) :: u16) = int (length ys)"
      "uint (of_nat (length xs) :: u16) = int (length xs)"
    using l by (simp_all add: unat_of_nat uint_of_length)
  have z: "(of_nat (length ys) :: u16) \<noteq> 0" "(of_nat (length xs) :: u16) \<noteq> 0"
    using l assms(3,4) u(1) by (metis length_0_conv unat_0, metis length_0_conv u(3) uint_0_eq of_nat_eq_0_iff)
  show ?thesis
    unfolding lib_matchc_def an bindo.simps prod.case u
    using place_loop_from [OF rd, of 0] z by simp
qed

text \<open>The searches for characters of a set.\<close>

lemma among_loop_text:
  "rd s q (k + n) = Ret ys \<Longrightarrow> among_loop s c q (int k) n = Ret (c \<in> set (drop k ys))"
proof (induction n arbitrary: k)
  case 0
  then show ?case using rd_length by fastforce
next
  case (Suc n)
  have l: "length ys = Suc (k + n)" using rd_length [OF Suc.prems] by simp
  have "rd_byte s q (int k) = Ret (ys ! k)" using rd_byte_nth [OF Suc.prems, of k] by simp
  moreover have "drop k ys = ys ! k # drop (Suc k) ys" using l by (simp add: Cons_nth_drop_Suc)
  ultimately show ?case using Suc.IH [of "Suc k"] Suc.prems by (simp add: add.commute)
qed

lemma in_set_loop_text:
  assumes "rd s p (length xs) = Ret xs" "rd s q (length ys) = Ret ys"
  shows "k \<le> length xs \<Longrightarrow> in_set_loop s p (int k) (length xs - k) q (length ys) =
    Ret (case find (\<lambda>j. xs ! j \<in> set ys) [k ..< length xs] of None \<Rightarrow> 0 | Some j \<Rightarrow> int j + 1)"
proof (induction "length xs - k" arbitrary: k)
  case (Suc n)
  then have k: "k < length xs" "length xs - k = Suc (length xs - Suc k)" by auto
  have "rd_byte s p (int k) = Ret (xs ! k)" using rd_byte_nth [OF assms(1) k(1)] .
  moreover have "among_loop s (xs ! k) q 0 (length ys) = Ret (xs ! k \<in> set ys)"
    using among_loop_text [of s q 0 "length ys" ys "xs ! k"] assms(2) by simp
  moreover have "[k ..< length xs] = k # [Suc k ..< length xs]" using k(1) by (rule upt_conv_Cons)
  ultimately show ?case
    using Suc.hyps(1) [of "Suc k"] Suc.hyps(2) k by (simp add: add.commute)
qed simp

lemma find_first_in_set_text:
  assumes "text_at s d1 p xs" "text_at s d2 q ys"
  shows "str_find_first_in_set s d1 d2 =
    Ret (case find (\<lambda>j. xs ! j \<in> set ys) [0 ..< length xs] of None \<Rightarrow> 0 | Some j \<Rightarrow> int j + 1)"
proof -
  have l: "length xs < 65536" "length ys < 65536"
    and an: "str_analyze_sdesc s d1 = Ret (of_nat (length xs), p)" "str_analyze_sdesc s d2 = Ret (of_nat (length ys), q)"
    and rd: "rd s p (length xs) = Ret xs" "rd s q (length ys) = Ret ys"
    using assms by (simp_all add: text_at_def)
  have u: "unat (of_nat (length ys) :: u16) = length ys" "unat (of_nat (length xs) :: u16) = length xs"
    using l by (simp_all add: unat_of_nat)
  have none: "find (\<lambda>j. False) [0 ..< n] = None" for n :: nat by (induction n) (auto simp: find_None_iff)
  show ?thesis
    unfolding str_find_first_in_set_def an bindo.simps prod.case u
    using in_set_loop_text [OF rd, of 0] u none by (auto simp flip: unat_eq_0)
qed

text \<open>Trailing blanks and tabs.\<close>

lemma trim_loop_text:
  "rd s p (length xs) = Ret xs \<Longrightarrow> trim_loop s p (length xs) = Ret (length (rev (dropWhile (\<lambda>c. c = 32 \<or> c = 9) (rev xs))))"
proof (induction xs rule: rev_induct)
  case (snoc c xs)
  have "rd_byte s p (int (length xs)) = Ret c" using rd_byte_nth [OF snoc.prems, of "length xs"] by simp
  moreover have "rd s p (length xs) = Ret xs" using rd_take [OF snoc.prems, of "length xs"] by simp
  ultimately show ?case using snoc.IH by simp
qed simp

section \<open>Numbers\<close>

lemma cvt_loop_text:
  "rd s p (k + n) = Ret xs \<Longrightarrow> cvt_loop b digit good s p (int k) n answer status =
    Ret (if \<forall>c \<in> set (drop k xs). good c then status else 0,
         fold (\<lambda>c a. case digit c of None \<Rightarrow> a | Some v \<Rightarrow> a * b + v) (drop k xs) answer)"
proof (induction n arbitrary: k answer status)
  case 0
  then show ?case using rd_length by fastforce
next
  case (Suc n)
  have l: "length xs = Suc (k + n)" using rd_length [OF Suc.prems] by simp
  have "rd_byte s p (int k) = Ret (xs ! k)" using rd_byte_nth [OF Suc.prems, of k] by simp
  moreover have "drop k xs = xs ! k # drop (Suc k) xs" using l by (simp add: Cons_nth_drop_Suc)
  ultimately show ?case using Suc.IH [of "Suc k"] Suc.prems by (simp add: add.commute)
qed

section \<open>Properties\<close>

text \<open>Three fixed texts and two dynamic strings that are still empty, for the examples.\<close>

definition fixed_desc :: "nat \<Rightarrow> nat \<Rightarrow> sdesc" where
  "fixed_desc n k = \<lparr>dsc_w_length = of_nat n, dsc_b_class = DSC_K_CLASS_S, dsc_a_pointer = (k, 0)\<rparr>"

definition empty_desc :: sdesc where
  "empty_desc = \<lparr>dsc_w_length = 0, dsc_b_class = DSC_K_CLASS_D, dsc_a_pointer = NULLP\<rparr>"

definition example :: smem where
  "example = \<lparr>blocks = [1 \<mapsto> \<lparr>bk_heap = False, bk_bytes = [65, 66, 67, 66, 67]\<rparr>,
                        2 \<mapsto> \<lparr>bk_heap = False, bk_bytes = [66, 67]\<rparr>,
                        3 \<mapsto> \<lparr>bk_heap = False, bk_bytes = [66, 67, 32]\<rparr>],
              descs = [1 \<mapsto> fixed_desc 5 1, 2 \<mapsto> fixed_desc 2 2, 3 \<mapsto> fixed_desc 3 3, 4 \<mapsto> empty_desc, 5 \<mapsto> empty_desc],
              next_block = 4\<rparr>"

lemma example_texts:
  "text_at example 1 (1, 0) [65, 66, 67, 66, 67]"
  "text_at example 2 (2, 0) [66, 67]"
  "text_at example 3 (3, 0) [66, 67, 32]"
  by (simp_all add: text_at_def example_def fixed_desc_def str_analyze_sdesc_def is_string_class_def get_desc_def
      desc_text_def rd_def NULLP_def dsc_classes str_codes)

lemma example_dynamic: "dyn example 4 empty_desc" "dyn example 5 empty_desc" "smem_ok example"
  by (simp_all add: dyn_def smem_ok_def example_def empty_desc_def)



text \<open>C34: \<open>str$copy_dx\<close> gives the destination the text of the source. A dynamic string gets exactly the
  text and the length for it, when memory is not exhausted; a fixed string keeps its length, and the
  text is cut or filled with blanks, with the status \<open>STR$_TRU\<close> exactly when it was cut. Source and
  destination are in different memory.\<close>

theorem copy_reads_back:
  assumes "smem_ok s" "\<forall>k. ok k" "text_at s e p ys" "p \<noteq> NULLP" "fst p \<noteq> block_of x" "dyn s d x \<or> fixed s d x"
  shows "\<exists>s' xs. str_copy_dx ok d e s =
      Ret (if fixed s d x \<and> length ys > unat (dsc_w_length x) then STR_TRU else STR_NORMAL, s') \<and> val s' d = Ret xs \<and>
    xs = (if fixed s d x then take (unat (dsc_w_length x)) (padded (unat (dsc_w_length x)) ys) else ys)"
proof -
  have t: "length ys < 65536" "str_analyze_sdesc s e = Ret (of_nat (length ys), p)" "rd s p (length ys) = Ret ys"
    using assms(3) by (simp_all add: text_at_def)
  show ?thesis
  proof (cases "fixed s d x")
    case True
    then show ?thesis
      using copy_fixed [OF True t(3) assms(4) t(1), of ok] assms(5) t(2) by (auto simp: str_copy_dx_def block_of_def)
  next
    case False
    have "unat (of_nat (length ys) :: u16) = length ys" using t(1) by (simp add: unat_of_nat)
    then show ?thesis
      using copy_r_dyn [of s d x ok p "of_nat (length ys)" ys] assms False t by (auto simp: str_copy_dx_def resized_def)
  qed
qed

theorem copy_reads_back_witness:
  "\<exists>s'. str_copy_dx (\<lambda>k. True) 4 1 example = Ret (STR_NORMAL, s') \<and> val s' 4 = Ret [65, 66, 67, 66, 67]"
proof -
  have "\<not> fixed example 4 empty_desc" by (simp add: fixed_def empty_desc_def)
  then show ?thesis
    using copy_reads_back [OF example_dynamic(3) _ example_texts(1), of "\<lambda>k. True" empty_desc 4] example_dynamic(1)
    by (simp add: block_of_def empty_desc_def NULLP_def)
qed

text \<open>C35: \<open>str$compare\<close> compares two texts as if the shorter one were filled with blanks to the length of
  the other: on texts without characters below the blank the result is the sign of the first
  difference of the filled texts, with bytes as unsigned numbers.\<close>

theorem compare_padded:
  assumes "text_at s d1 p xs" "text_at s d2 q ys" "\<forall>c \<in> set xs \<union> set ys. 32 \<le> c"
  shows "str_compare s d1 d2 = Ret (sgn (cmp_bytes (padded (length ys) xs) (padded (length xs) ys)))"
  using assms by (rule compare_padded_texts)

theorem compare_padded_witness:
  "str_compare example 2 3 = Ret 0 \<and> str_compare example 1 2 = Ret (- 1)"
  using compare_padded [OF example_texts(2,3)] compare_padded [OF example_texts(1,2)] by (simp add: padded_def)



section \<open>Where the routines do something else\<close>

definition filled_desc :: "nat \<Rightarrow> nat \<Rightarrow> sdesc" where
  "filled_desc n k = \<lparr>dsc_w_length = of_nat n, dsc_b_class = DSC_K_CLASS_D, dsc_a_pointer = (k, 0)\<rparr>"

text \<open>Two dynamic strings, a varying string of 200 characters and the digits \<open>10\<close>.\<close>

definition example2 :: smem where
  "example2 = \<lparr>blocks = [1 \<mapsto> \<lparr>bk_heap = True, bk_bytes = [65, 66, 67]\<rparr>,
                         2 \<mapsto> \<lparr>bk_heap = True, bk_bytes = [65, 66, 67, 9]\<rparr>,
                         3 \<mapsto> \<lparr>bk_heap = False, bk_bytes = 200 # 0 # replicate 200 65\<rparr>,
                         4 \<mapsto> \<lparr>bk_heap = False, bk_bytes = [49, 48]\<rparr>],
               descs = [1 \<mapsto> filled_desc 3 1, 2 \<mapsto> filled_desc 4 2,
                        3 \<mapsto> \<lparr>dsc_w_length = 200, dsc_b_class = DSC_K_CLASS_VS, dsc_a_pointer = (3, 0)\<rparr>,
                        4 \<mapsto> fixed_desc 2 4],
               next_block = 5\<rparr>"

text \<open>A dynamic string that is its own source is read after its memory was freed.\<close>

lemma left_of_itself: "bindo (str_left (\<lambda>k. True) 1 1 2 example2) (\<lambda>(r, s). Ret r) = Fault"
  by code_simp

text \<open>\<open>str$prefix\<close> puts the prefix behind the string.\<close>

lemma prefix_is_behind:
  "bindo (str_prefix (\<lambda>k. True) 1 4 example2) (\<lambda>(r, s). bindo (val s 1) (\<lambda>xs. Ret (r, xs))) =
     Ret (STR_NORMAL, [65, 66, 67, 49, 48])"
  by code_simp

text \<open>A character below the blank at the end of the longer text makes it greater, not less.\<close>

lemma compare_ignores_low_characters:
  "str_compare example2 1 2 = Ret (- 1) \<and> sgn (cmp_bytes (padded 4 [65, 66, 67]) [65, 66, 67, 9]) = 1"
  by code_simp

text \<open>A start position of 0 reads the byte before the text; \<open>lib$index\<close> with a substring that is longer
  than the text reads behind it.\<close>

lemma position_zero_faults: "str_position example2 1 4 0 = Fault"
  by code_simp

lemma index_longer_faults: "lib_index example2 4 1 = Fault"
  by code_simp

text \<open>The length of a varying string of 128 characters or more is taken for a negative one.\<close>

lemma long_varying_panics: "str_analyze_sdesc example2 3 = Panic"
  by code_simp

text \<open>\<open>str$right\<close> gives a fixed string a length beyond its memory; releasing a fixed string frees memory
  that was never allocated.\<close>

lemma right_lengthens_fixed:
  "bindo (str_right (\<lambda>k. True) 4 2 2 example2) (\<lambda>(r, s). str_analyze_sdesc s 4) = Ret (3, (4, 0))"
  by code_simp

lemma free_fixed_faults: "bindo (str_free1_dx 4 example2) (\<lambda>(r, s). Ret r) = Fault"
  by code_simp

text \<open>Hexadecimal digits are read in base ten.\<close>

lemma hex_in_base_ten: "lib_cvt_htb example2 2 (4, 0) = Ret (1, 10)"
  by code_simp

end
