(* ===== verification/Spec2Isabelle.thy ===== *)
theory Spec2Isabelle
  imports Program_Output Time_Text_Props Binary_Tree_Props String_Props
begin

text \<open>
  A verification library for FreeVMS (\<open>src/sources/freevms\<close>), an operating system that runs as the
  root task of the L4Ka Pistachio microkernel on AMD64. The library models the executive (the code
  under \<open>src/sources/freevms/sys\<close>, with the headers under \<open>include/freevms\<close> and the inlined accessors
  of the L4 headers that it calls), the run-time library of its programs (\<open>freevms/librtl\<close>) and, of the VMS
  library (\<open>src/sources/userland/rtl\<close>), the date and time routines, the binary trees and the strings.

  \<^bold>\<open>The program.\<close> At boot \<open>freevms_main\<close> reads its parameters, collects the memory regions and initial
  objects from the kernel interface page and the boot information, starts the page allocators and the
  slab caches, registers the initial objects as memory sections, creates the first protection domain
  and the table of threads, loads \<open>PAGER.SYS\<close> and enters the server loop, which answers page faults and
  a few requests. Everything rests on a small kernel heap, linked lists, two kinds of free lists, a
  hash table and a B+ tree.

  \<^bold>\<open>Theories and sources.\<close>
  \<^item> \<open>Prelude\<close>: machine integers, the outcome type (a value, a \<open>PANIC\<close>, a bad memory access, or fuel
    that ran out), sequencing, and shared facts. \<open>Interfaces\<close>: the contracts of a heap
    (\<open>kernel_heap\<close>) and of an allocator of numbers (\<open>id_pool\<close>) as locales. \<open>Kernel_Heap\<close> interprets the
    first on its model; the clients \<open>Range_Freelist\<close> and \<open>Hash_Table\<close> are proved inside it, and the range
    list is a sublocale of the second, which \<open>Bit_Freelist\<close> interprets as well. \<open>Cyclic_Order\<close>: the order of
    addresses round the ring of free blocks.
  \<^item> \<open>L4_Types\<close>, \<open>Page_Math\<close>: flexpages and thread identifiers as 64-bit words with their bit fields
    (\<open>kernel/include/l4/types.h\<close>), rounding and orders (\<open>sys_alloc.c\<close>).
  \<^item> \<open>Regions\<close>: the tables of memory regions (\<open>sys$remove_chunk\<close>, \<open>sys$find_memory_region\<close>).
    \<open>Boot_Objects\<close>, \<open>Boot\<close>: strings, initial objects, start-up of memory (\<open>sys_ms_init.c\<close>).
  \<^item> \<open>Mutex\<close> (\<open>sys_mutex.c\<close>), \<open>Kernel_Heap\<close> (\<open>sys_core.c\<close>), \<open>Linked_Lists\<close> (\<open>sys_lists.c\<close>),
    \<open>Range_Freelist\<close> (\<open>sys_rfl.c\<close>), \<open>Bit_Freelist\<close> (\<open>sys_bfl.c\<close>), \<open>Hash_Table\<close> (\<open>sys_hash.c\<close>),
    \<open>Btree\<close> (\<open>sys_btree.c\<close>).
  \<^item> \<open>Slab\<close>, \<open>Fpage_Alloc\<close>: page allocators, slab caches, memory sections and their table
    (\<open>sys_alloc.c\<close>, \<open>sys_slab.c\<close>, \<open>sys_objtables.c\<close>). Their properties are in \<open>Page_Pool\<close> and
    \<open>Mem_Sections\<close>.
  \<^item> \<open>Twister\<close> (\<open>sec_rand.c\<close>), \<open>Threads\<close> (\<open>sys_thread.c\<close>, \<open>sys_pd_init.c\<close>, \<open>sys_quota.c\<close>,
    \<open>sec_caps.c\<close>), with properties in \<open>Thread_Props\<close>.
  \<^item> \<open>Services\<close> (\<open>sys_elf.c\<close>, \<open>sys_sigma0.c\<close>, \<open>sys_pager.c\<close>, \<open>sys_pagefault.c\<close>, \<open>sys_loop.c\<close>), with
    properties in \<open>Service_Props\<close>; \<open>Command_Line\<close> (\<open>sys_parsing.c\<close>, \<open>dev_tables.c\<close>,
    \<open>names_tables.c\<close>); \<open>Debug_Symbols\<close> (\<open>dbg_symbols.c\<close>).
  \<^item> \<open>Formatted_Output\<close> (\<open>librtl/rtl_sprint.c\<close>, \<open>rtl_str.c\<close>), with properties in \<open>Format_Props\<close>;
    \<open>Program_Output\<close> (\<open>librtl/rtl_print.c\<close>, \<open>rtl_init.c\<close>) joins it with the server loop.
  \<^item> \<open>Vms_Time\<close>: quadword times byte by byte, the calendar (\<open>lib_addx.c\<close>, \<open>lib_subx.c\<close>, \<open>lib_add_times.c\<close>,
    \<open>lib_sub_times.c\<close>, \<open>lib_mult_delta_time.c\<close>, \<open>sys__combine_date_time.c\<close>, \<open>sys_gettim.c\<close>, \<open>lib_day.c\<close>,
    \<open>lib_day_of_week.c\<close>, \<open>sys_numtim.c\<close>, \<open>lib_cvt_vectim.c\<close>), with properties in \<open>Time_Props\<close> and
    \<open>Calendar_Props\<close>; \<open>Time_Text\<close> (\<open>sys_asctim.c\<close>, \<open>sys_bintim.c\<close>), with properties in \<open>Time_Text_Props\<close>.
  \<^item> \<open>Binary_Tree\<close> (\<open>libbintree.c\<close>): nodes linked by pointers in an explicit memory, with the routines of
    the user as parameters, and the trees of addresses they are compared with; properties in
    \<open>Binary_Tree_Props\<close>.
  \<^item> \<open>Vms_Strings\<close> (\<open>strutil.c\<close>, \<open>str_analyze_sdesc.c\<close>, \<open>str_get1_dx.c\<close>, \<open>str_free1_dx.c\<close>, \<open>str_copy_r.c\<close>,
    \<open>str_copy_dx.c\<close>, \<open>str_left.c\<close>, \<open>str_right.c\<close>, \<open>str_pos_extr.c\<close>, \<open>str_len_extr.c\<close>, \<open>str_trim.c\<close>,
    \<open>str_upcase.c\<close>, \<open>str_append.c\<close>, \<open>str_prefix.c\<close>, \<open>str_concat.c\<close>, \<open>str_compare.c\<close>,
    \<open>str_compare_eql.c\<close>, \<open>str_blind_compare.c\<close>, \<open>str_find_first_in_set.c\<close>,
    \<open>str_find_first_not_in_set.c\<close>, \<open>str_position.c\<close>, \<open>lib_index.c\<close>, \<open>libmatchc.c\<close>, \<open>liblocc.c\<close>, the
    conversions \<open>lib_cvt_*tb.c\<close>): descriptors by address and bytes in blocks that can be freed;
    properties in \<open>String_Props\<close>.

  \<^bold>\<open>State.\<close> C structures are records and tagged unions datatypes, with the fields of the source. Linked
  structures live in stores from addresses to nodes, so that sharing and aliasing are explicit; the
  blocks they occupy come from the modelled heap. \<open>heap\<close> is the state of \<open>sys_core.c\<close>, \<open>mm\<close> that of the
  memory files, \<open>kmem\<close> adds threads, domains, capabilities and the random generator. Operations take
  the state and return it in an \<open>outcome\<close>. Calls into L4 and sigma0 are parameters, or recorded as
  effects where the code drops their result.

  \<^bold>\<open>What is shown.\<close>
  \<^item> The heap keeps its ring and its blocks disjoint; allocation and release return and do what they
    promise for every request below 4 GB.
  \<^item> Both free lists hand out the least free number and never one that is held; the range list stays
    sorted and coalesced. The hash table is a finite map per key. A search in the B+ tree finds the
    object that contains an address. The mutex excludes inside, but not for its users.
  \<^item> Region tables stay disjoint and cover exactly what the memory descriptors mean. The page allocator
    and the freeing of a chunk keep the free pages disjoint and lose or gain no address. Slabs, names,
    sections and translations read back what was stored.
  \<^item> A thread gets the least free identifier and a place in the table. An access check or an answered
    page fault implies a capability. The loader's effect on memory is described byte by byte. Requests
    are answered. The symbol look-up is a comparison of addresses.
  \<^item> Formatted output stays within its array, decimal numbers read back, and what a program prints is
    what the executive puts on the console.
  \<^item> The byte loops of the time routines add, subtract and multiply modulo the size of their operands.
    Every day has one date, which is the one that is computed; dates survive the ways into fields and
    into text and back; fields that are no date are refused.
  \<^item> An insertion into a binary tree in memory is an insertion into the sorted list of its nodes; a
    look-up finds what was inserted; a rebalancing keeps order, records heights and changes one link
    outside the subtree, but the tree as a whole is not balanced. Copies, parts, joining, comparison and
    search of strings are those of lists of bytes, and touch only memory that is there.
  \<^item> Where the code does not do what it means to, the theorem says what it does: overlapping regions and
    ranges that are lost or accepted, an unterminated name, an overrun table, sections one byte short,
    passwords that are few and never compared, memory that is reported as backed and is not.

  \<^bold>\<open>Loops and fuel.\<close> Loops whose measure is evident are \<open>fun\<close> or \<open>function\<close>. Walks round linked
  structures are partial functions that return \<open>None\<close> when they do not end; the invariants show that
  they end. The mutual recursion of page allocators and slab caches, the loops over pages and the
  loops over headers in memory take fuel, like the search and the recursion over the binary tree, where
  the number of nodes and one more is enough; the theorems name an amount that is enough, and running out
  is an outcome of its own, so no theorem holds because a loop stopped early.

  \<^bold>\<open>Not modelled.\<close> Messages on the console; the backtrace itself and assembler start-up code;
  \<open>sys_main.c\<close>, which calls the parts in turn; \<open>sys_init.c\<close>, which returns before its first statement;
  the bodies under \<open>vm\<close> and \<open>init\<close>, which are commented out or only print. Arithmetic on \<open>double\<close> in
  the formatted output and the clock of the host are parameters. The other routines under
  \<open>userland/rtl\<close>, which no target builds, are decimal arithmetic on strings, elements, translation,
  replacement and wildcards, floating-point conversion, and memory, message and parsing routines. \<open>libearly\<close>, the L4
  kernel, GRUB and \<open>contrib\<close> are taken over from other projects.
\<close>

end
